(* ===== verification/Solver_Prelude.thy ===== *)
theory Solver_Prelude
  imports "HOL-Library.Word" "HOL-Library.Multiset"
begin

text \<open>
  Shared vocabulary of the development: the fixed-width integers of the Rust
  code with the arithmetic operations the sources call on them, the identifiers
  of tokens, notes and external exchanges, the readings of the word operations
  as natural numbers (collected in \<open>u_arith\<close>), and two interfaces that several
  components instantiate: a total preorder on keys (what an ordered map asks of
  its key type) and a transition system with an invariant.
\<close>

declare split_paired_All [simp del] split_paired_Ex [simp del] of_nat_unat [simp del]

section \<open>Integers and identifiers\<close>

type_synonym u8 = "8 word"
type_synonym u32 = "32 word"
type_synonym u64 = "64 word"
type_synonym u128 = "128 word"

type_synonym Amount = u64
type_synonym UnixSecs = u64
type_synonym DexId = u64

text \<open>
  \<open>AccountId\<close> and \<open>NoteId\<close> belong to the protocol crates. The solver copies,
  compares, orders and hashes them and never looks inside, so any countable
  linearly ordered type stands for them.
\<close>

type_synonym TokenId = nat
type_synonym OrderId = nat
type_synonym bytes = "u8 list"

named_theorems u_arith \<open>unat readings of the fixed-width operations\<close>

definition as_u128 :: "u64 \<Rightarrow> u128" where
  "as_u128 x = ucast x"

definition as_u64 :: "u128 \<Rightarrow> u64" where
  "as_u64 x = ucast x"

definition saturating_sub :: "'a::len word \<Rightarrow> 'a word \<Rightarrow> 'a word" where
  "saturating_sub a b = (if b \<le> a then a - b else 0)"

definition saturating_add :: "'a::len word \<Rightarrow> 'a word \<Rightarrow> 'a word" where
  "saturating_add a b = (if a \<le> a + b then a + b else - 1)"

definition checked_mul :: "'a::len word \<Rightarrow> 'a word \<Rightarrow> 'a word option" where
  "checked_mul a b = (if uint a * uint b < 2 ^ LENGTH('a) then Some (a * b) else None)"

definition saturating_mul :: "'a::len word \<Rightarrow> 'a word \<Rightarrow> 'a word" where
  "saturating_mul a b = (case checked_mul a b of Some c \<Rightarrow> c | None \<Rightarrow> - 1)"

lemma unat_lt_exp: "unat (x :: 'a::len word) < 2 ^ LENGTH('a)"
  by (rule unsigned_less)

lemma unat_u64_lt: "unat (x :: u64) < 2 ^ 64"
  using unat_lt_exp [of x] by simp

lemma unat_u128_lt: "unat (x :: u128) < 2 ^ 128"
  using unat_lt_exp [of x] by simp

lemma unat_as_u128 [u_arith, simp]: "unat (as_u128 x) = unat x"
  using unat_lt_exp [of x] by (simp add: as_u128_def unsigned_ucast_eq take_bit_nat_eq_self)

lemma unat_as_u64 [u_arith]: "unat (as_u64 x) = unat x mod 2 ^ 64"
  by (simp add: as_u64_def unsigned_ucast_eq take_bit_eq_mod)

lemma as_u128_inj [simp]: "as_u128 x = as_u128 y \<longleftrightarrow> x = y"
  by (metis unat_as_u128 word_unat_eq_iff)

text \<open>A product of two 64-bit amounts always fits the 128-bit intermediate.\<close>

lemma unat_widening_mul [u_arith, simp]:
  "unat (as_u128 a * as_u128 b) = unat a * unat b"
proof -
  have "unat a * unat b < 2 ^ 64 * 2 ^ 64"
    by (intro mult_strict_mono unat_u64_lt) auto
  then show ?thesis
    by (simp add: unat_word_ariths)
qed

lemma widening_mul_le [u_arith]:
  "as_u128 a * as_u128 b \<le> as_u128 c * as_u128 d \<longleftrightarrow> unat a * unat b \<le> unat c * unat d"
  by (simp add: word_le_nat_alt)

lemma widening_mul_less [u_arith]:
  "as_u128 a * as_u128 b < as_u128 c * as_u128 d \<longleftrightarrow> unat a * unat b < unat c * unat d"
  by (simp add: word_less_nat_alt)

lemma widening_mul_eq [u_arith]:
  "as_u128 a * as_u128 b = as_u128 c * as_u128 d \<longleftrightarrow> unat a * unat b = unat c * unat d"
  by (simp add: word_unat_eq_iff)

lemma unat_sub_le [u_arith]: "b \<le> a \<Longrightarrow> unat (a - b) = unat a - unat b"
  by (simp add: unat_sub word_le_nat_alt)

lemma unat_min [u_arith]: "unat (min a b) = min (unat a) (unat b)"
  by (simp add: min_def word_le_nat_alt)

lemma unat_pos [simp]: "0 < unat x \<longleftrightarrow> x \<noteq> 0"
  by (simp add: unat_gt_0)

lemma unat_saturating_sub [u_arith, simp]:
  "unat (saturating_sub a b) = unat a - unat b"
  by (auto simp: saturating_sub_def unat_sub word_le_nat_alt)

lemma unat_add_no_wrap:
  fixes a b :: "'a::len word"
  assumes "unat a + unat b < 2 ^ LENGTH('a)"
  shows "unat (a + b) = unat a + unat b"
  using assms by (simp add: unat_word_ariths)

lemma unat_add_wrap:
  fixes a b :: "'a::len word"
  assumes "\<not> unat a + unat b < 2 ^ LENGTH('a)"
  shows "unat (a + b) = unat a + unat b - 2 ^ LENGTH('a)"
proof -
  have "unat a + unat b - 2 ^ LENGTH('a) < 2 ^ LENGTH('a)"
    using unat_lt_exp [of a] unat_lt_exp [of b] by linarith
  then show ?thesis
    using assms by (simp add: unat_word_ariths le_mod_geq)
qed

lemma unat_saturating_add [u_arith]:
  fixes a b :: "'a::len word"
  shows "unat (saturating_add a b) = min (unat a + unat b) (2 ^ LENGTH('a) - 1)"
proof (cases "unat a + unat b < 2 ^ LENGTH('a)")
  case True
  with unat_add_no_wrap [OF True] show ?thesis
    by (simp add: saturating_add_def word_le_nat_alt)
next
  case False
  have "\<not> a \<le> a + b"
    using unat_add_wrap [OF False] unat_lt_exp [of b] False
    unfolding word_le_nat_alt by linarith
  moreover have "unat (- 1 :: 'a word) = 2 ^ LENGTH('a) - 1"
    by (simp add: unsigned_minus_1_eq_mask mask_eq_exp_minus_1)
  ultimately show ?thesis
    using False by (simp add: saturating_add_def)
qed

lemma checked_mul_nat:
  fixes a b :: "'a::len word"
  shows "checked_mul a b = (if unat a * unat b < 2 ^ LENGTH('a) then Some (a * b) else None)"
proof -
  have "uint a * uint b < 2 ^ LENGTH('a) \<longleftrightarrow> int (unat a * unat b) < int (2 ^ LENGTH('a))"
    by (simp only: of_nat_mult of_nat_unat of_nat_power of_nat_numeral)
  also have "\<dots> \<longleftrightarrow> unat a * unat b < 2 ^ LENGTH('a)"
    by (rule of_nat_less_iff)
  finally show ?thesis
    by (simp add: checked_mul_def)
qed

lemma checked_mul_Some_iff:
  fixes a b :: "'a::len word"
  shows "checked_mul a b = Some c \<longleftrightarrow> unat c = unat a * unat b"
proof (cases "unat a * unat b < 2 ^ LENGTH('a)")
  case True
  then show ?thesis
    by (auto simp: checked_mul_nat unat_word_ariths word_unat_eq_iff)
next
  case False
  then have "unat c \<noteq> unat a * unat b"
    using unat_lt_exp [of c] by metis
  with False show ?thesis
    by (simp add: checked_mul_nat)
qed

lemma unat_saturating_mul [u_arith]:
  fixes a b :: "'a::len word"
  shows "unat (saturating_mul a b) = min (unat a * unat b) (2 ^ LENGTH('a) - 1)"
proof -
  have "unat (- 1 :: 'a word) = 2 ^ LENGTH('a) - 1"
    by (simp add: unsigned_minus_1_eq_mask mask_eq_exp_minus_1)
  then show ?thesis
    by (auto simp: saturating_mul_def checked_mul_nat unat_word_ariths split: option.splits)
qed

section \<open>Hash iteration\<close>

text \<open>
  The standard library does not specify in which order a hash container is
  walked, only that the walk visits every element once. Where the order can
  matter it is a parameter; \<open>walks\<close> is what a program may rely on.
\<close>

definition walks :: "('a set \<Rightarrow> 'a list) \<Rightarrow> bool" where
  "walks order \<longleftrightarrow> (\<forall>S. finite S \<longrightarrow> distinct (order S) \<and> set (order S) = S)"

lemma walksD:
  assumes "walks order" "finite S"
  shows "distinct (order S)" "set (order S) = S"
  using assms by (simp_all add: walks_def)

lemma walks_sorted_list: "walks (sorted_list_of_set :: 'a::linorder set \<Rightarrow> 'a list)"
  by (simp add: walks_def)

section \<open>Interfaces\<close>

text \<open>
  What an ordered map asks of the comparison of its keys: on the keys that are
  \<open>valid\<close> the comparison is a total preorder. Keys that compare equal both ways
  are one key of the map, whatever their representation.
\<close>

locale key_order =
  fixes valid :: "'k \<Rightarrow> bool"
    and le :: "'k \<Rightarrow> 'k \<Rightarrow> bool"
  assumes le_total: "valid a \<Longrightarrow> valid b \<Longrightarrow> le a b \<or> le b a"
    and le_trans: "valid a \<Longrightarrow> valid b \<Longrightarrow> valid c \<Longrightarrow> le a b \<Longrightarrow> le b c \<Longrightarrow> le a c"
begin

lemma le_refl: "valid a \<Longrightarrow> le a a"
  using le_total by blast

lemma not_le_imp_le: "valid a \<Longrightarrow> valid b \<Longrightarrow> \<not> le a b \<Longrightarrow> le b a"
  using le_total by blast

end

text \<open>
  A transition system with an invariant: what holds in every initial state and
  is kept by every step holds in every reachable state.
\<close>

locale invariant_system =
  fixes init :: "'s \<Rightarrow> bool"
    and step :: "'s \<Rightarrow> 's \<Rightarrow> bool"
    and inv :: "'s \<Rightarrow> bool"
  assumes init_inv: "init s \<Longrightarrow> inv s"
    and step_inv: "inv s \<Longrightarrow> step s t \<Longrightarrow> inv t"
begin

lemma steps_inv: "step\<^sup>*\<^sup>* s t \<Longrightarrow> inv s \<Longrightarrow> inv t"
  by (induction rule: rtranclp_induct) (auto intro: step_inv)

lemma reachable_inv: "init s \<Longrightarrow> step\<^sup>*\<^sup>* s t \<Longrightarrow> inv t"
  using init_inv steps_inv by blast

end

end
