(* ===== verification/Ordered_Map.thy ===== *)
theory Ordered_Map
  imports Solver_Prelude
begin

text \<open>
  The ordered map of the Rust standard library (\<open>BTreeMap\<close>) as the solver uses
  it: a list of entries in ascending key order, searched with the \<open>Ord\<close>
  comparison of the key type. \<open>om_alter\<close> is the entry operation: it hands the
  value found under a key to a function that keeps, replaces, inserts or
  removes it. An entry that compares \<open>Equal\<close> keeps its own representation of the
  key, as \<open>BTreeMap\<close> does. The lemmas hold for every comparison that is a total
  preorder on the valid keys, the interface \<open>ordered_keys\<close>.
\<close>

datatype Ordering = Less | Equal | Greater

fun om_get :: "('k \<Rightarrow> 'k \<Rightarrow> Ordering) \<Rightarrow> 'k \<Rightarrow> ('k \<times> 'v) list \<Rightarrow> 'v option" where
  "om_get cmp k [] = None"
| "om_get cmp k ((k', v) # t) =
     (case cmp k k' of Less \<Rightarrow> None | Equal \<Rightarrow> Some v | Greater \<Rightarrow> om_get cmp k t)"

fun om_alter :: "('k \<Rightarrow> 'k \<Rightarrow> Ordering) \<Rightarrow> 'k \<Rightarrow> ('v option \<Rightarrow> 'v option)
    \<Rightarrow> ('k \<times> 'v) list \<Rightarrow> ('k \<times> 'v) list" where
  "om_alter cmp k f [] = (case f None of None \<Rightarrow> [] | Some w \<Rightarrow> [(k, w)])"
| "om_alter cmp k f ((k', v) # t) =
     (case cmp k k' of
        Less \<Rightarrow> (case f None of None \<Rightarrow> (k', v) # t | Some w \<Rightarrow> (k, w) # (k', v) # t)
      | Equal \<Rightarrow> (case f (Some v) of None \<Rightarrow> t | Some w \<Rightarrow> (k', w) # t)
      | Greater \<Rightarrow> (k', v) # om_alter cmp k f t)"

definition om_sorted :: "('k \<Rightarrow> 'k \<Rightarrow> Ordering) \<Rightarrow> ('k \<times> 'v) list \<Rightarrow> bool" where
  "om_sorted cmp t \<longleftrightarrow> sorted_wrt (\<lambda>a b. cmp a b = Less) (map fst t)"

section \<open>Search path\<close>

text \<open>These facts follow the search path and need no law of the comparison.\<close>

lemma om_alter_set:
  "(k', w) \<in> set (om_alter cmp k f t) \<Longrightarrow>
     (k', w) \<in> set t
     \<or> om_get cmp k t = None \<and> f None = Some w \<and> k' = k
     \<or> (\<exists>v. om_get cmp k t = Some v \<and> f (Some v) = Some w \<and> (k', v) \<in> set t \<and> cmp k k' = Equal)"
  by (induction t) (auto split: option.splits Ordering.splits)

lemma om_get_set: "om_get cmp k t = Some v \<Longrightarrow> \<exists>k'. (k', v) \<in> set t \<and> cmp k k' = Equal"
  by (induction t) (auto split: Ordering.splits)

lemma om_alter_keys:
  "k' \<in> fst ` set (om_alter cmp k f t) \<Longrightarrow> k' = k \<or> k' \<in> fst ` set t"
  by (induction t) (force split: option.splits Ordering.splits)+

text \<open>The entries of a map whose values are lists, read as one list.\<close>

abbreviation opt_list :: "'a list option \<Rightarrow> 'a list" where
  "opt_list xs \<equiv> (case xs of None \<Rightarrow> [] | Some ys \<Rightarrow> ys)"

lemma om_get_subset: "x \<in> set (opt_list (om_get cmp k t)) \<Longrightarrow> x \<in> set (concat (map snd t))"
  by (cases "om_get cmp k t") (force dest: om_get_set)+

lemma om_get_distinct:
  "distinct (concat (map snd t)) \<Longrightarrow> distinct (opt_list (om_get cmp k t))"
  by (induction t) (auto split: Ordering.splits)

lemma om_alter_concat:
  "mset (concat (map snd (om_alter cmp k f t))) + mset (opt_list (om_get cmp k t))
     = mset (concat (map snd t)) + mset (opt_list (f (om_get cmp k t)))"
  by (induction t) (auto split: option.splits Ordering.splits)

section \<open>Laws on sorted maps\<close>

locale ordered_keys = key_order valid le
  for valid :: "'k \<Rightarrow> bool" and le :: "'k \<Rightarrow> 'k \<Rightarrow> bool" +
  fixes cmp :: "'k \<Rightarrow> 'k \<Rightarrow> Ordering"
  assumes cmp_Less: "cmp a b = Less \<longleftrightarrow> \<not> le b a"
    and cmp_Equal: "cmp a b = Equal \<longleftrightarrow> le a b \<and> le b a"
begin

lemma cmp_Greater: "cmp a b = Greater \<longleftrightarrow> \<not> le a b \<and> le b a"
  using cmp_Less [of a b] cmp_Equal [of a b] by (cases "cmp a b") auto

lemmas cmp_iffs = cmp_Less cmp_Equal cmp_Greater

lemma om_alter_sorted:
  assumes "om_sorted cmp t" "valid k" "\<forall>x \<in> fst ` set t. valid x"
  shows "om_sorted cmp (om_alter cmp k f t)"
  using assms
proof (induction t)
  case (Cons e t)
  obtain k' v where e: "e = (k', v)" by (cases e)
  have srt: "om_sorted cmp t" and gt: "\<forall>x \<in> fst ` set t. cmp k' x = Less"
    using Cons.prems(1) by (auto simp: om_sorted_def e)
  have IH: "om_sorted cmp (om_alter cmp k f t)"
    using Cons.IH srt Cons.prems(2,3) by simp
  have below: "\<forall>x \<in> fst ` set (om_alter cmp k f t). cmp k' x = Less" if "cmp k k' = Greater"
  proof
    fix x
    assume "x \<in> fst ` set (om_alter cmp k f t)"
    then have "x = k \<or> x \<in> fst ` set t"
      by (rule om_alter_keys)
    with that gt show "cmp k' x = Less"
      by (auto simp: cmp_iffs)
  qed
  have trans: "cmp k x = Less" if "cmp k k' = Less" "x \<in> fst ` set t" for x
    using that gt Cons.prems(2,3) le_trans [of x k' k] le_trans [of x k k'] not_le_imp_le [of k' k]
    by (auto simp: cmp_iffs e)
  show ?case
    using Cons.prems(1) IH below trans srt gt
    by (auto simp: om_sorted_def e split: Ordering.splits option.splits)
qed (auto simp: om_sorted_def split: option.splits)

lemma om_sorted_head_le:
  assumes "om_sorted cmp (e # t)" "\<forall>x \<in> fst ` set (e # t). valid x" "e' \<in> set (e # t)"
  shows "le (fst e) (fst e')"
proof (cases "e' = e")
  case True
  with assms show ?thesis by (simp add: le_refl)
next
  case False
  with assms have "cmp (fst e) (fst e') = Less" "valid (fst e)" "valid (fst e')"
    by (auto simp: om_sorted_def)
  then show ?thesis
    using not_le_imp_le cmp_Less by blast
qed

lemma om_get_entry:
  assumes "om_sorted cmp t" "valid k" "\<forall>x \<in> fst ` set t. valid x"
    and "(k', v) \<in> set t" "cmp k k' = Equal"
  shows "om_get cmp k t = Some v"
  using assms
proof (induction t)
  case (Cons e t)
  obtain k1 v1 where e: "e = (k1, v1)" by (cases e)
  show ?case
  proof (cases "(k', v) = e")
    case True
    with Cons.prems show ?thesis by (simp add: e)
  next
    case False
    then have in_t: "(k', v) \<in> set t" using Cons.prems by simp
    then have "cmp k1 k' = Less"
      using Cons.prems(1) by (force simp: om_sorted_def e)
    moreover have "valid k'" "valid k1"
      using Cons.prems(3) in_t by (force simp: e)+
    ultimately have "cmp k k1 = Greater"
      using Cons.prems(2,5) by (auto simp: cmp_iffs) (metis le_trans le_total)+
    then show ?thesis
      using Cons in_t by (auto simp: e om_sorted_def)
  qed
qed simp

end

end
