(* ===== verification/Matching_Types.thy ===== *)
theory Matching_Types
  imports Ordered_Map Complex_Main
begin

text \<open>
  The order arithmetic of \<open>matching/types.rs\<close>: rate keys and their exact
  comparison, the order record with its fill operations, and the two-order
  match. Every amount is a 64-bit word and every product a 128-bit word, as in
  the source; the lemmas read them as natural numbers. The divisor of
  \<open>calculate_output_amount\<close> is the \<open>requested\<close> amount of an order, which is
  nonzero for the orders that satisfy \<open>wf_order\<close> (the parser rejects zero
  amounts); on a zero divisor the Rust division panics and the word division
  below returns zero.
\<close>

section \<open>Data\<close>

record RateKey =
  rk_requested :: Amount
  rk_offered :: Amount

record Order =
  order_id :: OrderId
  offered_token :: TokenId
  requested_token :: TokenId
  offered :: Amount
  requested :: Amount
  requested_remaining :: Amount

record MatchResult =
  surplus_offered :: Amount
  surplus_requested :: Amount

record BestLevel =
  bl_rate :: RateKey
  bl_volume :: Amount

type_synonym SwapBookSnapshot = "TokenId \<times> TokenId \<Rightarrow> BestLevel option"

record SettlementBatch =
  filled_orders :: "OrderId set"
  batch_balances :: "(TokenId \<times> Amount) list"
  cycles_executed :: u64
  remaining_orders :: u64

section \<open>Rate keys\<close>

definition RateKey_new :: "Amount \<Rightarrow> Amount \<Rightarrow> RateKey" where
  "RateKey_new req off = \<lparr>rk_requested = req, rk_offered = off\<rparr>"

definition RateKey_eq :: "RateKey \<Rightarrow> RateKey \<Rightarrow> bool" where
  "RateKey_eq self other \<longleftrightarrow>
     as_u128 (rk_requested self) * as_u128 (rk_offered other)
       = as_u128 (rk_requested other) * as_u128 (rk_offered self)"

definition u128_cmp :: "u128 \<Rightarrow> u128 \<Rightarrow> Ordering" where
  "u128_cmp a b = (if a < b then Less else if a = b then Equal else Greater)"

definition RateKey_cmp :: "RateKey \<Rightarrow> RateKey \<Rightarrow> Ordering" where
  "RateKey_cmp self other =
     (let lhs = as_u128 (rk_requested self) * as_u128 (rk_offered other);
          rhs = as_u128 (rk_requested other) * as_u128 (rk_offered self)
      in u128_cmp lhs rhs)"

definition RateKey_le :: "RateKey \<Rightarrow> RateKey \<Rightarrow> bool" where
  "RateKey_le a b \<longleftrightarrow> RateKey_cmp a b \<noteq> Greater"

section \<open>Order operations\<close>

definition calculate_output_amount :: "Amount \<Rightarrow> Amount \<Rightarrow> Amount \<Rightarrow> Amount" where
  "calculate_output_amount offered_total requested_total fill_amount =
     as_u64 ((as_u128 offered_total * as_u128 fill_amount) div as_u128 requested_total)"

definition rate_key :: "Order \<Rightarrow> RateKey" where
  "rate_key self = RateKey_new (requested self) (offered self)"

definition is_active :: "Order \<Rightarrow> bool" where
  "is_active self \<longleftrightarrow> requested_remaining self > 0"

definition is_completely_filled :: "Order \<Rightarrow> bool" where
  "is_completely_filled self \<longleftrightarrow> requested_remaining self = 0"

definition requested_filled :: "Order \<Rightarrow> Amount" where
  "requested_filled self = requested self - requested_remaining self"

definition offered_for :: "Order \<Rightarrow> Amount \<Rightarrow> Amount" where
  "offered_for self requested_fill =
     calculate_output_amount (offered self) (requested self) requested_fill"

definition requested_for :: "Order \<Rightarrow> Amount \<Rightarrow> Amount" where
  "requested_for self offered_amount =
     calculate_output_amount (requested self) (offered self) offered_amount"

definition min_fill_for_release :: "Order \<Rightarrow> Amount \<Rightarrow> Amount" where
  "min_fill_for_release self target =
     (if target = 0 then 0
      else if target \<ge> offered self then requested self
      else
        let fill0 = as_u64 ((as_u128 target * as_u128 (requested self)) div as_u128 (offered self));
            fill = min fill0 (requested self)
        in if offered_for self fill \<ge> target then fill
           else min (fill + 1) (requested self))"

definition offered_remaining :: "Order \<Rightarrow> Amount" where
  "offered_remaining self = offered_for self (requested_remaining self)"

text \<open>The mutating methods return the released amount and the updated order.\<close>

definition fill :: "Order \<Rightarrow> Amount \<Rightarrow> Amount \<times> Order" where
  "fill self amt =
     (let amt' = min amt (requested_remaining self);
          released = offered_for self amt'
      in (released, self\<lparr>requested_remaining := requested_remaining self - amt'\<rparr>))"

definition full_fill :: "Order \<Rightarrow> Amount \<times> Order" where
  "full_fill self = (offered_remaining self, self\<lparr>requested_remaining := 0\<rparr>)"

definition is_profitable_with :: "Order \<Rightarrow> Order \<Rightarrow> bool" where
  "is_profitable_with self other \<longleftrightarrow>
     as_u128 (offered self) * as_u128 (offered other)
       > as_u128 (requested self) * as_u128 (requested other)"

definition match_with :: "Order \<Rightarrow> Order \<Rightarrow> MatchResult option \<times> Order \<times> Order" where
  "match_with self other =
     (if \<not> is_active self \<or> \<not> is_active other then (None, self, other)
      else if \<not> is_profitable_with self other then (None, self, other)
      else
        let self_sends = min (offered_remaining self) (requested_remaining other)
        in if self_sends = 0 then (None, self, other)
        else
          let (other_releases, other') = fill other self_sends
          in if other_releases = 0 then (None, self, other')
          else
            let self_receives = min other_releases (requested_remaining self);
                (self_releases, self') = fill self self_receives
            in if self_releases < self_sends then (None, self', other')
            else (Some \<lparr>surplus_offered = saturating_sub self_releases self_sends,
                        surplus_requested = saturating_sub other_releases self_receives\<rparr>,
                  self', other'))"

text \<open>
  The well-formedness of an order of the book: nonzero totals (what the parser
  of notes guarantees) and a remainder that never exceeds the total.
\<close>

definition wf_order :: "Order \<Rightarrow> bool" where
  "wf_order ord \<longleftrightarrow> offered ord \<noteq> 0 \<and> requested ord \<noteq> 0
     \<and> requested_remaining ord \<le> requested ord"


section \<open>Rate keys are ordered by the exact rate\<close>

definition rate_valid :: "RateKey \<Rightarrow> bool" where
  "rate_valid k \<longleftrightarrow> rk_offered k \<noteq> 0"

lemma RateKey_le_nat:
  "RateKey_le a b \<longleftrightarrow> unat (rk_requested a) * unat (rk_offered b)
     \<le> unat (rk_requested b) * unat (rk_offered a)"
  by (auto simp: RateKey_le_def RateKey_cmp_def u128_cmp_def Let_def u_arith)

lemma RateKey_eq_nat:
  "RateKey_eq a b \<longleftrightarrow> unat (rk_requested a) * unat (rk_offered b)
     = unat (rk_requested b) * unat (rk_offered a)"
  by (simp add: RateKey_eq_def u_arith)

lemma RateKey_cmp_Equal: "RateKey_cmp a b = Equal \<longleftrightarrow> RateKey_eq a b"
  by (auto simp: RateKey_eq_def RateKey_cmp_def u128_cmp_def Let_def)

lemma RateKey_cmp_Less: "RateKey_cmp a b = Less \<longleftrightarrow> \<not> RateKey_le b a"
  by (auto simp: RateKey_le_nat RateKey_cmp_def u128_cmp_def Let_def u_arith)

lemma RateKey_eq_le: "RateKey_eq a b \<longleftrightarrow> RateKey_le a b \<and> RateKey_le b a"
  by (auto simp: RateKey_eq_nat RateKey_le_nat)

lemma cross_mult_trans:
  fixes r s t x y z :: nat
  assumes "r * y \<le> s * x" "s * z \<le> t * y" "0 < y"
  shows "r * z \<le> t * x"
proof -
  have "(r * z) * y \<le> (s * x) * z"
    using mult_right_mono [OF assms(1), of z] by (simp add: ac_simps)
  also have "\<dots> \<le> (t * x) * y"
    using mult_right_mono [OF assms(2), of x] by (simp add: ac_simps)
  finally show ?thesis
    using assms(3) by simp
qed

interpretation rate_order: ordered_keys rate_valid RateKey_le RateKey_cmp
proof unfold_locales
  fix a b c
  show "RateKey_le a b \<or> RateKey_le b a"
    by (auto simp: RateKey_le_nat)
  assume "rate_valid b" "RateKey_le a b" "RateKey_le b c"
  then show "RateKey_le a c"
    unfolding RateKey_le_nat rate_valid_def by (auto intro: cross_mult_trans)
qed (simp_all add: RateKey_cmp_Less RateKey_cmp_Equal RateKey_eq_le)

lemma RateKey_eq_refl [simp]: "RateKey_eq k k"
  by (simp add: RateKey_eq_nat)

lemma RateKey_eq_sym: "RateKey_eq a b \<longleftrightarrow> RateKey_eq b a"
  by (auto simp: RateKey_eq_nat)

text \<open>The real-valued rate the key stands for.\<close>

definition rate_of :: "RateKey \<Rightarrow> real" where
  "rate_of k = real (unat (rk_requested k)) / real (unat (rk_offered k))"

lemma RateKey_le_rate:
  assumes "rate_valid a" "rate_valid b"
  shows "RateKey_le a b \<longleftrightarrow> rate_of a \<le> rate_of b"
proof -
  have "0 < real (unat (rk_offered a))" "0 < real (unat (rk_offered b))"
    using assms unfolding rate_valid_def of_nat_0_less_iff by simp_all
  then have "rate_of a \<le> rate_of b \<longleftrightarrow> real (unat (rk_requested a)) * real (unat (rk_offered b))
      \<le> real (unat (rk_requested b)) * real (unat (rk_offered a))"
    unfolding rate_of_def by (simp add: divide_le_eq pos_le_divide_eq mult.commute)
  then show ?thesis
    unfolding RateKey_le_nat of_nat_mult [symmetric] of_nat_le_iff by simp
qed

section \<open>The released amount\<close>

lemma div_superadd: "x div c + y div c \<le> (x + y) div (c :: nat)"
  using div_add1_eq [of x y c] by linarith

lemma mult_div_le_left: "x \<le> c \<Longrightarrow> a * x div c \<le> (a :: nat)"
proof (cases "c = 0")
  case False
  assume "x \<le> c"
  then have "a * x div c \<le> a * c div c"
    by (intro div_le_mono mult_le_mono2)
  with False show ?thesis
    by simp
qed simp

lemma unat_offered_for:
  assumes "x \<le> requested ord"
  shows "unat (offered_for ord x) = unat (offered ord) * unat x div unat (requested ord)"
proof -
  have le: "unat (offered ord) * unat x div unat (requested ord) \<le> unat (offered ord)"
    using assms by (simp add: word_le_nat_alt mult_div_le_left)
  then have "unat (offered ord) * unat x div unat (requested ord) < 2 ^ 64"
    using unat_u64_lt le_less_trans by blast
  then show ?thesis
    by (simp add: offered_for_def calculate_output_amount_def unat_as_u64 unat_div_distrib)
qed

lemma offered_for_le_offered: "x \<le> requested ord \<Longrightarrow> offered_for ord x \<le> offered ord"
  by (simp add: word_le_nat_alt unat_offered_for mult_div_le_left)

lemma offered_for_mono:
  "x \<le> y \<Longrightarrow> y \<le> requested ord \<Longrightarrow> offered_for ord x \<le> offered_for ord y"
  by (simp add: word_le_nat_alt unat_offered_for div_le_mono)

lemma offered_for_superadd:
  assumes "unat x + unat y \<le> unat (requested ord)"
  shows "unat (offered_for ord x) + unat (offered_for ord y) \<le> unat (offered_for ord (x + y))"
proof -
  have xy: "unat (x + y) = unat x + unat y"
    using assms unat_u64_lt [of "requested ord"] by (intro unat_add_no_wrap) simp
  then have "x \<le> requested ord" "y \<le> requested ord" "x + y \<le> requested ord"
    using assms by (simp_all add: word_le_nat_alt)
  then show ?thesis
    using div_superadd by (simp add: unat_offered_for xy distrib_left)
qed

lemma offered_for_zero [simp]: "offered_for ord 0 = 0"
  by (simp add: offered_for_def calculate_output_amount_def as_u128_def as_u64_def)

lemma offered_for_requested [simp]:
  assumes "requested ord \<noteq> 0"
  shows "offered_for ord (requested ord) = offered ord"
proof -
  have "unat (offered_for ord (requested ord)) = unat (offered ord)"
    using assms by (simp add: unat_offered_for)
  then show ?thesis
    by (simp only: word_unat_eq_iff)
qed

lemma offered_for_limit:
  assumes "x \<le> requested ord"
  shows "unat (offered_for ord x) * unat (requested ord) \<le> unat (offered ord) * unat x"
  by (simp add: unat_offered_for [OF assms])

lemma offered_for_fields [simp]:
  "offered_for (ord\<lparr>requested_remaining := r\<rparr>) x = offered_for ord x"
  by (simp add: offered_for_def)

section \<open>Fills\<close>

lemma fill_eq:
  "fill ord x = (offered_for ord (min x (requested_remaining ord)),
     ord\<lparr>requested_remaining := requested_remaining ord - min x (requested_remaining ord)\<rparr>)"
  by (simp add: fill_def Let_def)

lemma word_diff_le: "y \<le> x \<Longrightarrow> x - y \<le> (x :: 'a::len word)"
  by (simp add: word_le_nat_alt unat_sub_le)

lemma word_less_sub_nonzero:
  fixes x y :: "'a::len word"
  assumes "y \<le> x" "y \<noteq> 0"
  shows "x - y < x"
proof -
  have "0 < unat y" "unat y \<le> unat x"
    using assms by (simp_all add: word_le_nat_alt)
  then show ?thesis
    unfolding word_less_nat_alt unat_sub_le [OF assms(1)] by linarith
qed

lemma wf_order_fill [intro]: "wf_order ord \<Longrightarrow> wf_order (snd (fill ord x))"
  unfolding wf_order_def fill_eq
  by (auto intro: order.trans [OF word_diff_le])

lemma fill_keeps [simp]:
  "order_id (snd (fill ord x)) = order_id ord"
  "offered_token (snd (fill ord x)) = offered_token ord"
  "requested_token (snd (fill ord x)) = requested_token ord"
  "offered (snd (fill ord x)) = offered ord"
  "requested (snd (fill ord x)) = requested ord"
  by (simp_all add: fill_eq)

lemma is_active_iff: "is_active ord \<longleftrightarrow> requested_remaining ord \<noteq> 0"
  by (simp add: is_active_def word_gt_0)

lemma is_completely_filled_iff: "is_completely_filled ord \<longleftrightarrow> \<not> is_active ord"
  by (simp add: is_active_iff is_completely_filled_def)

lemma full_fill_eq_fill: "full_fill ord = fill ord (requested_remaining ord)"
  by (simp add: full_fill_def fill_eq offered_remaining_def)

lemma requested_filled_nat:
  "wf_order ord \<Longrightarrow> unat (requested_filled ord) = unat (requested ord) - unat (requested_remaining ord)"
  by (simp add: requested_filled_def wf_order_def unat_sub_le)

section \<open>The least fill that releases a target\<close>

lemma le_div_iff: "0 < (c :: nat) \<Longrightarrow> k \<le> x div c \<longleftrightarrow> k * c \<le> x"
  by (rule less_eq_div_iff_mult_less_eq)

lemma offered_for_ge_iff:
  assumes "requested ord \<noteq> 0" "x \<le> requested ord"
  shows "target \<le> offered_for ord x
    \<longleftrightarrow> unat target * unat (requested ord) \<le> unat (offered ord) * unat x"
  using assms by (simp add: word_le_nat_alt unat_offered_for le_div_iff)

lemma min_fill_release_cases:
  fixes t q f x :: nat
  assumes "0 < f" "t < f" "0 < q" "t \<noteq> 0"
  defines "m \<equiv> t * q div f"
  shows "m < q" "m * f \<le> t * q" "t * q < (m + 1) * f"
proof -
  show "m * f \<le> t * q"
    by (simp add: m_def)
  show "t * q < (m + 1) * f"
    using assms(1) by (simp add: m_def dividend_less_div_times add.commute)
  show "m < q"
    using assms by (simp add: m_def div_less_iff_less_mult mult.commute)
qed

lemma offered_for_less_offered:
  assumes "requested ord \<noteq> 0" "offered ord \<noteq> 0" "x < requested ord"
  shows "offered_for ord x < offered ord"
proof -
  have "unat (offered ord) * unat x < unat (offered ord) * unat (requested ord)"
    using assms by (simp add: word_less_nat_alt)
  then have "\<not> offered ord \<le> offered_for ord x"
    using offered_for_ge_iff [of ord x "offered ord"] assms by simp
  then show ?thesis by simp
qed

lemma min_fill_least_below:
  assumes "requested ord \<noteq> 0" "offered ord \<noteq> 0" "target \<noteq> 0" "target < offered ord"
  shows "min_fill_for_release ord target \<le> requested ord
    \<and> target \<le> offered_for ord (min_fill_for_release ord target)
    \<and> (\<forall>x < min_fill_for_release ord target. offered_for ord x < target)"
proof -
  let ?t = "unat target" and ?q = "unat (requested ord)" and ?f = "unat (offered ord)"
  define m where "m = ?t * ?q div ?f"
  have m: "m < ?q" "m * ?f \<le> ?t * ?q" "?t * ?q < (m + 1) * ?f"
    unfolding m_def using assms
    by (intro min_fill_release_cases; simp add: word_less_nat_alt)+
  define w :: u64 where "w = as_u64 ((as_u128 target * as_u128 (requested ord)) div as_u128 (offered ord))"
  have w: "unat w = m"
    using m(1) unat_u64_lt [of "requested ord"]
    by (simp add: w_def m_def unat_as_u64 unat_div_distrib)
  then have wq: "w < requested ord" and w1: "unat (w + 1) = m + 1"
    using m(1) unat_u64_lt [of "requested ord"]
    by (simp_all add: word_less_nat_alt unat_add_no_wrap)
  then have w1q: "w + 1 \<le> requested ord"
    using m(1) by (simp add: word_le_nat_alt)
  have nle: "offered ord \<le> target \<longleftrightarrow> False"
    using assms(4) by auto
  have mf: "min_fill_for_release ord target = (if target \<le> offered_for ord w then w else w + 1)"
    using assms wq w1q unfolding min_fill_for_release_def w_def [symmetric]
    by (simp add: Let_def min_absorb1 nle)
  have ge: "target \<le> offered_for ord x \<longleftrightarrow> ?t * ?q \<le> ?f * unat x" if "x \<le> requested ord" for x
    using offered_for_ge_iff [OF assms(1) that] .
  show ?thesis
  proof (cases "target \<le> offered_for ord w")
    case True
    have "offered_for ord x < target" if "x < w" for x
    proof -
      have "(unat x + 1) * ?f \<le> m * ?f"
        using that w by (intro mult_le_mono1) (simp add: word_less_nat_alt)
      moreover have "?f * unat x < (unat x + 1) * ?f"
        using assms(2) by simp
      ultimately have "\<not> ?t * ?q \<le> ?f * unat x"
        using m(2) by linarith
      moreover have "x \<le> requested ord"
        using that wq by order
      ultimately show ?thesis
        using ge [of x] not_le by blast
    qed
    with True wq show ?thesis by (simp add: mf)
  next
    case False
    have "offered_for ord x < target" if "x < w + 1" for x
    proof -
      have "x \<le> w"
        using that w w1 by (simp add: word_less_nat_alt word_le_nat_alt)
      with wq have "offered_for ord x \<le> offered_for ord w"
        by (intro offered_for_mono) order+
      with False show ?thesis by order
    qed
    moreover have "target \<le> offered_for ord (w + 1)"
      using ge [OF w1q] m(3) w1 by (simp add: mult.commute)
    ultimately show ?thesis
      using False w1q by (simp add: mf)
  qed
qed

section \<open>Matching two orders\<close>

lemma match_with_SomeE:
  assumes "match_with a b = (Some r, a', b')"
  obtains s t where
    "s = min (offered_remaining a) (requested_remaining b)" "s \<noteq> 0"
    "offered_for b s \<noteq> 0"
    "t = min (offered_for b s) (requested_remaining a)" "t \<noteq> 0"
    "a' = a\<lparr>requested_remaining := requested_remaining a - t\<rparr>"
    "b' = b\<lparr>requested_remaining := requested_remaining b - s\<rparr>"
    "s \<le> offered_for a t"
    "surplus_offered r = saturating_sub (offered_for a t) s"
    "surplus_requested r = saturating_sub (offered_for b s) t"
    "is_active a" "is_active b" "is_profitable_with a b"
proof -
  define s where "s = min (offered_remaining a) (requested_remaining b)"
  define t where "t = min (offered_for b s) (requested_remaining a)"
  have min_s: "min s (requested_remaining b) = s" and min_t: "min t (requested_remaining a) = t"
    by (simp_all add: s_def t_def)
  have guards: "is_active a" "is_active b" "is_profitable_with a b" "s \<noteq> 0"
      "offered_for b s \<noteq> 0" "\<not> offered_for a t < s"
    and res: "r = \<lparr>surplus_offered = saturating_sub (offered_for a t) s,
        surplus_requested = saturating_sub (offered_for b s) t\<rparr>"
      "a' = a\<lparr>requested_remaining := requested_remaining a - t\<rparr>"
      "b' = b\<lparr>requested_remaining := requested_remaining b - s\<rparr>"
    using assms
    unfolding match_with_def Let_def fill_eq s_def [symmetric] prod.case min_s t_def [symmetric] min_t
    by (simp_all split: if_splits)
  have "t \<noteq> 0"
    using guards by (simp add: t_def min_def is_active_iff)
  with guards res show thesis
    by (intro that [OF s_def _ _ t_def]) (auto simp: not_less)
qed

lemma match_with_wf:
  assumes "match_with a b = (Some r, a', b')" "wf_order a" "wf_order b"
  shows "wf_order a'" "wf_order b'"
  using assms
  by (elim match_with_SomeE; auto simp: wf_order_def intro: order.trans [OF word_diff_le])+

section \<open>Properties of the order arithmetic\<close>

text \<open>Two crossing orders on which the properties are applied.\<close>

definition sample_ask :: Order where
  "sample_ask = \<lparr>order_id = 1, offered_token = 1, requested_token = 2,
     offered = 100, requested = 190, requested_remaining = 190\<rparr>"

definition sample_bid :: Order where
  "sample_bid = \<lparr>order_id = 2, offered_token = 2, requested_token = 1,
     offered = 200, requested = 100, requested_remaining = 100\<rparr>"

lemma sample_wf: "wf_order sample_ask" "wf_order sample_bid"
  by (simp_all add: sample_ask_def sample_bid_def wf_order_def)

lemma sample_match:
  "match_with sample_ask sample_bid
     = (Some \<lparr>surplus_offered = 0, surplus_requested = 10\<rparr>,
        sample_ask\<lparr>requested_remaining := 0\<rparr>, sample_bid\<lparr>requested_remaining := 0\<rparr>)"
  by code_simp

text \<open>
  C34: a match of two orders conserves both tokens. What the first order
  releases for its fill is exactly what the second order takes in plus the
  reported surplus of the first order's token, and the other way round; so the
  solver never pays out more of either token than it collects.
\<close>

theorem match_with_conserves:
  assumes "wf_order a" "wf_order b" "match_with a b = (Some r, a', b')"
  shows "unat (offered_for a (requested_remaining a - requested_remaining a'))
      = (unat (requested_remaining b) - unat (requested_remaining b')) + unat (surplus_offered r)
    \<and> unat (offered_for b (requested_remaining b - requested_remaining b'))
      = (unat (requested_remaining a) - unat (requested_remaining a')) + unat (surplus_requested r)"
  using assms(3)
proof (elim match_with_SomeE)
  fix s t
  assume s: "s = min (offered_remaining a) (requested_remaining b)"
    and t: "t = min (offered_for b s) (requested_remaining a)"
    and upd: "a' = a\<lparr>requested_remaining := requested_remaining a - t\<rparr>"
      "b' = b\<lparr>requested_remaining := requested_remaining b - s\<rparr>"
    and sur: "surplus_offered r = saturating_sub (offered_for a t) s"
      "surplus_requested r = saturating_sub (offered_for b s) t"
    and le: "s \<le> offered_for a t"
  have "s \<le> requested_remaining b" "t \<le> requested_remaining a" "t \<le> offered_for b s"
    by (simp_all add: s t)
  with le show ?thesis
    by (simp add: upd sur unat_sub_le word_le_nat_alt)
qed

theorem match_with_conserves_witness:
  "match_with sample_ask sample_bid
     = (Some \<lparr>surplus_offered = 0, surplus_requested = 10\<rparr>,
        sample_ask\<lparr>requested_remaining := 0\<rparr>, sample_bid\<lparr>requested_remaining := 0\<rparr>)
   \<and> unat (offered_for sample_bid 100) = unat (190 :: u64) + unat (10 :: u64)"
  using match_with_conserves [OF sample_wf sample_match] sample_match
  by (simp add: sample_ask_def sample_bid_def)

text \<open>
  A match strictly advances both orders and touches nothing but their
  remaining amounts, which stay within the totals.
\<close>

theorem match_with_progress:
  assumes "wf_order a" "wf_order b" "match_with a b = (Some r, a', b')"
  shows "wf_order a' \<and> wf_order b'
    \<and> requested_remaining a' < requested_remaining a
    \<and> requested_remaining b' < requested_remaining b
    \<and> a' = a\<lparr>requested_remaining := requested_remaining a'\<rparr>
    \<and> b' = b\<lparr>requested_remaining := requested_remaining b'\<rparr>"
  using assms(3) match_with_wf [OF assms(3,1,2)]
proof (elim match_with_SomeE)
  fix s t
  assume s: "s = min (offered_remaining a) (requested_remaining b)" "s \<noteq> 0"
    and t: "t = min (offered_for b s) (requested_remaining a)" "t \<noteq> 0"
    and upd: "a' = a\<lparr>requested_remaining := requested_remaining a - t\<rparr>"
      "b' = b\<lparr>requested_remaining := requested_remaining b - s\<rparr>"
    and wf: "wf_order a'" "wf_order b'"
  have "s \<le> requested_remaining b" "t \<le> requested_remaining a"
    by (simp_all add: s t)
  then have "requested_remaining a - t < requested_remaining a"
    "requested_remaining b - s < requested_remaining b"
    using s(2) t(2) by (simp_all add: word_less_sub_nonzero)
  with wf show ?thesis
    by (simp add: upd)
qed

theorem match_with_progress_witness:
  "wf_order (sample_ask\<lparr>requested_remaining := 0\<rparr>)
   \<and> (0 :: u64) < requested_remaining sample_ask
   \<and> (0 :: u64) < requested_remaining sample_bid"
  using match_with_progress [OF sample_wf sample_match] by simp

text \<open>
  \<open>min_fill_for_release\<close> is the exact ceiling inverse of \<open>offered_for\<close>: the
  fill it returns is within the order, releases at least the target, and every
  smaller fill releases less than the target.
\<close>

theorem min_fill_for_release_least:
  assumes "wf_order ord" "target \<le> offered ord"
  shows "min_fill_for_release ord target \<le> requested ord
    \<and> target \<le> offered_for ord (min_fill_for_release ord target)
    \<and> (\<forall>x < min_fill_for_release ord target. offered_for ord x < target)"
proof -
  have pos: "requested ord \<noteq> 0" "offered ord \<noteq> 0"
    using assms(1) by (simp_all add: wf_order_def)
  consider "target = 0" | "target \<noteq> 0" "target = offered ord" | "target \<noteq> 0" "target < offered ord"
    using assms(2) by fastforce
  then show ?thesis
  proof cases
    case 1
    then show ?thesis by (simp add: min_fill_for_release_def)
  next
    case 2
    then show ?thesis
      using pos by (auto simp: min_fill_for_release_def offered_for_less_offered)
  next
    case 3
    then show ?thesis
      by (rule min_fill_least_below [OF pos])
  qed
qed

theorem min_fill_for_release_least_witness:
  "min_fill_for_release sample_ask 7 = 14 \<and> offered_for sample_ask 14 = 7
   \<and> offered_for sample_ask 13 < 7"
proof -
  have m: "min_fill_for_release sample_ask 7 = 14"
    by code_simp
  have "(7 :: u64) \<le> offered sample_ask"
    by (simp add: sample_ask_def)
  from min_fill_for_release_least [OF sample_wf(1) this]
  have "(13 :: u64) < 14 \<longrightarrow> offered_for sample_ask 13 < 7"
    unfolding m by blast
  moreover have "offered_for sample_ask 14 = 7"
    by code_simp
  ultimately show ?thesis
    using m by simp
qed

text \<open>
  Rounding down is safe across partial fills. Filling an order in two steps
  releases in sum at most what one fill of the total releases, which in turn is
  at most the order's limit rate applied to the total; the on-chain execution
  of the accumulated fill therefore covers what the matcher handed out.
\<close>

theorem offered_for_partial_fills:
  assumes "unat x + unat y \<le> unat (requested ord)"
  shows "unat (offered_for ord x) + unat (offered_for ord y) \<le> unat (offered_for ord (x + y))
    \<and> unat (offered_for ord (x + y)) * unat (requested ord) \<le> unat (offered ord) * (unat x + unat y)"
proof -
  have xy: "unat (x + y) = unat x + unat y"
    using assms unat_u64_lt [of "requested ord"] by (intro unat_add_no_wrap) simp
  then have "x + y \<le> requested ord"
    using assms by (simp add: word_le_nat_alt)
  with offered_for_superadd [OF assms] offered_for_limit [OF this] show ?thesis
    by (simp add: xy)
qed

theorem offered_for_partial_fills_witness:
  "unat (offered_for sample_ask 15) + unat (offered_for sample_ask 15)
     \<le> unat (offered_for sample_ask 30)
   \<and> offered_for sample_ask 15 = 7 \<and> offered_for sample_ask 30 = 15"
proof -
  have "unat (15 :: u64) + unat (15 :: u64) \<le> unat (requested sample_ask)"
    by (simp add: sample_ask_def)
  from offered_for_partial_fills [OF this]
  have "unat (offered_for sample_ask 15) + unat (offered_for sample_ask 15)
     \<le> unat (offered_for sample_ask 30)"
    by simp
  moreover have "offered_for sample_ask 15 = 7" "offered_for sample_ask 30 = 15"
    by code_simp+
  ultimately show ?thesis
    by blast
qed

text \<open>
  Comparing rate keys by 128-bit cross multiplication is the exact
  comparison of the rates \<open>requested / offered\<close>: the order on keys with a
  nonzero offer is the order of the quotients, and two keys are equal exactly
  when the quotients are.
\<close>

theorem RateKey_cmp_exact:
  assumes "rk_offered a \<noteq> 0" "rk_offered b \<noteq> 0"
  shows "(RateKey_cmp a b = Less \<longleftrightarrow> rate_of a < rate_of b)
    \<and> (RateKey_cmp a b = Equal \<longleftrightarrow> rate_of a = rate_of b)
    \<and> (RateKey_eq a b \<longleftrightarrow> rate_of a = rate_of b)"
proof -
  have v: "rate_valid a" "rate_valid b"
    using assms by (simp_all add: rate_valid_def)
  show ?thesis
    using RateKey_le_rate [OF v] RateKey_le_rate [OF v(2,1)]
    by (auto simp: RateKey_cmp_Less RateKey_cmp_Equal RateKey_eq_le)
qed

theorem RateKey_cmp_exact_witness:
  "RateKey_cmp (RateKey_new 1 3) (RateKey_new 2 6) = Equal
   \<and> rate_of (RateKey_new 1 3) = rate_of (RateKey_new 2 6)
   \<and> rate_of (RateKey_new 1 3) < rate_of (RateKey_new 1 2)"
proof -
  have nz: "rk_offered (RateKey_new 1 3) \<noteq> 0" "rk_offered (RateKey_new 2 6) \<noteq> 0"
    "rk_offered (RateKey_new 1 2) \<noteq> 0"
    by (simp_all add: RateKey_new_def)
  have "RateKey_cmp (RateKey_new 1 3) (RateKey_new 2 6) = Equal"
    "RateKey_cmp (RateKey_new 1 3) (RateKey_new 1 2) = Less"
    by code_simp+
  with RateKey_cmp_exact [OF nz(1,2)] RateKey_cmp_exact [OF nz(1,3)] show ?thesis
    by simp
qed

end
