(* ===== verification/Price_Feed.thy ===== *)
theory Price_Feed
  imports Matching_Types
begin

text \<open>
  The price feed of \<open>matching/price_feed.rs\<close> and the snapshot feed of
  \<open>price/price.rs\<close>. A feed is its only required method, \<open>price_cents\<close>: the
  price of a token in whole cents, or nothing when the token is unpriced. The
  feed the solver runs with is a snapshot map taken from a watch channel.
\<close>

type_synonym UsdCents = u64
type_synonym PriceFeed = "TokenId \<Rightarrow> UsdCents option"

type_synonym PriceSnapshot = "TokenId \<Rightarrow> UsdCents option"

record WatchPriceFeed =
  prices :: PriceSnapshot

definition WatchPriceFeed_new :: WatchPriceFeed where
  "WatchPriceFeed_new = \<lparr>prices = Map.empty\<rparr>"

definition from_watch :: "PriceSnapshot \<Rightarrow> WatchPriceFeed" where
  "from_watch rx = \<lparr>prices = rx\<rparr>"

definition price_cents :: "WatchPriceFeed \<Rightarrow> PriceFeed" where
  "price_cents self token = prices self token"

definition is_order_profitable :: "PriceFeed \<Rightarrow> TokenId \<Rightarrow> Amount \<Rightarrow> TokenId \<Rightarrow> Amount \<Rightarrow> bool" where
  "is_order_profitable self off_token off_amount req_token req_amount =
     (case (self off_token, self req_token) of
        (Some offered_price, Some requested_price) \<Rightarrow>
          as_u128 off_amount * as_u128 offered_price
            \<ge> as_u128 req_amount * as_u128 requested_price
      | _ \<Rightarrow> False)"

lemma is_order_profitable_iff:
  "is_order_profitable f t x u y \<longleftrightarrow>
     (\<exists>p q. f t = Some p \<and> f u = Some q \<and> unat y * unat q \<le> unat x * unat p)"
  by (auto simp: is_order_profitable_def u_arith split: option.splits)

end
