(* ===== verification/Order_Book.thy ===== *)
theory Order_Book
  imports Price_Feed
begin

text \<open>
  The order book of \<open>matching/order_book.rs\<close>: the orders by note id, the rate
  index of each directed pair (an ordered map from rate key to the FIFO queue of
  order ids), the adjacency maps, the per-pair counters, the parked notes with
  their time queue and the protocol balances. Hash maps are partial functions,
  deques are lists. An operation takes the book and returns its result with the
  updated book.
\<close>

section \<open>State\<close>

type_synonym Pair = "TokenId \<times> TokenId"
type_synonym levels = "(RateKey \<times> OrderId list) list"

record OrderBook =
  orders :: "OrderId \<Rightarrow> Order option"
  pair_index :: "Pair \<Rightarrow> levels option"
  user_adjacency :: "TokenId \<Rightarrow> TokenId set option"
  incoming_adjacency :: "TokenId \<Rightarrow> TokenId set option"
  active_pair_count :: "Pair \<Rightarrow> u32 option"
  parked :: "OrderId \<Rightarrow> (DexId \<times> u64) option"
  park_queue :: "(u64 \<times> OrderId) list"
  protocol_balances :: "TokenId \<Rightarrow> Amount option"
  tokens :: "TokenId set"
  feed :: PriceFeed

definition OrderBook_new :: "PriceFeed \<Rightarrow> OrderBook" where
  "OrderBook_new f =
     \<lparr>orders = Map.empty, pair_index = Map.empty, user_adjacency = Map.empty,
      incoming_adjacency = Map.empty, active_pair_count = Map.empty, parked = Map.empty,
      park_queue = [], protocol_balances = Map.empty, tokens = {}, feed = f\<rparr>"

definition order_pair :: "Order \<Rightarrow> Pair" where
  "order_pair ord = (offered_token ord, requested_token ord)"

section \<open>The rate index\<close>

definition unwrap_or_default :: "'a \<Rightarrow> 'a option \<Rightarrow> 'a" where
  "unwrap_or_default d x = (case x of None \<Rightarrow> d | Some y \<Rightarrow> y)"

definition level_push :: "OrderId \<Rightarrow> OrderId list option \<Rightarrow> OrderId list option" where
  "level_push oid ids = Some (unwrap_or_default [] ids @ [oid])"

definition level_drop :: "OrderId \<Rightarrow> OrderId list option \<Rightarrow> OrderId list option" where
  "level_drop oid lvl =
     (case lvl of None \<Rightarrow> None
      | Some ids \<Rightarrow> (let ids' = remove1 oid ids in if ids' = [] then None else Some ids'))"

definition adj_insert :: "TokenId \<Rightarrow> TokenId \<Rightarrow> (TokenId \<Rightarrow> TokenId set option)
    \<Rightarrow> (TokenId \<Rightarrow> TokenId set option)" where
  "adj_insert a b m = m(a \<mapsto> insert b (unwrap_or_default {} (m a)))"

definition adj_remove :: "TokenId \<Rightarrow> TokenId \<Rightarrow> (TokenId \<Rightarrow> TokenId set option)
    \<Rightarrow> (TokenId \<Rightarrow> TokenId set option)" where
  "adj_remove a b m =
     (case m a of None \<Rightarrow> m
      | Some adj \<Rightarrow> (let adj' = adj - {b} in if adj' = {} then m(a := None) else m(a \<mapsto> adj')))"

definition index_insert :: "OrderId \<Rightarrow> TokenId \<Rightarrow> TokenId \<Rightarrow> RateKey \<Rightarrow> OrderBook \<Rightarrow> OrderBook" where
  "index_insert oid off_token req_token key book =
     (let pair = (off_token, req_token);
          btree = unwrap_or_default [] (pair_index book pair)
      in book\<lparr>pair_index := (pair_index book)(pair \<mapsto> om_alter RateKey_cmp key (level_push oid) btree),
              active_pair_count := (active_pair_count book)
                (pair \<mapsto> unwrap_or_default 0 (active_pair_count book pair) + 1),
              user_adjacency := adj_insert off_token req_token (user_adjacency book),
              incoming_adjacency := adj_insert req_token off_token (incoming_adjacency book)\<rparr>)"

definition remove_from_index :: "Pair \<Rightarrow> RateKey \<Rightarrow> OrderId \<Rightarrow> OrderBook \<Rightarrow> OrderBook" where
  "remove_from_index pair key oid book =
     (case pair_index book pair of
        None \<Rightarrow> book
      | Some btree \<Rightarrow>
          (let btree' = om_alter RateKey_cmp key (level_drop oid) btree
           in if btree' = [] then
                book\<lparr>pair_index := (pair_index book)(pair := None),
                     user_adjacency := adj_remove (fst pair) (snd pair) (user_adjacency book),
                     incoming_adjacency := adj_remove (snd pair) (fst pair) (incoming_adjacency book)\<rparr>
              else book\<lparr>pair_index := (pair_index book)(pair \<mapsto> btree')\<rparr>))"

definition count_dec :: "Pair \<Rightarrow> OrderBook \<Rightarrow> OrderBook" where
  "count_dec pair book =
     (case active_pair_count book pair of
        None \<Rightarrow> book
      | Some c \<Rightarrow> book\<lparr>active_pair_count := (active_pair_count book)(pair \<mapsto> saturating_sub c 1)\<rparr>)"

section \<open>Adding and removing orders\<close>

definition add_user_order ::
  "OrderId \<Rightarrow> TokenId \<Rightarrow> TokenId \<Rightarrow> Amount \<Rightarrow> Amount \<Rightarrow> OrderBook \<Rightarrow> OrderBook" where
  "add_user_order note_id off_token req_token off req book =
     (if orders book note_id \<noteq> None \<and> parked book note_id = None then book
      else
        let book1 = book\<lparr>parked := (parked book)(note_id := None)\<rparr>;
            ord = \<lparr>order_id = note_id, offered_token = off_token, requested_token = req_token,
                   offered = off, requested = req, requested_remaining = req\<rparr>;
            book2 = book1\<lparr>orders := (orders book1)(note_id \<mapsto> ord)\<rparr>;
            book3 = index_insert note_id off_token req_token (rate_key ord) book2
        in book3\<lparr>tokens := insert req_token (insert off_token (tokens book3))\<rparr>)"

definition cleanup_if_filled :: "OrderId \<Rightarrow> OrderBook \<Rightarrow> OrderBook" where
  "cleanup_if_filled oid book =
     (case orders book oid of
        None \<Rightarrow> book
      | Some ord \<Rightarrow>
          if \<not> is_completely_filled ord then book
          else remove_from_index (order_pair ord) (rate_key ord) oid (count_dec (order_pair ord) book))"

definition remove_order :: "OrderId \<Rightarrow> OrderBook \<Rightarrow> OrderBook" where
  "remove_order oid book =
     (case orders book oid of
        None \<Rightarrow> book
      | Some ord \<Rightarrow>
          let book1 = book\<lparr>orders := (orders book)(oid := None)\<rparr>
          in if parked book1 oid \<noteq> None then book1\<lparr>parked := (parked book1)(oid := None)\<rparr>
             else
               let book2 = (if is_active ord then count_dec (order_pair ord) book1 else book1)
               in remove_from_index (order_pair ord) (rate_key ord) oid book2)"

section \<open>Parking\<close>

definition park :: "OrderId \<Rightarrow> DexId \<Rightarrow> u64 \<Rightarrow> OrderBook \<Rightarrow> OrderBook" where
  "park oid dex time book =
     (if parked book oid \<noteq> None then book
      else case orders book oid of
        None \<Rightarrow> book
      | Some ord \<Rightarrow>
          if \<not> is_active ord then book
          else
            let book1 = remove_from_index (order_pair ord) (rate_key ord) oid
                          (count_dec (order_pair ord) book)
            in book1\<lparr>parked := (parked book1)(oid \<mapsto> (dex, time)),
                     park_queue := park_queue book1 @ [(time, oid)]\<rparr>)"

definition reindex :: "OrderId \<Rightarrow> OrderBook \<Rightarrow> OrderBook" where
  "reindex oid book =
     (case orders book oid of
        None \<Rightarrow> book
      | Some ord \<Rightarrow>
          if \<not> is_active ord then book
          else index_insert oid (offered_token ord) (requested_token ord) (rate_key ord) book)"

definition unpark :: "OrderId \<Rightarrow> OrderBook \<Rightarrow> DexId option \<times> OrderBook" where
  "unpark oid book =
     (case parked book oid of
        None \<Rightarrow> (None, book)
      | Some (dex, _) \<Rightarrow> (Some dex, reindex oid (book\<lparr>parked := (parked book)(oid := None)\<rparr>)))"

text \<open>The reactivation loop, by recursion on the queue it pops.\<close>

fun reactivate_loop :: "u64 \<Rightarrow> u64 \<Rightarrow> (u64 \<times> OrderId) list \<Rightarrow> OrderBook
    \<Rightarrow> (OrderId \<times> DexId) list \<times> OrderBook" where
  "reactivate_loop ttl time [] book = ([], book\<lparr>park_queue := []\<rparr>)"
| "reactivate_loop ttl time ((parked_at, oid) # q) book =
     (if saturating_add parked_at ttl > time then ([], book\<lparr>park_queue := (parked_at, oid) # q\<rparr>)
      else case unpark oid book of
        (None, book') \<Rightarrow> reactivate_loop ttl time q book'
      | (Some dex, book') \<Rightarrow>
          (let (rs, book'') = reactivate_loop ttl time q book' in ((oid, dex) # rs, book'')))"

definition reactivate_parked_older_than ::
  "u64 \<Rightarrow> u64 \<Rightarrow> OrderBook \<Rightarrow> (OrderId \<times> DexId) list \<times> OrderBook" where
  "reactivate_parked_older_than ttl time book = reactivate_loop ttl time (park_queue book) book"

definition parked_count :: "OrderBook \<Rightarrow> nat" where
  "parked_count book = card (dom (parked book))"

definition is_parked :: "OrderBook \<Rightarrow> OrderId \<Rightarrow> bool" where
  "is_parked book oid \<longleftrightarrow> parked book oid \<noteq> None"

section \<open>Reading the book\<close>

definition stale_front :: "(OrderId \<Rightarrow> Order option) \<Rightarrow> OrderId \<Rightarrow> bool" where
  "stale_front os oid = (case os oid of None \<Rightarrow> True | Some ord \<Rightarrow> \<not> is_active ord)"

fun best_scan :: "(OrderId \<Rightarrow> Order option) \<Rightarrow> levels \<Rightarrow> Order option \<times> levels" where
  "best_scan os [] = (None, [])"
| "best_scan os ((key, ids) # rest) =
     (case dropWhile (stale_front os) ids of
        [] \<Rightarrow> best_scan os rest
      | best_id # tl_ids \<Rightarrow> (os best_id, (key, best_id # tl_ids) # rest))"

definition best_order :: "TokenId \<Rightarrow> TokenId \<Rightarrow> OrderBook \<Rightarrow> Order option \<times> OrderBook" where
  "best_order off req book =
     (case pair_index book (off, req) of
        None \<Rightarrow> (None, book)
      | Some btree \<Rightarrow>
          (let (r, btree') = best_scan (orders book) btree
           in (r, book\<lparr>pair_index := (pair_index book)((off, req) \<mapsto> btree')\<rparr>)))"

definition notes_for_pair :: "TokenId \<Rightarrow> TokenId \<Rightarrow> OrderBook \<Rightarrow> Order list" where
  "notes_for_pair off req book =
     (case pair_index book (off, req) of
        None \<Rightarrow> []
      | Some btree \<Rightarrow>
          filter is_active (List.map_filter (orders book) (concat (map snd btree))))"

definition has_orders :: "TokenId \<Rightarrow> TokenId \<Rightarrow> OrderBook \<Rightarrow> bool" where
  "has_orders off req book =
     (case active_pair_count book (off, req) of None \<Rightarrow> False | Some c \<Rightarrow> c > 0)"

fun level_volume :: "(OrderId \<Rightarrow> Order option) \<Rightarrow> OrderId list \<Rightarrow> bool \<Rightarrow> Amount \<Rightarrow> bool \<times> Amount" where
  "level_volume os [] any vol = (any, vol)"
| "level_volume os (oid # ids) any vol =
     (case os oid of
        Some ord \<Rightarrow>
          if is_active ord then level_volume os ids True (saturating_add vol (offered_remaining ord))
          else level_volume os ids any vol
      | None \<Rightarrow> level_volume os ids any vol)"

fun level_scan :: "(OrderId \<Rightarrow> Order option) \<Rightarrow> levels \<Rightarrow> (RateKey \<times> Amount) option" where
  "level_scan os [] = None"
| "level_scan os ((key, ids) # rest) =
     (let (any, vol) = level_volume os ids False 0
      in if any then Some (key, vol) else level_scan os rest)"

definition best_level :: "TokenId \<Rightarrow> TokenId \<Rightarrow> OrderBook \<Rightarrow> (RateKey \<times> Amount) option" where
  "best_level off req book =
     (case pair_index book (off, req) of
        None \<Rightarrow> None
      | Some btree \<Rightarrow> level_scan (orders book) btree)"

text \<open>The snapshot is a map filled key by key, so the hash order of the keys does not matter.\<close>

definition snapshot_best_levels :: "OrderBook \<Rightarrow> SwapBookSnapshot" where
  "snapshot_best_levels book = (\<lambda>pair.
     (case pair_index book pair of
        None \<Rightarrow> None
      | Some _ \<Rightarrow>
          (case best_level (fst pair) (snd pair) book of
             None \<Rightarrow> None
           | Some (rate, volume) \<Rightarrow> Some \<lparr>bl_rate = rate, bl_volume = volume\<rparr>)))"

text \<open>
  The iteration order of a hash set is not specified: \<open>order\<close> stands for the
  order in which the set is walked.
\<close>

definition neighbors :: "(TokenId set \<Rightarrow> TokenId list) \<Rightarrow> TokenId \<Rightarrow> OrderBook \<Rightarrow> TokenId list" where
  "neighbors order off book = (case user_adjacency book off of None \<Rightarrow> [] | Some s \<Rightarrow> order s)"

definition incoming_neighbors ::
  "(TokenId set \<Rightarrow> TokenId list) \<Rightarrow> TokenId \<Rightarrow> OrderBook \<Rightarrow> TokenId list" where
  "incoming_neighbors order req book =
     (case incoming_adjacency book req of None \<Rightarrow> [] | Some s \<Rightarrow> order s)"

definition active_order_count :: "OrderBook \<Rightarrow> u32" where
  "active_order_count book = (\<Sum>p \<in> dom (active_pair_count book). the (active_pair_count book p))"

section \<open>Matching and balances\<close>

definition add_protocol_balance :: "TokenId \<Rightarrow> Amount \<Rightarrow> OrderBook \<Rightarrow> OrderBook" where
  "add_protocol_balance token amount book =
     (if amount = 0 then book
      else book\<lparr>protocol_balances := (protocol_balances book)
                  (token \<mapsto> unwrap_or_default 0 (protocol_balances book token) + amount),
                tokens := insert token (tokens book)\<rparr>)"

definition deduct_protocol_balance :: "TokenId \<Rightarrow> Amount \<Rightarrow> OrderBook \<Rightarrow> OrderBook" where
  "deduct_protocol_balance token amount book =
     (case protocol_balances book token of
        None \<Rightarrow> book
      | Some balance \<Rightarrow>
          book\<lparr>protocol_balances := (protocol_balances book)(token \<mapsto> saturating_sub balance amount)\<rparr>)"

definition apply_match :: "OrderId \<Rightarrow> OrderId \<Rightarrow> OrderBook \<Rightarrow> MatchResult option \<times> OrderBook" where
  "apply_match a_id b_id book =
     (if a_id = b_id then (None, book)
      else case orders book a_id of
        None \<Rightarrow> (None, book)
      | Some order_a \<Rightarrow>
        (case orders book b_id of
           None \<Rightarrow> (None, book)
         | Some order_b \<Rightarrow>
           (case match_with order_a order_b of
              (None, _, _) \<Rightarrow> (None, book)
            | (Some result, order_a', order_b') \<Rightarrow>
              let book1 = book\<lparr>orders := (orders book)(a_id \<mapsto> order_a')\<rparr>;
                  book2 = book1\<lparr>orders := (orders book1)(b_id \<mapsto> order_b')\<rparr>;
                  book3 = add_protocol_balance (offered_token order_a') (surplus_offered result) book2;
                  book4 = add_protocol_balance (offered_token order_b') (surplus_requested result) book3;
                  book5 = cleanup_if_filled a_id book4;
                  book6 = cleanup_if_filled b_id book5
              in (Some result, book6))))"

end
