(* ===== verification/Order_Book_Inv.thy ===== *)
theory Order_Book_Inv
  imports Order_Book
begin

text \<open>
  The invariant of the order book and its preservation by every operation. The
  index of a pair holds exactly the ids of the pair's active, unparked orders,
  each once, in levels that ascend strictly by rate; the counter of the pair is
  the number of these ids; the adjacency maps are the graph of the nonempty
  indices; parked notes are active orders with an entry in the time queue.
\<close>

section \<open>Levels of one pair\<close>

definition level_ids :: "levels \<Rightarrow> OrderId list" where
  "level_ids L = concat (map snd L)"

definition levels_ok :: "(OrderId \<Rightarrow> RateKey \<Rightarrow> bool) \<Rightarrow> levels \<Rightarrow> bool" where
  "levels_ok R L \<longleftrightarrow> om_sorted RateKey_cmp L \<and> distinct (level_ids L)
     \<and> (\<forall>(k, ids) \<in> set L. rate_valid k \<and> ids \<noteq> [] \<and> (\<forall>i \<in> set ids. R i k))"

lemma levels_ok_Nil [simp]: "levels_ok R []"
  by (simp add: levels_ok_def om_sorted_def level_ids_def)

lemma levels_okD:
  assumes "levels_ok R L" "(k, ids) \<in> set L"
  shows "rate_valid k" "ids \<noteq> []" "i \<in> set ids \<Longrightarrow> R i k"
  using assms by (auto simp: levels_ok_def)

lemma levels_ok_valid: "levels_ok R L \<Longrightarrow> \<forall>x \<in> fst ` set L. rate_valid x"
  by (auto simp: levels_ok_def)

lemma levels_ok_mono:
  assumes "levels_ok R L" "\<And>i k. i \<in> set (level_ids L) \<Longrightarrow> R i k \<Longrightarrow> R' i k"
  shows "levels_ok R' L"
  using assms by (fastforce simp: levels_ok_def level_ids_def)

lemma level_push_ids:
  "mset (level_ids (om_alter RateKey_cmp k (level_push i) L)) = add_mset i (mset (level_ids L))"
  using om_alter_concat [of RateKey_cmp k "level_push i" L]
  by (simp add: level_push_def unwrap_or_default_def level_ids_def split: option.splits)

lemma level_push_ok:
  assumes "levels_ok R L" "i \<notin> set (level_ids L)" "rate_valid k"
    and "\<And>k'. RateKey_eq k k' \<Longrightarrow> R i k'"
  shows "levels_ok R (om_alter RateKey_cmp k (level_push i) L)"
proof -
  let ?L = "om_alter RateKey_cmp k (level_push i) L"
  have "om_sorted RateKey_cmp ?L"
    using assms levels_ok_valid [OF assms(1)]
    by (intro rate_order.om_alter_sorted) (auto simp: levels_ok_def)
  moreover have "distinct (level_ids ?L)"
    using assms(1,2) level_push_ids [of k i L]
    by (metis distinct.simps(2) levels_ok_def mset.simps(2) mset_eq_imp_distinct_iff)
  moreover have "rate_valid k' \<and> ids \<noteq> [] \<and> (\<forall>j \<in> set ids. R j k')"
    if mem: "(k', ids) \<in> set ?L" for k' ids
    using om_alter_set [OF mem]
  proof (elim disjE conjE exE)
    assume "(k', ids) \<in> set L"
    with assms(1) show ?thesis by (auto simp: levels_ok_def)
  next
    assume "level_push i None = Some ids" "k' = k"
    with assms(3,4) show ?thesis by (auto simp: level_push_def unwrap_or_default_def)
  next
    fix v
    assume "level_push i (Some v) = Some ids" "(k', v) \<in> set L" "RateKey_cmp k k' = Equal"
    with levels_okD [OF assms(1), of k' v] assms(4) [of k'] show ?thesis
      by (auto simp: level_push_def unwrap_or_default_def RateKey_cmp_Equal)
  qed
  ultimately show ?thesis
    by (auto simp: levels_ok_def)
qed

lemma mset_cancel_single:
  assumes "B + A = C + (A - {#i#})" "i \<in># A \<longleftrightarrow> i \<in># C"
  shows "B = C - {#i#}"
proof (cases "i \<in># A")
  case True
  then obtain A' where "A = add_mset i A'"
    by (blast dest: multi_member_split)
  with assms(1) show ?thesis
    by (metis add_mset_add_single add_mset_remove_trivial union_mset_add_mset_left
        union_mset_add_mset_right add_right_cancel)
next
  case False
  with assms show ?thesis
    by (simp add: diff_single_trivial)
qed

lemma level_drop_ids:
  assumes "levels_ok R L" "rate_valid k" "\<And>k'. R i k' \<Longrightarrow> RateKey_eq k k'"
  shows "mset (level_ids (om_alter RateKey_cmp k (level_drop i) L)) = mset (level_ids L) - {#i#}"
proof -
  let ?g = "om_get RateKey_cmp k L"
  have "mset (opt_list (level_drop i ?g)) = mset (opt_list ?g) - {#i#}"
    by (auto simp: level_drop_def Let_def split: option.splits if_splits
        dest: arg_cong [where f = mset])
  moreover have "i \<in> set (opt_list ?g)" if mem: "i \<in> set (level_ids L)"
  proof -
    obtain k' ids where e: "(k', ids) \<in> set L" "i \<in> set ids"
      using mem by (force simp: level_ids_def)
    then have "RateKey_cmp k k' = Equal"
      using assms(1,3) by (auto simp: levels_ok_def RateKey_cmp_Equal)
    then have "?g = Some ids"
      using assms(1,2) levels_ok_valid [OF assms(1)] e
      by (intro rate_order.om_get_entry) (auto simp: levels_ok_def)
    with e show ?thesis by simp
  qed
  moreover have "i \<in> set (level_ids L)" if "i \<in> set (opt_list ?g)"
    using om_get_subset [OF that] by (simp add: level_ids_def)
  ultimately show ?thesis
    using om_alter_concat [of RateKey_cmp k "level_drop i" L]
    unfolding level_ids_def [symmetric]
    by (intro mset_cancel_single [where A = "mset (opt_list ?g)"]) auto
qed

lemma level_drop_ok:
  assumes "levels_ok R L" "rate_valid k" "\<And>k'. R i k' \<Longrightarrow> RateKey_eq k k'"
  shows "levels_ok R (om_alter RateKey_cmp k (level_drop i) L)"
proof -
  let ?L = "om_alter RateKey_cmp k (level_drop i) L"
  have "om_sorted RateKey_cmp ?L"
    using assms levels_ok_valid [OF assms(1)]
    by (intro rate_order.om_alter_sorted) (auto simp: levels_ok_def)
  moreover have "distinct (level_ids ?L)"
    using assms(1) level_drop_ids [OF assms(1,2,3)]
    by (metis distinct_remove1 levels_ok_def mset_eq_imp_distinct_iff mset_remove1)
  moreover have "rate_valid k' \<and> ids \<noteq> [] \<and> (\<forall>j \<in> set ids. R j k')"
    if mem: "(k', ids) \<in> set ?L" for k' ids
    using om_alter_set [OF mem]
  proof (elim disjE conjE exE)
    assume "(k', ids) \<in> set L"
    with assms(1) show ?thesis by (auto simp: levels_ok_def)
  next
    assume "level_drop i None = Some ids" "k' = k"
    then show ?thesis by (simp add: level_drop_def)
  next
    fix v
    assume "level_drop i (Some v) = Some ids" "(k', v) \<in> set L"
    with levels_okD [OF assms(1), of k' v] show ?thesis
      by (auto simp: level_drop_def Let_def split: if_splits dest: notin_set_remove1)
  qed
  ultimately show ?thesis
    by (auto simp: levels_ok_def)
qed

section \<open>The index of the book\<close>

definition levels_of :: "OrderBook \<Rightarrow> Pair \<Rightarrow> levels" where
  "levels_of bk p = unwrap_or_default [] (pair_index bk p)"

definition pair_ids :: "OrderBook \<Rightarrow> Pair \<Rightarrow> OrderId list" where
  "pair_ids bk p = level_ids (levels_of bk p)"

definition count_of :: "OrderBook \<Rightarrow> Pair \<Rightarrow> u32" where
  "count_of bk p = unwrap_or_default 0 (active_pair_count bk p)"

definition adj_set :: "(TokenId \<Rightarrow> TokenId set option) \<Rightarrow> TokenId \<Rightarrow> TokenId set" where
  "adj_set m a = unwrap_or_default {} (m a)"

definition keyed :: "(OrderId \<Rightarrow> Order option) \<Rightarrow> OrderId \<Rightarrow> RateKey \<Rightarrow> bool" where
  "keyed os i k \<longleftrightarrow> (\<exists>ord. os i = Some ord \<and> offered ord \<noteq> 0 \<and> RateKey_eq (rate_key ord) k)"

definition graph_ok :: "OrderBook \<Rightarrow> bool" where
  "graph_ok bk \<longleftrightarrow>
     (\<forall>a b. b \<in> adj_set (user_adjacency bk) a \<longleftrightarrow> pair_index bk (a, b) \<noteq> None)
   \<and> (\<forall>a b. a \<in> adj_set (incoming_adjacency bk) b \<longleftrightarrow> pair_index bk (a, b) \<noteq> None)
   \<and> (\<forall>a. user_adjacency bk a \<noteq> Some {} \<and> incoming_adjacency bk a \<noteq> Some {})"

text \<open>The index holds exactly the ids \<open>S p\<close> for each pair \<open>p\<close>.\<close>

definition index_inv :: "OrderBook \<Rightarrow> (Pair \<Rightarrow> OrderId set) \<Rightarrow> bool" where
  "index_inv bk S \<longleftrightarrow>
     (\<forall>p. levels_ok (keyed (orders bk)) (levels_of bk p)
        \<and> set (pair_ids bk p) = S p
        \<and> unat (count_of bk p) = length (pair_ids bk p)
        \<and> pair_index bk p \<noteq> Some [])
   \<and> graph_ok bk \<and> finite (dom (active_pair_count bk))"

lemma index_invD:
  assumes "index_inv bk S"
  shows "levels_ok (keyed (orders bk)) (levels_of bk p)" "set (pair_ids bk p) = S p"
    "unat (count_of bk p) = length (pair_ids bk p)" "pair_index bk p \<noteq> Some []"
    "distinct (pair_ids bk p)" "graph_ok bk" "finite (S p)"
    "finite (dom (active_pair_count bk))"
    "unat (count_of bk p) = card (S p)"
proof -
  show ok: "levels_ok (keyed (orders bk)) (levels_of bk p)" and ids: "set (pair_ids bk p) = S p"
    and len: "unat (count_of bk p) = length (pair_ids bk p)" and "pair_index bk p \<noteq> Some []"
    and "graph_ok bk" and "finite (dom (active_pair_count bk))"
    using assms unfolding index_inv_def by blast+
  show dist: "distinct (pair_ids bk p)"
    using ok by (simp add: levels_ok_def pair_ids_def)
  show "finite (S p)"
    by (simp flip: ids)
  show "unat (count_of bk p) = card (S p)"
    using len distinct_card [OF dist] by (simp flip: ids)
qed

lemma rate_valid_rate_key [simp]: "rate_valid (rate_key ord) \<longleftrightarrow> offered ord \<noteq> 0"
  by (simp add: rate_valid_def rate_key_def RateKey_new_def)

lemma om_push_not_Nil: "om_alter cmp k (level_push i) L \<noteq> []"
  by (cases L) (auto simp: level_push_def split: Ordering.splits option.splits)

lemma index_insert_frame [simp]:
  "orders (index_insert i a b k bk) = orders bk"
  "parked (index_insert i a b k bk) = parked bk"
  "park_queue (index_insert i a b k bk) = park_queue bk"
  "protocol_balances (index_insert i a b k bk) = protocol_balances bk"
  "tokens (index_insert i a b k bk) = tokens bk"
  "feed (index_insert i a b k bk) = feed bk"
  by (simp_all add: index_insert_def Let_def)

lemma levels_of_index_insert:
  "levels_of (index_insert i a b k bk) p
     = (if p = (a, b) then om_alter RateKey_cmp k (level_push i) (levels_of bk p) else levels_of bk p)"
  by (auto simp: levels_of_def index_insert_def unwrap_or_default_def Let_def)

lemma count_of_index_insert:
  "count_of (index_insert i a b k bk) p = (if p = (a, b) then count_of bk p + 1 else count_of bk p)"
  by (auto simp: count_of_def index_insert_def unwrap_or_default_def Let_def)

lemma adj_set_adj_insert [simp]:
  "adj_set (adj_insert a b m) x = (if x = a then insert b (adj_set m a) else adj_set m x)"
  by (auto simp: adj_set_def adj_insert_def unwrap_or_default_def)

lemma adj_set_adj_remove [simp]:
  "adj_set (adj_remove a b m) x = (if x = a then adj_set m a - {b} else adj_set m x)"
  by (auto simp: adj_set_def adj_remove_def unwrap_or_default_def Let_def split: option.splits)

lemma adj_remove_nonempty: "m x \<noteq> Some {} \<Longrightarrow> adj_remove a b m x \<noteq> Some {}"
  by (auto simp: adj_remove_def Let_def split: option.splits)

lemma adj_insert_nonempty: "m x \<noteq> Some {} \<Longrightarrow> adj_insert a b m x \<noteq> Some {}"
  by (auto simp: adj_insert_def)

lemma graph_ok_index_insert: "graph_ok bk \<Longrightarrow> graph_ok (index_insert i a b k bk)"
  unfolding graph_ok_def
  by (auto simp: index_insert_def Let_def intro: adj_insert_nonempty dest!: adj_insert_nonempty)

lemma index_inv_insert:
  assumes inv: "index_inv bk S" and "i \<notin> S (a, b)" "rate_valid k"
    and "\<And>k'. RateKey_eq k k' \<Longrightarrow> keyed (orders bk) i k'"
    and "card (S (a, b)) + 1 < 2 ^ 32"
  shows "index_inv (index_insert i a b k bk) (S((a, b) := insert i (S (a, b))))"
  unfolding index_inv_def
proof (intro conjI allI)
  fix p
  let ?bk = "index_insert i a b k bk"
  note D = index_invD [OF inv]
  show "levels_ok (keyed (orders ?bk)) (levels_of ?bk p)"
    using D(1) [of p] D(2) [of p] assms(2-4)
    by (auto simp: levels_of_index_insert pair_ids_def intro!: level_push_ok)
  have ids: "mset (pair_ids ?bk (a, b)) = add_mset i (mset (pair_ids bk (a, b)))"
    by (simp add: pair_ids_def levels_of_index_insert level_push_ids)
  show "set (pair_ids ?bk p) = (S((a, b) := insert i (S (a, b)))) p"
    using D(2) [of p] arg_cong [OF ids, of set_mset]
    by (auto simp: pair_ids_def levels_of_index_insert)
  show "unat (count_of ?bk p) = length (pair_ids ?bk p)"
  proof (cases "p = (a, b)")
    case True
    have "unat (count_of bk p + 1) = unat (count_of bk p) + 1"
      using D(9) [of p] assms(5) True by (intro trans [OF unat_add_no_wrap]) simp_all
    with True show ?thesis
      using D(3) [of p] arg_cong [OF ids, of size] by (simp add: count_of_index_insert)
  next
    case False
    then show ?thesis
      using D(3) [of p] by (simp add: count_of_index_insert pair_ids_def levels_of_index_insert)
  qed
  show "pair_index ?bk p \<noteq> Some []"
    using D(4) [of p] by (auto simp: index_insert_def Let_def om_push_not_Nil)
  show "graph_ok ?bk"
    using D(6) by (rule graph_ok_index_insert)
  show "finite (dom (active_pair_count ?bk))"
    using D(8) by (simp add: index_insert_def Let_def)
qed

lemma remove_from_index_frame [simp]:
  "orders (remove_from_index p k i bk) = orders bk"
  "parked (remove_from_index p k i bk) = parked bk"
  "park_queue (remove_from_index p k i bk) = park_queue bk"
  "protocol_balances (remove_from_index p k i bk) = protocol_balances bk"
  "tokens (remove_from_index p k i bk) = tokens bk"
  "feed (remove_from_index p k i bk) = feed bk"
  "active_pair_count (remove_from_index p k i bk) = active_pair_count bk"
  by (simp_all add: remove_from_index_def Let_def split: option.splits)

lemma count_dec_frame [simp]:
  "orders (count_dec p bk) = orders bk"
  "parked (count_dec p bk) = parked bk"
  "park_queue (count_dec p bk) = park_queue bk"
  "protocol_balances (count_dec p bk) = protocol_balances bk"
  "tokens (count_dec p bk) = tokens bk"
  "feed (count_dec p bk) = feed bk"
  "pair_index (count_dec p bk) = pair_index bk"
  "user_adjacency (count_dec p bk) = user_adjacency bk"
  "incoming_adjacency (count_dec p bk) = incoming_adjacency bk"
  by (simp_all add: count_dec_def split: option.splits)

lemma levels_of_remove_from_index:
  "levels_of (remove_from_index p k i bk) q
     = (if q = p then om_alter RateKey_cmp k (level_drop i) (levels_of bk q) else levels_of bk q)"
  by (auto simp: levels_of_def remove_from_index_def unwrap_or_default_def Let_def level_drop_def
      split: option.splits)

lemma levels_of_count_dec [simp]: "levels_of (count_dec p bk) q = levels_of bk q"
  by (simp add: levels_of_def)

lemma count_of_remove_from_index [simp]: "count_of (remove_from_index p k i bk) q = count_of bk q"
  by (simp add: count_of_def)

lemma count_of_count_dec:
  "count_of (count_dec p bk) q = (if q = p then saturating_sub (count_of bk q) 1 else count_of bk q)"
  by (auto simp: count_of_def count_dec_def unwrap_or_default_def saturating_sub_def
      split: option.splits)

lemma graph_ok_count_dec [simp]: "graph_ok (count_dec p bk) = graph_ok bk"
  by (simp add: graph_ok_def)

lemma graph_ok_remove_from_index:
  assumes "graph_ok bk"
  shows "graph_ok (remove_from_index p k i bk)"
proof (cases p)
  case (Pair a b)
  then show ?thesis
    using assms unfolding graph_ok_def
    by (auto simp: remove_from_index_def Let_def split: option.splits
        intro: adj_remove_nonempty dest!: adj_remove_nonempty)
qed

lemma remove_from_index_not_Nil:
  "pair_index bk q \<noteq> Some [] \<Longrightarrow> pair_index (remove_from_index p k i bk) q \<noteq> Some []"
  by (auto simp: remove_from_index_def Let_def split: option.splits)

lemma index_inv_drop:
  assumes inv: "index_inv bk S" and "i \<in> S p" "orders bk i = Some ord" "offered ord \<noteq> 0"
  shows "index_inv (remove_from_index p (rate_key ord) i (count_dec p bk)) (S(p := S p - {i}))"
    (is "index_inv ?bk _")
  unfolding index_inv_def
proof (intro conjI allI)
  fix q
  note D = index_invD [OF inv]
  have key: "RateKey_eq (rate_key ord) k'" if "keyed (orders bk) i k'" for k'
    using that assms(3) by (simp add: keyed_def)
  have rv: "rate_valid (rate_key ord)"
    using assms(4) by simp
  show "levels_ok (keyed (orders ?bk)) (levels_of ?bk q)"
    using D(1) [of q] level_drop_ok [OF D(1) rv key]
    by (simp add: levels_of_remove_from_index)
  have ids: "mset (pair_ids ?bk p) = mset (pair_ids bk p) - {#i#}"
    using level_drop_ids [OF D(1) rv key] by (simp add: pair_ids_def levels_of_remove_from_index)
  show "set (pair_ids ?bk q) = (S(p := S p - {i})) q"
  proof (cases "q = p")
    case True
    have "mset (pair_ids ?bk p) = mset (remove1 i (pair_ids bk p))"
      by (simp add: ids)
    then have "set (pair_ids ?bk p) = set (remove1 i (pair_ids bk p))"
      by (rule mset_eq_setD)
    with True D(2,5) [of p] show ?thesis
      by simp
  next
    case False
    then show ?thesis
      using D(2) [of q] by (simp add: pair_ids_def levels_of_remove_from_index)
  qed
  show "unat (count_of ?bk q) = length (pair_ids ?bk q)"
  proof (cases "q = p")
    case True
    have "i \<in># mset (pair_ids bk p)"
      using assms(2) D(2) [of p] by simp
    then have "length (pair_ids ?bk p) = length (pair_ids bk p) - 1"
      using arg_cong [OF ids, of size] by (simp add: size_Diff_singleton)
    with True show ?thesis
      using D(3) [of p] by (simp add: count_of_count_dec)
  next
    case False
    then show ?thesis
      using D(3) [of q] by (simp add: count_of_count_dec pair_ids_def levels_of_remove_from_index)
  qed
  show "pair_index ?bk q \<noteq> Some []"
    using D(4) [of q] by (intro remove_from_index_not_Nil) simp
  show "graph_ok ?bk"
    using D(6) by (intro graph_ok_remove_from_index) simp
  show "finite (dom (active_pair_count ?bk))"
    using D(8) by (auto simp: count_dec_def split: option.splits)
qed

lemma om_drop_absent:
  assumes "i \<notin> set (level_ids L)" "\<forall>e \<in> set L. snd e \<noteq> []"
  shows "om_alter RateKey_cmp k (level_drop i) L = L"
  using assms
  by (induction L)
    (auto simp: level_ids_def level_drop_def remove1_idem Let_def split: Ordering.splits option.splits)

lemma remove_from_index_absent:
  assumes "index_inv bk S" "i \<notin> S p"
  shows "remove_from_index p k i bk = bk"
proof (cases "pair_index bk p")
  case (Some L)
  note D = index_invD [OF assms(1)]
  have "om_alter RateKey_cmp k (level_drop i) L = L"
    using D(1) [of p] D(2) [of p] assms(2) Some
    by (intro om_drop_absent)
      (auto simp: pair_ids_def levels_of_def unwrap_or_default_def dest: levels_okD)
  with Some D(4) [of p] show ?thesis
    by (simp add: remove_from_index_def fun_upd_idem)
qed (simp add: remove_from_index_def)

lemma index_inv_frame:
  assumes "index_inv bk S"
    and "pair_index bk' = pair_index bk" "active_pair_count bk' = active_pair_count bk"
    and "user_adjacency bk' = user_adjacency bk" "incoming_adjacency bk' = incoming_adjacency bk"
    and "\<And>p i k. i \<in> S p \<Longrightarrow> keyed (orders bk) i k \<Longrightarrow> keyed (orders bk') i k"
  shows "index_inv bk' S"
proof -
  have lv: "levels_of bk' p = levels_of bk p" and ct: "count_of bk' p = count_of bk p" for p
    by (simp_all add: levels_of_def count_of_def assms)
  note D = index_invD [OF assms(1)]
  have "levels_ok (keyed (orders bk')) (levels_of bk p)" for p
    using D(1) by (rule levels_ok_mono) (use assms(6) D(2) [of p] in \<open>auto simp: pair_ids_def\<close>)
  moreover have "graph_ok bk'"
    using D(6) by (simp add: graph_ok_def assms)
  ultimately show ?thesis
    using assms(1) by (simp add: index_inv_def pair_ids_def lv ct assms(2,3))
qed

section \<open>The book invariant\<close>

definition live :: "OrderBook \<Rightarrow> Pair \<Rightarrow> OrderId set" where
  "live bk p = {i. \<exists>ord. orders bk i = Some ord \<and> parked bk i = None
                        \<and> is_active ord \<and> order_pair ord = p}"

definition filled_ids :: "OrderId set \<Rightarrow> OrderBook \<Rightarrow> Pair \<Rightarrow> OrderId set" where
  "filled_ids X bk p = {i \<in> X. \<exists>ord. orders bk i = Some ord \<and> parked bk i = None
                        \<and> \<not> is_active ord \<and> order_pair ord = p}"

definition store_ok :: "OrderBook \<Rightarrow> bool" where
  "store_ok bk \<longleftrightarrow> finite (dom (orders bk)) \<and> card (dom (orders bk)) < 2 ^ 32 \<and> finite (tokens bk)
     \<and> (\<forall>i ord. orders bk i = Some ord \<longrightarrow> order_id ord = i \<and> wf_order ord
          \<and> offered_token ord \<in> tokens bk \<and> requested_token ord \<in> tokens bk)
     \<and> (\<forall>i d t. parked bk i = Some (d, t) \<longrightarrow> (t, i) \<in> set (park_queue bk)
          \<and> (\<exists>ord. orders bk i = Some ord \<and> is_active ord))"

text \<open>
  Between a fill and the cleanup of the filled orders the index still holds the
  ids of the orders just filled: \<open>wf_upto X\<close> allows the filled orders of \<open>X\<close>.
\<close>

definition wf_upto :: "OrderId set \<Rightarrow> OrderBook \<Rightarrow> bool" where
  "wf_upto X bk \<longleftrightarrow> store_ok bk \<and> index_inv bk (\<lambda>p. live bk p \<union> filled_ids X bk p)"

definition wf_book :: "OrderBook \<Rightarrow> bool" where
  "wf_book bk \<longleftrightarrow> store_ok bk \<and> index_inv bk (live bk)"

lemma wf_upto_empty: "wf_upto {} bk \<longleftrightarrow> wf_book bk"
  by (simp add: wf_upto_def wf_book_def filled_ids_def)

lemma store_okD:
  assumes "store_ok bk"
  shows "finite (dom (orders bk))" "card (dom (orders bk)) < 2 ^ 32" "finite (tokens bk)"
    "orders bk i = Some ord \<Longrightarrow> order_id ord = i"
    "orders bk i = Some ord \<Longrightarrow> wf_order ord"
    "orders bk i = Some ord \<Longrightarrow> offered_token ord \<in> tokens bk"
    "orders bk i = Some ord \<Longrightarrow> requested_token ord \<in> tokens bk"
    "parked bk i = Some (d, t) \<Longrightarrow> (t, i) \<in> set (park_queue bk)"
    "parked bk i = Some (d, t) \<Longrightarrow> \<exists>ord. orders bk i = Some ord \<and> is_active ord"
  using assms unfolding store_ok_def by blast+

lemma wf_bookD:
  assumes "wf_book bk"
  shows "store_ok bk" "index_inv bk (live bk)"
  using assms by (simp_all add: wf_book_def)

lemma live_subset: "live bk p \<subseteq> dom (orders bk)"
  by (auto simp: live_def)

lemma card_live: "store_ok bk \<Longrightarrow> card (live bk p) < 2 ^ 32"
  using card_mono [OF store_okD(1) live_subset] store_okD(2) le_less_trans by blast

lemma keyed_own: "orders bk i = Some ord \<Longrightarrow> offered ord \<noteq> 0 \<Longrightarrow>
    RateKey_eq (rate_key ord) k \<Longrightarrow> keyed (orders bk) i k"
  by (auto simp: keyed_def)

lemma wf_book_new: "wf_book (OrderBook_new f)"
  by (simp add: wf_book_def store_ok_def OrderBook_new_def index_inv_def graph_ok_def live_def
      levels_of_def pair_ids_def count_of_def adj_set_def unwrap_or_default_def level_ids_def)

lemma wf_book_add_user_order:
  assumes wf: "wf_book bk" and "off \<noteq> 0" "req \<noteq> 0"
    and cap: "card (dom (orders bk)) + 1 < 2 ^ 32"
  shows "wf_book (add_user_order i a b off req bk)"
proof (cases "orders bk i \<noteq> None \<and> parked bk i = None")
  case True
  with wf show ?thesis by (simp add: add_user_order_def)
next
  case False
  define ord where "ord = \<lparr>order_id = i, offered_token = a, requested_token = b,
    offered = off, requested = req, requested_remaining = req\<rparr>"
  define bk2 where "bk2 = bk\<lparr>parked := (parked bk)(i := None), orders := (orders bk)(i \<mapsto> ord)\<rparr>"
  have add: "add_user_order i a b off req bk
      = (index_insert i a b (rate_key ord) bk2)\<lparr>tokens := insert b (insert a (tokens bk))\<rparr>"
    using False by (auto simp: add_user_order_def Let_def bk2_def ord_def)
  have ord: "is_active ord" "wf_order ord" "order_pair ord = (a, b)" "order_id ord = i"
      "offered_token ord = a" "requested_token ord = b" "offered ord \<noteq> 0"
    using assms(2,3) by (simp_all add: ord_def is_active_iff wf_order_def order_pair_def)
  have S: "store_ok bk" using wf by (simp add: wf_book_def)
  have notin: "i \<notin> live bk p" for p
    using False by (auto simp: live_def)
  have "index_inv bk2 (live bk)"
    by (rule index_inv_frame [OF wf_bookD(2) [OF wf]]) (auto simp: bk2_def keyed_def notin)
  then have "index_inv (index_insert i a b (rate_key ord) bk2)
      ((live bk)((a, b) := insert i (live bk (a, b))))"
    using notin ord card_mono [OF store_okD(1) [OF S] live_subset, of "(a, b)"] cap
    by (intro index_inv_insert) (auto simp: bk2_def keyed_def)
  moreover have "(live bk)((a, b) := insert i (live bk (a, b)))
      = live (add_user_order i a b off req bk)"
    using ord(1,3) False by (auto simp: fun_eq_iff live_def add bk2_def)
  ultimately have "index_inv (add_user_order i a b off req bk) (live (add_user_order i a b off req bk))"
    unfolding add by (auto elim: index_inv_frame)
  moreover have "store_ok (add_user_order i a b off req bk)"
    using S ord cap card_insert_le_m1 unfolding store_ok_def
    by (auto simp: add bk2_def card_insert_if)
  ultimately show ?thesis
    by (simp add: wf_book_def)
qed

lemma order_pair_fields [simp]:
  "order_pair (ord\<lparr>requested_remaining := r\<rparr>) = order_pair ord"
  "rate_key (ord\<lparr>requested_remaining := r\<rparr>) = rate_key ord"
  by (simp_all add: order_pair_def rate_key_def)

lemma wf_upto_fill:
  assumes wf: "wf_upto X bk" and ord: "orders bk i = Some ord" "is_active ord" "parked bk i = None"
    and r: "r \<le> requested ord"
  shows "wf_upto (insert i X) (bk\<lparr>orders := (orders bk)(i \<mapsto> ord\<lparr>requested_remaining := r\<rparr>)\<rparr>)"
    (is "wf_upto _ ?bk")
proof -
  have S: "store_ok bk" and inv: "index_inv bk (\<lambda>p. live bk p \<union> filled_ids X bk p)"
    using wf by (simp_all add: wf_upto_def)
  have "index_inv ?bk (\<lambda>p. live bk p \<union> filled_ids X bk p)"
    using ord(1) by (intro index_inv_frame [OF inv]) (auto simp: keyed_def)
  moreover have "(\<lambda>p. live bk p \<union> filled_ids X bk p)
      = (\<lambda>p. live ?bk p \<union> filled_ids (insert i X) ?bk p)"
    using ord by (auto simp: fun_eq_iff live_def filled_ids_def split: if_splits)
  moreover have "store_ok ?bk"
    using S ord r unfolding store_ok_def by (auto simp: wf_order_def insert_absorb domI)
  ultimately show ?thesis
    by (simp add: wf_upto_def)
qed

lemma cleanup_if_filled_frame [simp]:
  "orders (cleanup_if_filled i bk) = orders bk"
  "parked (cleanup_if_filled i bk) = parked bk"
  "park_queue (cleanup_if_filled i bk) = park_queue bk"
  "protocol_balances (cleanup_if_filled i bk) = protocol_balances bk"
  "tokens (cleanup_if_filled i bk) = tokens bk"
  "feed (cleanup_if_filled i bk) = feed bk"
  by (simp_all add: cleanup_if_filled_def split: option.splits)

lemma cleanup_if_filled_sets [simp]:
  "live (cleanup_if_filled i bk) = live bk"
  "filled_ids X (cleanup_if_filled i bk) = filled_ids X bk"
  "store_ok (cleanup_if_filled i bk) = store_ok bk"
  by (simp_all add: live_def filled_ids_def store_ok_def fun_eq_iff)

lemma wf_upto_cleanup:
  assumes wf: "wf_upto X bk" and "i \<in> X"
  shows "wf_upto (X - {i}) (cleanup_if_filled i bk)"
proof -
  have S: "store_ok bk" and inv: "index_inv bk (\<lambda>p. live bk p \<union> filled_ids X bk p)"
    using wf by (simp_all add: wf_upto_def)
  show ?thesis
  proof (cases "\<exists>ord. orders bk i = Some ord \<and> \<not> is_active ord")
    case False
    then have "cleanup_if_filled i bk = bk" "filled_ids (X - {i}) bk = filled_ids X bk"
      by (auto simp: cleanup_if_filled_def is_completely_filled_iff filled_ids_def fun_eq_iff
          split: option.splits)
    with wf show ?thesis by (simp add: wf_upto_def)
  next
    case True
    then obtain ord where ord: "orders bk i = Some ord" "\<not> is_active ord" by blast
    then have np: "parked bk i = None"
      using store_okD(9) [OF S, of i] by (cases "parked bk i") auto
    let ?p = "order_pair ord" and ?S = "\<lambda>p. live bk p \<union> filled_ids X bk p"
    have c: "cleanup_if_filled i bk = remove_from_index ?p (rate_key ord) i (count_dec ?p bk)"
      using ord by (simp add: cleanup_if_filled_def is_completely_filled_iff)
    have "index_inv (cleanup_if_filled i bk) (?S(?p := ?S ?p - {i}))"
      unfolding c using ord np assms(2) store_okD(5) [OF S, of i ord]
      by (intro index_inv_drop [OF inv]) (auto simp: filled_ids_def wf_order_def)
    moreover have "?S(?p := ?S ?p - {i}) = (\<lambda>p. live bk p \<union> filled_ids (X - {i}) bk p)"
      using ord by (auto simp: fun_eq_iff live_def filled_ids_def)
    ultimately show ?thesis
      using S by (simp add: wf_upto_def)
  qed
qed

lemma add_protocol_balance_frame [simp]:
  "orders (add_protocol_balance t x bk) = orders bk"
  "parked (add_protocol_balance t x bk) = parked bk"
  "park_queue (add_protocol_balance t x bk) = park_queue bk"
  "feed (add_protocol_balance t x bk) = feed bk"
  "pair_index (add_protocol_balance t x bk) = pair_index bk"
  "active_pair_count (add_protocol_balance t x bk) = active_pair_count bk"
  "user_adjacency (add_protocol_balance t x bk) = user_adjacency bk"
  "incoming_adjacency (add_protocol_balance t x bk) = incoming_adjacency bk"
  by (simp_all add: add_protocol_balance_def)

lemma add_protocol_balance_sets [simp]:
  "live (add_protocol_balance t x bk) = live bk"
  "filled_ids X (add_protocol_balance t x bk) = filled_ids X bk"
  by (simp_all add: live_def filled_ids_def fun_eq_iff)

lemma wf_upto_add_protocol_balance:
  assumes "wf_upto X bk"
  shows "wf_upto X (add_protocol_balance t x bk)"
proof -
  have "store_ok bk" and inv: "index_inv bk (\<lambda>p. live bk p \<union> filled_ids X bk p)"
    using assms by (simp_all add: wf_upto_def)
  then have "store_ok (add_protocol_balance t x bk)"
    unfolding store_ok_def by (auto simp: add_protocol_balance_def)
  moreover have "index_inv (add_protocol_balance t x bk) (\<lambda>p. live bk p \<union> filled_ids X bk p)"
    by (rule index_inv_frame [OF inv]) simp_all
  ultimately show ?thesis
    by (simp add: wf_upto_def)
qed

lemma wf_book_deduct_protocol_balance:
  assumes "wf_book bk"
  shows "wf_book (deduct_protocol_balance t x bk)"
proof -
  let ?bk = "deduct_protocol_balance t x bk"
  have eqs: "orders ?bk = orders bk" "parked ?bk = parked bk" "park_queue ?bk = park_queue bk"
      "tokens ?bk = tokens bk" "pair_index ?bk = pair_index bk"
      "active_pair_count ?bk = active_pair_count bk" "user_adjacency ?bk = user_adjacency bk"
      "incoming_adjacency ?bk = incoming_adjacency bk"
    by (simp_all add: deduct_protocol_balance_def split: option.splits)
  have "index_inv ?bk (live bk)"
    by (rule index_inv_frame [OF wf_bookD(2) [OF assms]]) (simp_all add: eqs)
  moreover have "live ?bk = live bk" "store_ok ?bk = store_ok bk"
    by (simp_all add: live_def store_ok_def fun_eq_iff eqs)
  ultimately show ?thesis
    using assms by (simp add: wf_book_def)
qed

lemma wf_book_remove_order:
  assumes wf: "wf_book bk"
  shows "wf_book (remove_order i bk)"
proof (cases "orders bk i")
  case None
  with wf show ?thesis by (simp add: remove_order_def)
next
  case (Some ord)
  note S = wf_bookD(1) [OF wf] and inv = wf_bookD(2) [OF wf]
  have off: "offered ord \<noteq> 0"
    using store_okD(5) [OF S Some] by (simp add: wf_order_def)
  let ?p = "order_pair ord"
  let ?bk = "remove_order i bk"
  define bk' where "bk' = (if parked bk i = None \<and> is_active ord
      then remove_from_index ?p (rate_key ord) i (count_dec ?p bk) else bk)"
  have absent: "remove_from_index ?p (rate_key ord) i bk = bk" if "\<not> is_active ord"
    using that Some by (intro remove_from_index_absent [OF inv]) (auto simp: live_def)
  have orders_upd: "remove_from_index p k i (count_dec p (bk\<lparr>orders := os\<rparr>))
      = (remove_from_index p k i (count_dec p bk))\<lparr>orders := os\<rparr>"
    "remove_from_index p k i (bk\<lparr>orders := os\<rparr>) = (remove_from_index p k i bk)\<lparr>orders := os\<rparr>"
    for p k os
    by (simp_all add: remove_from_index_def count_dec_def Let_def split: option.splits)
  have eq: "?bk = bk'\<lparr>orders := (orders bk)(i := None), parked := (parked bk)(i := None)\<rparr>"
    using Some absent
    by (auto simp: remove_order_def bk'_def orders_upd Let_def fun_upd_idem)
  have inv': "index_inv bk' (\<lambda>p. live bk p - {i})"
  proof (cases "parked bk i = None \<and> is_active ord")
    case True
    then have "(live bk)(?p := live bk ?p - {i}) = (\<lambda>p. live bk p - {i})"
      using Some by (auto simp: fun_eq_iff live_def)
    with index_inv_drop [OF inv _ Some off, of ?p] True Some show ?thesis
      by (auto simp: bk'_def live_def)
  next
    case False
    then have "(\<lambda>p. live bk p - {i}) = live bk"
      using Some by (auto simp: fun_eq_iff live_def)
    with False inv show ?thesis
      by (auto simp: bk'_def)
  qed
  have "index_inv ?bk (\<lambda>p. live bk p - {i})"
    by (rule index_inv_frame [OF inv']) (simp_all add: eq keyed_def bk'_def split: if_splits)
  moreover have "(\<lambda>p. live bk p - {i}) = live ?bk"
    unfolding eq by (auto simp: fun_eq_iff live_def)
  ultimately have "index_inv ?bk (live ?bk)"
    by simp
  moreover have "store_ok ?bk"
    using S card_Diff1_le [of "dom (orders bk)" i] unfolding store_ok_def eq
    by (auto simp: bk'_def)
  ultimately show ?thesis
    by (simp add: wf_book_def)
qed

lemma park_eq:
  assumes "parked bk i = None" "orders bk i = Some ord" "is_active ord"
  shows "park i dex t bk
    = (remove_from_index (order_pair ord) (rate_key ord) i (count_dec (order_pair ord) bk))
        \<lparr>parked := (parked bk)(i \<mapsto> (dex, t)), park_queue := park_queue bk @ [(t, i)]\<rparr>"
  using assms by (simp add: park_def Let_def)

lemma park_noop:
  assumes "\<not> (parked bk i = None \<and> (\<exists>ord. orders bk i = Some ord \<and> is_active ord))"
  shows "park i dex t bk = bk"
  using assms by (auto simp: park_def split: option.splits)

lemma wf_book_park:
  assumes wf: "wf_book bk"
  shows "wf_book (park i dex t bk)"
proof (cases "parked bk i = None \<and> (\<exists>ord. orders bk i = Some ord \<and> is_active ord)")
  case False
  with wf show ?thesis by (simp add: park_noop)
next
  case True
  then obtain ord where ord: "parked bk i = None" "orders bk i = Some ord" "is_active ord" by blast
  note S = wf_bookD(1) [OF wf] and inv = wf_bookD(2) [OF wf]
  let ?p = "order_pair ord" and ?bk = "park i dex t bk"
  have "offered ord \<noteq> 0"
    using store_okD(5) [OF S ord(2)] by (simp add: wf_order_def)
  then have "index_inv (remove_from_index ?p (rate_key ord) i (count_dec ?p bk))
      ((live bk)(?p := live bk ?p - {i}))"
    using ord by (intro index_inv_drop [OF inv]) (auto simp: live_def)
  then have "index_inv ?bk ((live bk)(?p := live bk ?p - {i}))"
    by (rule index_inv_frame) (simp_all add: park_eq [OF ord])
  moreover have "(live bk)(?p := live bk ?p - {i}) = live ?bk"
    using ord by (auto simp: park_eq fun_eq_iff live_def)
  moreover have "store_ok ?bk"
    using S ord unfolding store_ok_def by (auto simp: park_eq [OF ord])
  ultimately show ?thesis
    by (simp add: wf_book_def)
qed

lemma unpark_eq:
  assumes "parked bk i = Some (dex, t)" "orders bk i = Some ord" "is_active ord"
  shows "unpark i bk = (Some dex,
    index_insert i (offered_token ord) (requested_token ord) (rate_key ord)
      (bk\<lparr>parked := (parked bk)(i := None)\<rparr>))"
  using assms by (simp add: unpark_def reindex_def)

lemma wf_book_unpark:
  assumes wf: "wf_book bk"
  shows "wf_book (snd (unpark i bk))"
proof (cases "parked bk i")
  case None
  with wf show ?thesis by (simp add: unpark_def)
next
  case (Some dt)
  obtain dex t where dt: "dt = (dex, t)" by (cases dt)
  note S = wf_bookD(1) [OF wf] and inv = wf_bookD(2) [OF wf]
  obtain ord where ord: "orders bk i = Some ord" "is_active ord"
    using store_okD(9) [OF S] Some dt by blast
  let ?p = "(offered_token ord, requested_token ord)" and ?bk = "snd (unpark i bk)"
  have off: "offered ord \<noteq> 0"
    using store_okD(5) [OF S ord(1)] by (simp add: wf_order_def)
  define bk1 where "bk1 = bk\<lparr>parked := (parked bk)(i := None)\<rparr>"
  have un: "?bk = index_insert i (offered_token ord) (requested_token ord) (rate_key ord) bk1"
    using Some dt ord by (simp add: unpark_eq bk1_def)
  have inv1: "index_inv bk1 (live bk)"
    by (rule index_inv_frame [OF inv]) (simp_all add: bk1_def)
  have notin: "i \<notin> live bk p" for p
    using Some by (simp add: live_def)
  have "card (insert i (live bk ?p)) \<le> card (dom (orders bk))"
    using ord(1) live_subset store_okD(1) [OF S] by (intro card_mono) auto
  then have "card (live bk ?p) + 1 < 2 ^ 32"
    using notin store_okD(2) [OF S] index_invD(7) [OF inv, of ?p] by simp
  then have "index_inv ?bk ((live bk)(?p := insert i (live bk ?p)))"
    unfolding un using notin off ord
    by (intro index_inv_insert [OF inv1]) (auto simp: bk1_def keyed_def)
  moreover have "(live bk)(?p := insert i (live bk ?p)) = live ?bk"
    using ord Some unfolding un by (auto simp: fun_eq_iff live_def bk1_def order_pair_def)
  moreover have "store_ok ?bk"
    using S unfolding un store_ok_def by (auto simp: bk1_def)
  ultimately show ?thesis
    by (simp add: wf_book_def)
qed

lemma reindex_frame [simp]:
  "orders (reindex i bk) = orders bk"
  "parked (reindex i bk) = parked bk"
  "park_queue (reindex i bk) = park_queue bk"
  "protocol_balances (reindex i bk) = protocol_balances bk"
  "tokens (reindex i bk) = tokens bk"
  "feed (reindex i bk) = feed bk"
  by (simp_all add: reindex_def split: option.splits)

lemma unpark_frame [simp]:
  "orders (snd (unpark i bk)) = orders bk"
  "parked (snd (unpark i bk)) = (parked bk)(i := None)"
  "park_queue (snd (unpark i bk)) = park_queue bk"
  "protocol_balances (snd (unpark i bk)) = protocol_balances bk"
  "tokens (snd (unpark i bk)) = tokens bk"
  "feed (snd (unpark i bk)) = feed bk"
  "fst (unpark i bk) = map_option fst (parked bk i)"
  by (auto simp: unpark_def fun_upd_idem split: option.splits)

definition expired :: "u64 \<Rightarrow> u64 \<Rightarrow> u64 \<times> OrderId \<Rightarrow> bool" where
  "expired ttl time e \<longleftrightarrow> saturating_add (fst e) ttl \<le> time"

definition popped :: "u64 \<Rightarrow> u64 \<Rightarrow> (u64 \<times> OrderId) list \<Rightarrow> OrderId list" where
  "popped ttl time q = map snd (takeWhile (expired ttl time) q)"

lemma popped_simps [simp]:
  "popped ttl time [] = []"
  "popped ttl time ((t, i) # q) = (if expired ttl time (t, i) then i # popped ttl time q else [])"
  by (simp_all add: popped_def)

lemma reactivate_loop_step:
  "reactivate_loop ttl time ((t, i) # q) bk =
     (if \<not> expired ttl time (t, i) then ([], bk\<lparr>park_queue := (t, i) # q\<rparr>)
      else let r = reactivate_loop ttl time q (snd (unpark i bk))
           in (case fst (unpark i bk) of None \<Rightarrow> fst r | Some dex \<Rightarrow> (i, dex) # fst r, snd r))"
  by (cases "unpark i bk")
    (auto simp: expired_def Let_def not_le split_beta split: option.splits)

declare reactivate_loop.simps(2) [simp del]

lemma reactivate_loop_frame [simp]:
  "orders (snd (reactivate_loop ttl time q bk)) = orders bk"
  "protocol_balances (snd (reactivate_loop ttl time q bk)) = protocol_balances bk"
  "tokens (snd (reactivate_loop ttl time q bk)) = tokens bk"
  "feed (snd (reactivate_loop ttl time q bk)) = feed bk"
  by (induction q arbitrary: bk) (simp_all add: split_paired_all reactivate_loop_step Let_def)

lemma reactivate_loop_queue:
  "park_queue (snd (reactivate_loop ttl time q bk)) = dropWhile (expired ttl time) q"
  by (induction q arbitrary: bk) (simp_all add: split_paired_all reactivate_loop_step Let_def)

lemma reactivate_loop_parked:
  "parked (snd (reactivate_loop ttl time q bk)) i
     = (if i \<in> set (popped ttl time q) then None else parked bk i)"
  by (induction q arbitrary: bk) (simp_all add: split_paired_all reactivate_loop_step Let_def)

lemma reactivate_loop_result:
  "(i, dex) \<in> set (fst (reactivate_loop ttl time q bk))
     \<longleftrightarrow> i \<in> set (popped ttl time q) \<and> map_option fst (parked bk i) = Some dex"
  by (induction q arbitrary: bk)
    (auto simp: split_paired_all reactivate_loop_step Let_def split: option.splits)

lemma reactivate_loop_distinct: "distinct (map fst (fst (reactivate_loop ttl time q bk)))"
proof (induction q arbitrary: bk)
  case (Cons e q)
  obtain t i where e: "e = (t, i)" by (cases e)
  have "i \<notin> fst ` set (fst (reactivate_loop ttl time q (snd (unpark i bk))))"
    by (auto simp: reactivate_loop_result)
  with Cons show ?case
    by (auto simp: e reactivate_loop_step Let_def split: option.splits)
qed simp

lemma wf_book_set_queue:
  assumes "wf_book bk" "\<And>i d t. parked bk i = Some (d, t) \<Longrightarrow> (t, i) \<in> set q"
  shows "wf_book (bk\<lparr>park_queue := q\<rparr>)"
proof -
  have "index_inv (bk\<lparr>park_queue := q\<rparr>) (live bk)"
    by (rule index_inv_frame [OF wf_bookD(2) [OF assms(1)]]) simp_all
  moreover have "live (bk\<lparr>park_queue := q\<rparr>) = live bk"
    by (simp add: live_def fun_eq_iff)
  moreover have "store_ok (bk\<lparr>park_queue := q\<rparr>)"
    using wf_bookD(1) [OF assms(1)] assms(2) unfolding store_ok_def by simp
  ultimately show ?thesis
    by (simp add: wf_book_def)
qed

lemma wf_book_reactivate_loop:
  assumes "wf_book bk" "\<And>i d t. parked bk i = Some (d, t) \<Longrightarrow> (t, i) \<in> set q"
  shows "wf_book (snd (reactivate_loop ttl time q bk))"
  using assms
proof (induction q arbitrary: bk)
  case Nil
  have "wf_book (bk\<lparr>park_queue := []\<rparr>)"
    using Nil by (intro wf_book_set_queue) auto
  then show ?case by simp
next
  case (Cons e q)
  obtain t i where e: "e = (t, i)" by (cases e)
  show ?case
  proof (cases "expired ttl time (t, i)")
    case True
    have "wf_book (snd (reactivate_loop ttl time q (snd (unpark i bk))))"
    proof (rule Cons.IH)
      show "wf_book (snd (unpark i bk))"
        using Cons.prems(1) by (rule wf_book_unpark)
      show "(t', j) \<in> set q" if "parked (snd (unpark i bk)) j = Some (d, t')" for j d t'
        using that Cons.prems(2) [of j d t'] by (auto simp: e split: if_splits)
    qed
    with True show ?thesis
      by (simp add: e reactivate_loop_step Let_def)
  next
    case False
    have "wf_book (bk\<lparr>park_queue := e # q\<rparr>)"
      using Cons.prems by (intro wf_book_set_queue) auto
    with False show ?thesis
      by (simp add: e reactivate_loop_step)
  qed
qed

lemma wf_book_reactivate:
  "wf_book bk \<Longrightarrow> wf_book (snd (reactivate_parked_older_than ttl time bk))"
  unfolding reactivate_parked_older_than_def
  by (rule wf_book_reactivate_loop) (auto simp: wf_book_def dest: store_okD(8))

section \<open>Matching inside the book\<close>

lemma apply_match_None: "apply_match a b bk = (None, bk') \<Longrightarrow> bk' = bk"
  by (auto simp: apply_match_def Let_def split: if_splits option.splits prod.splits)

lemma apply_match_SomeE:
  assumes "apply_match a b bk = (Some r, bk')"
  obtains oa ob oa' ob' where
    "a \<noteq> b" "orders bk a = Some oa" "orders bk b = Some ob"
    "match_with oa ob = (Some r, oa', ob')"
    "bk' = cleanup_if_filled b (cleanup_if_filled a
       (add_protocol_balance (offered_token ob') (surplus_requested r)
         (add_protocol_balance (offered_token oa') (surplus_offered r)
           (bk\<lparr>orders := (orders bk)(a \<mapsto> oa', b \<mapsto> ob')\<rparr>))))"
  using assms
  by (auto simp: apply_match_def Let_def split: if_splits option.splits prod.splits)

lemma match_with_upd:
  assumes "match_with a b = (Some r, a', b')"
  shows "a' = a\<lparr>requested_remaining := requested_remaining a'\<rparr>"
    "b' = b\<lparr>requested_remaining := requested_remaining b'\<rparr>"
    "is_active a" "is_active b"
  using assms by (auto elim!: match_with_SomeE)

lemma wf_book_apply_match:
  assumes wf: "wf_book bk" and "parked bk a = None" "parked bk b = None"
    and "apply_match a b bk = (Some r, bk')"
  shows "wf_book bk'"
  using assms(4)
proof (elim apply_match_SomeE)
  fix oa ob oa' ob'
  assume ne: "a \<noteq> b" and oa: "orders bk a = Some oa" and ob: "orders bk b = Some ob"
    and m: "match_with oa ob = (Some r, oa', ob')"
    and bk': "bk' = cleanup_if_filled b (cleanup_if_filled a
       (add_protocol_balance (offered_token ob') (surplus_requested r)
         (add_protocol_balance (offered_token oa') (surplus_offered r)
           (bk\<lparr>orders := (orders bk)(a \<mapsto> oa', b \<mapsto> ob')\<rparr>))))"
  note S = wf_bookD(1) [OF wf]
  have wfab: "wf_order oa'" "wf_order ob'"
    using match_with_wf [OF m] store_okD(5) [OF S oa] store_okD(5) [OF S ob] by simp_all
  note u = match_with_upd [OF m]
  have r1: "requested_remaining oa' \<le> requested oa"
    using wfab(1) by (subst (asm) u(1)) (simp add: wf_order_def)
  have r2: "requested_remaining ob' \<le> requested ob"
    using wfab(2) by (subst (asm) u(2)) (simp add: wf_order_def)
  have "wf_upto {} bk"
    using wf by (simp add: wf_upto_empty)
  from wf_upto_fill [OF this oa u(3) assms(2) r1]
  have 1: "wf_upto {a} (bk\<lparr>orders := (orders bk)(a \<mapsto> oa')\<rparr>)"
    by (simp flip: u(1))
  have "wf_upto (insert b {a}) (bk\<lparr>orders := (orders bk)(a \<mapsto> oa', b \<mapsto> ob')\<rparr>)"
    using wf_upto_fill [OF 1, of b ob "requested_remaining ob'"] ob u(4) assms(3) r2 ne
    by (simp flip: u(2))
  then have "wf_upto {a, b} (add_protocol_balance (offered_token ob') (surplus_requested r)
         (add_protocol_balance (offered_token oa') (surplus_offered r)
           (bk\<lparr>orders := (orders bk)(a \<mapsto> oa', b \<mapsto> ob')\<rparr>)))"
    by (intro wf_upto_add_protocol_balance) (simp add: insert_commute)
  from wf_upto_cleanup [OF wf_upto_cleanup [OF this, of a], of b] show ?thesis
    using ne unfolding bk' by (simp add: insert_Diff_if wf_upto_empty)
qed

section \<open>Top of the book\<close>

lemma best_scan_active:
  assumes "\<forall>(k, ids) \<in> set L. ids \<noteq> [] \<and> (\<forall>i \<in> set ids. \<not> stale_front os i)"
  shows "best_scan os L = (case L of [] \<Rightarrow> None | (k, ids) # _ \<Rightarrow> os (hd ids), L)"
  using assms
proof (cases L)
  case (Cons e L')
  obtain k ids where e: "e = (k, ids)" by (cases e)
  from assms Cons e obtain i rest where "ids = i # rest" "\<not> stale_front os i"
    by (cases ids) auto
  then show ?thesis
    by (simp add: Cons e)
qed simp

lemma wf_book_levels_active:
  assumes "wf_book bk" "(k, ids) \<in> set (levels_of bk p)"
  shows "ids \<noteq> []" "i \<in> set ids \<Longrightarrow> i \<in> live bk p" "i \<in> set ids \<Longrightarrow> \<not> stale_front (orders bk) i"
proof -
  note D = index_invD [OF wf_bookD(2) [OF assms(1)]]
  show "ids \<noteq> []"
    using levels_okD(2) [OF D(1) assms(2)] .
  show live: "i \<in> set ids \<Longrightarrow> i \<in> live bk p"
    using assms(2) D(2) [of p] by (force simp: pair_ids_def level_ids_def)
  show "i \<in> set ids \<Longrightarrow> \<not> stale_front (orders bk) i"
    using live by (auto simp: live_def stale_front_def)
qed

lemma best_order_wf:
  assumes "wf_book bk"
  shows "best_order a b bk
    = (case levels_of bk (a, b) of [] \<Rightarrow> None | (k, ids) # _ \<Rightarrow> orders bk (hd ids), bk)"
proof (cases "pair_index bk (a, b)")
  case None
  then show ?thesis
    by (simp add: best_order_def levels_of_def unwrap_or_default_def)
next
  case (Some L)
  then have L: "levels_of bk (a, b) = L"
    by (simp add: levels_of_def unwrap_or_default_def)
  have "best_scan (orders bk) L = (case L of [] \<Rightarrow> None | (k, ids) # _ \<Rightarrow> orders bk (hd ids), L)"
    by (rule best_scan_active) (use wf_book_levels_active [OF assms, of _ _ "(a, b)"] L in auto)
  with Some L show ?thesis
    by (simp add: best_order_def fun_upd_idem)
qed

lemma best_order_book [simp]: "wf_book bk \<Longrightarrow> snd (best_order a b bk) = bk"
  by (simp add: best_order_wf)

lemma best_order_SomeD:
  assumes "wf_book bk" "fst (best_order a b bk) = Some ord"
  shows "order_id ord \<in> live bk (a, b)" "orders bk (order_id ord) = Some ord"
    "\<And>i o'. i \<in> live bk (a, b) \<Longrightarrow> orders bk i = Some o' \<Longrightarrow> RateKey_le (rate_key ord) (rate_key o')"
proof -
  note D = index_invD [OF wf_bookD(2) [OF assms(1)]] and S = wf_bookD(1) [OF assms(1)]
  obtain k ids L where L: "levels_of bk (a, b) = (k, ids) # L" and ord: "orders bk (hd ids) = Some ord"
    using assms by (auto simp: best_order_wf split: list.splits)
  have hd: "hd ids \<in> set ids"
    using wf_book_levels_active(1) [OF assms(1), of k ids "(a, b)"] L by simp
  then have h: "hd ids \<in> live bk (a, b)"
    using wf_book_levels_active(2) [OF assms(1), of k ids "(a, b)"] L by simp
  moreover have oid: "order_id ord = hd ids"
    using store_okD(4) [OF S ord] .
  ultimately show "order_id ord \<in> live bk (a, b)" "orders bk (order_id ord) = Some ord"
    using ord by simp_all
  fix i o'
  assume i: "i \<in> live bk (a, b)" "orders bk i = Some o'"
  then obtain k' ids' where e: "(k', ids') \<in> set (levels_of bk (a, b))" "i \<in> set ids'"
    using D(2) [of "(a, b)"] by (force simp: pair_ids_def level_ids_def)
  have ok: "levels_ok (keyed (orders bk)) (levels_of bk (a, b))"
    using D(1) .
  have "keyed (orders bk) i k'" "keyed (orders bk) (hd ids) k" "rate_valid k" "rate_valid k'"
    using levels_okD [OF ok e(1)] e(2) levels_okD [OF ok, of k ids] hd L by auto
  then have eqs: "RateKey_eq (rate_key o') k'" "RateKey_eq (rate_key ord) k"
      "rate_valid (rate_key ord)" "rate_valid (rate_key o')" "rate_valid k" "rate_valid k'"
    using i(2) ord by (auto simp: keyed_def)
  have "RateKey_le k k'"
    using rate_order.om_sorted_head_le [of "(k, ids)" L "(k', ids')"] e(1) ok levels_ok_valid [OF ok]
    by (simp add: L levels_ok_def)
  then show "RateKey_le (rate_key ord) (rate_key o')"
    using eqs by (meson RateKey_eq_le rate_order.le_trans)
qed

lemma best_order_None:
  assumes "wf_book bk"
  shows "fst (best_order a b bk) = None \<longleftrightarrow> live bk (a, b) = {}"
proof -
  note D = index_invD [OF wf_bookD(2) [OF assms]]
  show ?thesis
  proof (cases "levels_of bk (a, b)")
    case Nil
    then show ?thesis
      using D(2) [of "(a, b)"] assms by (simp add: best_order_wf pair_ids_def level_ids_def)
  next
    case (Cons e L)
    obtain k ids where e: "e = (k, ids)" by (cases e)
    have "hd ids \<in> live bk (a, b)"
      using wf_book_levels_active(1,2) [OF assms, of k ids "(a, b)"] Cons e by simp
    then have "live bk (a, b) \<noteq> {}" "orders bk (hd ids) \<noteq> None"
      by (auto simp only: live_def mem_Collect_eq)
    then show ?thesis
      using assms by (simp add: best_order_wf Cons e)
  qed
qed

end
