(* ===== verification/Order_Book_Props.thy ===== *)
theory Order_Book_Props
  imports Order_Book_Inv
begin

text \<open>
  What the order book promises. The detailed index (levels, queues, counters,
  adjacency) refines an abstract book: for each directed pair the list of its
  live orders in price-time priority. Adding inserts behind every order of the
  same or a better rate, removing and parking delete one order and keep the
  rest in place, unparking inserts again at the back of the rate, and the best
  order is the head of the list.
\<close>

section \<open>The abstract book\<close>

definition insort_rate :: "Order \<Rightarrow> Order list \<Rightarrow> Order list" where
  "insort_rate ord xs =
     takeWhile (\<lambda>x. RateKey_le (rate_key x) (rate_key ord)) xs
     @ ord # dropWhile (\<lambda>x. RateKey_le (rate_key x) (rate_key ord)) xs"

definition abs_book :: "OrderBook \<Rightarrow> Pair \<Rightarrow> Order list" where
  "abs_book bk p = notes_for_pair (fst p) (snd p) bk"

section \<open>Levels as one list\<close>

lemma levels_ok_tail: "levels_ok R (e # L) \<Longrightarrow> levels_ok R L"
  by (auto simp: levels_ok_def om_sorted_def level_ids_def)

lemma levels_ok_head:
  assumes "levels_ok R ((k, ids) # L)" "(k', ids') \<in> set L"
  shows "\<not> RateKey_le k' k" "rate_valid k" "rate_valid k'"
  using assms by (auto simp: levels_ok_def om_sorted_def RateKey_cmp_Less)

lemma level_push_list:
  assumes "levels_ok R L" "rate_valid k"
    and "\<And>j k'. j \<in> set (level_ids L) \<Longrightarrow> R j k' \<Longrightarrow> rate_valid k' \<Longrightarrow> P j \<longleftrightarrow> RateKey_le k' k"
  shows "level_ids (om_alter RateKey_cmp k (level_push i) L)
    = takeWhile P (level_ids L) @ i # dropWhile P (level_ids L)"
  using assms
proof (induction L)
  case Nil
  then show ?case
    by (simp add: level_push_def unwrap_or_default_def level_ids_def)
next
  case (Cons e L)
  obtain k1 ids where e: "e = (k1, ids)" by (cases e)
  have v1: "rate_valid k1" and ne: "ids \<noteq> []"
    using levels_okD [OF Cons.prems(1), of k1 ids] by (simp_all add: e)
  have head: "P j \<longleftrightarrow> RateKey_le k1 k" if "j \<in> set ids" for j
    using that levels_okD(3) [OF Cons.prems(1), of k1 ids j] Cons.prems(3) [of j k1] v1
    by (simp add: e level_ids_def)
  have tail: "\<not> P j" if j: "j \<in> set (level_ids L)" and le: "RateKey_le k k1" for j
  proof -
    obtain k2 ids2 where m: "(k2, ids2) \<in> set L" "j \<in> set ids2"
      using j by (force simp: level_ids_def)
    have "\<not> RateKey_le k2 k1" "rate_valid k2"
      using levels_ok_head [OF Cons.prems(1) [unfolded e] m(1)] by simp_all
    moreover have "P j \<longleftrightarrow> RateKey_le k2 k"
      using Cons.prems(1,3) j m levels_okD(3) [OF levels_ok_tail [OF Cons.prems(1)] m]
        calculation(2) by (simp add: e level_ids_def)
    ultimately show ?thesis
      using le v1 Cons.prems(2) rate_order.le_trans by blast
  qed
  have IH: "level_ids (om_alter RateKey_cmp k (level_push i) L)
    = takeWhile P (level_ids L) @ i # dropWhile P (level_ids L)"
    using Cons.IH [OF levels_ok_tail [OF Cons.prems(1)] Cons.prems(2)] Cons.prems(3)
    by (simp add: level_ids_def)
  have none: "takeWhile P (level_ids L) = []" "dropWhile P (level_ids L) = level_ids L"
    if "RateKey_le k k1"
    using tail [OF _ that] by (cases "level_ids L"; simp)+
  show ?case
  proof (cases "RateKey_cmp k k1")
    case Less
    then have "\<not> RateKey_le k1 k"
      by (simp add: RateKey_cmp_Less)
    then have "\<not> P (hd ids)"
      using head ne by simp
    with Less ne show ?thesis
      by (cases ids) (simp_all add: e level_ids_def level_push_def unwrap_or_default_def)
  next
    case Equal
    then have "RateKey_le k k1" "RateKey_le k1 k"
      by (simp_all add: RateKey_cmp_Equal RateKey_eq_le)
    with Equal none head show ?thesis
      by (simp add: e level_ids_def level_push_def unwrap_or_default_def
          takeWhile_append2 dropWhile_append2)
  next
    case Greater
    then have "RateKey_le k1 k"
      by (simp add: rate_order.cmp_iffs)
    with Greater head IH show ?thesis
      by (simp add: e level_ids_def takeWhile_append2 dropWhile_append2)
  qed
qed

lemma level_drop_list:
  assumes "levels_ok R L" "rate_valid k" "\<And>k'. R i k' \<Longrightarrow> RateKey_eq k k'"
  shows "level_ids (om_alter RateKey_cmp k (level_drop i) L) = remove1 i (level_ids L)"
  using assms(1)
proof (induction L)
  case (Cons e L)
  obtain k1 ids where e: "e = (k1, ids)" by (cases e)
  have here: "RateKey_cmp k k1 = Equal" if "i \<in> set ids"
    using levels_okD(3) [OF Cons.prems, of k1 ids i] assms(3) that
    by (simp add: e RateKey_cmp_Equal)
  have later: "RateKey_cmp k k1 = Greater" if i: "i \<in> set (level_ids L)"
  proof -
    obtain k2 ids2 where m: "(k2, ids2) \<in> set L" "i \<in> set ids2"
      using i by (force simp: level_ids_def)
    have "RateKey_eq k k2"
      using levels_okD(3) [OF levels_ok_tail [OF Cons.prems] m] by (rule assms(3))
    moreover have "\<not> RateKey_le k2 k1" "rate_valid k1" "rate_valid k2"
      using levels_ok_head [OF Cons.prems [unfolded e] m(1)] by simp_all
    ultimately have "\<not> RateKey_le k k1"
      using assms(2) by (meson RateKey_eq_le rate_order.le_trans)
    with \<open>rate_valid k1\<close> assms(2) show ?thesis
      by (simp add: rate_order.cmp_iffs rate_order.not_le_imp_le)
  qed
  consider "i \<in> set ids" | "i \<notin> set ids" "i \<in> set (level_ids L)"
    | "i \<notin> set ids" "i \<notin> set (level_ids L)"
    by blast
  then show ?case
  proof cases
    case 1
    with here show ?thesis
      by (simp add: e level_ids_def level_drop_def Let_def remove1_append)
  next
    case 2
    with later Cons.IH [OF levels_ok_tail [OF Cons.prems]] show ?thesis
      by (simp add: e level_ids_def remove1_append)
  next
    case 3
    then have "om_alter RateKey_cmp k (level_drop i) (e # L) = e # L"
      using Cons.prems
      by (intro om_drop_absent) (auto simp: level_ids_def e dest: levels_okD(2))
    with 3 show ?thesis
      by (simp add: e level_ids_def remove1_idem)
  qed
qed (simp add: level_ids_def level_drop_def)

section \<open>Operations on the abstract book\<close>

lemma map_filter_live:
  assumes "\<forall>i \<in> set ids. \<exists>ord. os i = Some ord \<and> is_active ord"
  shows "filter is_active (List.map_filter os ids) = map (\<lambda>i. the (os i)) ids"
  using assms by (induction ids) (auto simp: List.map_filter_simps)

lemma abs_book_eq:
  assumes "wf_book bk"
  shows "abs_book bk p = map (\<lambda>i. the (orders bk i)) (pair_ids bk p)"
proof (cases "pair_index bk p")
  case None
  then show ?thesis
    by (simp add: abs_book_def notes_for_pair_def pair_ids_def levels_of_def unwrap_or_default_def
        level_ids_def)
next
  case (Some L)
  have "\<forall>i \<in> set (pair_ids bk p). \<exists>ord. orders bk i = Some ord \<and> is_active ord"
    using index_invD(2) [OF wf_bookD(2) [OF assms], of p] by (auto simp: live_def)
  from map_filter_live [OF this] Some show ?thesis
    by (simp add: abs_book_def notes_for_pair_def pair_ids_def levels_of_def unwrap_or_default_def
        level_ids_def)
qed

lemma abs_book_ids:
  assumes "wf_book bk"
  shows "map order_id (abs_book bk p) = pair_ids bk p"
proof -
  have "order_id (the (orders bk i)) = i" if "i \<in> set (pair_ids bk p)" for i
    using that index_invD(2) [OF wf_bookD(2) [OF assms], of p]
      store_okD(4) [OF wf_bookD(1) [OF assms]] by (auto simp: live_def)
  then show ?thesis
    by (simp add: abs_book_eq [OF assms] map_idI)
qed

lemma abs_book_set:
  assumes "wf_book bk"
  shows "ord \<in> set (abs_book bk p) \<longleftrightarrow> orders bk (order_id ord) = Some ord \<and> order_id ord \<in> live bk p"
proof -
  have ids: "set (abs_book bk p) = (\<lambda>i. the (orders bk i)) ` live bk p"
    using index_invD(2) [OF wf_bookD(2) [OF assms], of p] by (simp add: abs_book_eq [OF assms])
  have "orders bk (order_id ord) = Some ord \<and> order_id ord \<in> live bk p"
    if i: "i \<in> live bk p" "ord = the (orders bk i)" for i
  proof -
    obtain o' where "orders bk i = Some o'"
      using i(1) by (auto simp: live_def)
    with i store_okD(4) [OF wf_bookD(1) [OF assms] this] show ?thesis
      by simp
  qed
  moreover have "ord \<in> (\<lambda>i. the (orders bk i)) ` live bk p"
    if "orders bk (order_id ord) = Some ord" "order_id ord \<in> live bk p"
    by (rule image_eqI [where x = "order_id ord"]) (simp_all add: that)
  ultimately show ?thesis
    unfolding ids by blast
qed

lemma pair_ids_insert:
  assumes "index_inv bk S" "rate_valid k"
  shows "pair_ids (index_insert i a b k bk) (a, b)
    = takeWhile (\<lambda>j. RateKey_le (rate_key (the (orders bk j))) k) (pair_ids bk (a, b))
      @ i # dropWhile (\<lambda>j. RateKey_le (rate_key (the (orders bk j))) k) (pair_ids bk (a, b))"
  unfolding pair_ids_def levels_of_index_insert if_P [OF refl]
proof (rule level_push_list [OF index_invD(1) [OF assms(1)] assms(2)])
  fix j k'
  assume "keyed (orders bk) j k'" "rate_valid k'"
  then obtain ord where ord: "orders bk j = Some ord" "offered ord \<noteq> 0" "RateKey_eq (rate_key ord) k'"
    by (auto simp: keyed_def)
  then show "RateKey_le (rate_key (the (orders bk j))) k = RateKey_le k' k"
    using \<open>rate_valid k'\<close> assms(2) RateKey_eq_le rate_order.le_trans
    by (metis option.sel rate_valid_rate_key)
qed

lemma pair_ids_insert_other:
  "p \<noteq> (a, b) \<Longrightarrow> pair_ids (index_insert i a b k bk) p = pair_ids bk p"
  by (simp add: pair_ids_def levels_of_index_insert)

lemma pair_ids_drop:
  assumes "index_inv bk S" "orders bk i = Some ord" "offered ord \<noteq> 0"
  shows "pair_ids (remove_from_index p (rate_key ord) i (count_dec p bk)) p = remove1 i (pair_ids bk p)"
  unfolding pair_ids_def levels_of_remove_from_index if_P [OF refl] levels_of_count_dec
  by (rule level_drop_list [OF index_invD(1) [OF assms(1)]])
    (use assms in \<open>auto simp: keyed_def\<close>)

lemma insort_rate_map:
  "insort_rate ord (map f ids)
     = map f (takeWhile (\<lambda>j. RateKey_le (rate_key (f j)) (rate_key ord)) ids)
       @ ord # map f (dropWhile (\<lambda>j. RateKey_le (rate_key (f j)) (rate_key ord)) ids)"
  by (simp add: insort_rate_def takeWhile_map dropWhile_map comp_def)

lemma pair_ids_cong: "pair_index bk' = pair_index bk \<Longrightarrow> pair_ids bk' p = pair_ids bk p"
  by (simp add: pair_ids_def levels_of_def)

lemma abs_book_insert:
  assumes wf: "wf_book bk'" and wf0: "index_inv bk1 S" and i: "orders bk1 i = Some ord" "offered ord \<noteq> 0"
    and eqs: "orders bk' = orders bk1" "pair_index bk' = pair_index (index_insert i a b (rate_key ord) bk1)"
  shows "abs_book bk' p = (if p = (a, b)
      then insort_rate ord (map (\<lambda>j. the (orders bk1 j)) (pair_ids bk1 p))
      else map (\<lambda>j. the (orders bk1 j)) (pair_ids bk1 p))"
  using i pair_ids_insert [OF wf0, of "rate_key ord" i a b]
  by (simp add: abs_book_eq [OF wf] eqs pair_ids_cong [OF eqs(2)] insort_rate_map
      pair_ids_insert_other)

lemma pair_ids_drop_live:
  assumes wf: "wf_book bk" and i: "i \<in> live bk (order_pair ord)" "orders bk i = Some ord"
  shows "pair_ids (remove_from_index (order_pair ord) (rate_key ord) i (count_dec (order_pair ord) bk)) p
    = remove1 i (pair_ids bk p)"
proof (cases "p = order_pair ord")
  case True
  have "offered ord \<noteq> 0"
    using store_okD(5) [OF wf_bookD(1) [OF wf] i(2)] by (simp add: wf_order_def)
  with True show ?thesis
    using pair_ids_drop [OF wf_bookD(2) [OF wf] i(2)] by simp
next
  case False
  then have "i \<notin> set (pair_ids bk p)"
    using i index_invD(2) [OF wf_bookD(2) [OF wf], of p] by (auto simp: live_def)
  with False show ?thesis
    by (simp add: pair_ids_def levels_of_remove_from_index remove1_idem)
qed

lemma not_live_pair_ids:
  assumes "wf_book bk" "\<And>p. i \<notin> live bk p"
  shows "remove1 i (pair_ids bk p) = pair_ids bk p"
  using index_invD(2) [OF wf_bookD(2) [OF assms(1)], of p] assms(2) by (simp add: remove1_idem)

lemma remove_order_index:
  assumes "orders bk i = Some ord"
  shows "pair_index (remove_order i bk) =
    (if parked bk i \<noteq> None then pair_index bk
     else pair_index (remove_from_index (order_pair ord) (rate_key ord) i (count_dec (order_pair ord) bk)))"
  using assms
  by (auto simp: remove_order_def Let_def remove_from_index_def count_dec_def split: option.splits)

lemma remove_order_pair_ids:
  assumes wf: "wf_book bk"
  shows "pair_ids (remove_order i bk) p = remove1 i (pair_ids bk p)"
proof (cases "\<exists>ord. orders bk i = Some ord \<and> i \<in> live bk (order_pair ord)")
  case True
  then obtain ord where ord: "orders bk i = Some ord" "i \<in> live bk (order_pair ord)" by blast
  then have "parked bk i = None" by (simp add: live_def)
  with pair_ids_drop_live [OF wf ord(2,1)] remove_order_index [OF ord(1)] show ?thesis
    by (simp add: pair_ids_def levels_of_def)
next
  case False
  then have nl: "i \<notin> live bk q" for q
    by (auto simp: live_def)
  have "pair_index (remove_order i bk) = pair_index bk"
  proof (cases "orders bk i")
    case (Some ord)
    have "remove_from_index (order_pair ord) (rate_key ord) i bk = bk"
      using nl by (intro remove_from_index_absent [OF wf_bookD(2) [OF wf]])
    moreover have "pair_index (remove_from_index p k i (count_dec p bk)) = pair_index (remove_from_index p k i bk)"
      for p k
      by (simp add: remove_from_index_def Let_def split: option.splits)
    ultimately show ?thesis
      using remove_order_index [OF Some] by simp
  qed (simp add: remove_order_def)
  then show ?thesis
    using not_live_pair_ids [OF wf nl] by (simp add: pair_ids_def levels_of_def)
qed

lemma park_pair_ids:
  assumes wf: "wf_book bk"
  shows "pair_ids (park i dex t bk) p = remove1 i (pair_ids bk p)"
proof (cases "parked bk i = None \<and> (\<exists>ord. orders bk i = Some ord \<and> is_active ord)")
  case True
  then obtain ord where ord: "parked bk i = None" "orders bk i = Some ord" "is_active ord" by blast
  then have "i \<in> live bk (order_pair ord)"
    by (simp add: live_def)
  from pair_ids_drop_live [OF wf this ord(2)] show ?thesis
    by (simp add: park_eq [OF ord] pair_ids_def levels_of_def)
next
  case False
  then have "i \<notin> live bk q" for q
    by (auto simp: live_def)
  with False show ?thesis
    by (simp add: park_noop not_live_pair_ids [OF wf])
qed

lemma abs_book_remove1:
  assumes wf: "wf_book bk" and wf': "wf_book bk'"
    and ids: "pair_ids bk' p = remove1 i (pair_ids bk p)"
    and os: "\<And>j. j \<noteq> i \<Longrightarrow> orders bk' j = orders bk j"
  shows "abs_book bk' p = filter (\<lambda>x. order_id x \<noteq> i) (abs_book bk p)"
proof -
  have D: "distinct (pair_ids bk p)" and L: "set (pair_ids bk p) = live bk p"
    using index_invD(2,5) [OF wf_bookD(2) [OF wf], of p] by simp_all
  have oid: "order_id (the (orders bk j)) = j" if "j \<in> set (pair_ids bk p)" for j
    using that L store_okD(4) [OF wf_bookD(1) [OF wf]] by (auto simp: live_def)
  have "filter (\<lambda>x. order_id x \<noteq> i) (abs_book bk p)
      = map (\<lambda>j. the (orders bk j)) (filter (\<lambda>j. j \<noteq> i) (pair_ids bk p))"
    using oid by (simp add: abs_book_eq [OF wf] filter_map comp_def cong: filter_cong)
  also have "\<dots> = map (\<lambda>j. the (orders bk' j)) (filter (\<lambda>j. j \<noteq> i) (pair_ids bk p))"
    by (rule map_cong) (auto simp: os)
  finally show ?thesis
    using D by (simp add: abs_book_eq [OF wf'] ids distinct_remove1_removeAll removeAll_filter_not_eq
        eq_commute [of i])
qed

lemma remove_order_orders [simp]: "orders (remove_order i bk) = (orders bk)(i := None)"
  by (auto simp: remove_order_def Let_def fun_upd_idem split: option.splits)

lemma park_orders [simp]: "orders (park i dex t bk) = orders bk"
  by (simp add: park_def Let_def split: option.splits)

section \<open>The list is in price-time priority\<close>

lemma levels_sorted:
  assumes "levels_ok R L" "\<And>j k. j \<in> set (level_ids L) \<Longrightarrow> R j k \<Longrightarrow> rate_valid k \<Longrightarrow> RateKey_eq (f j) k \<and> rate_valid (f j)"
  shows "sorted_wrt (\<lambda>i j. RateKey_le (f i) (f j)) (level_ids L)"
  using assms
proof (induction L)
  case (Cons e L)
  obtain k ids where e: "e = (k, ids)" by (cases e)
  have k: "rate_valid k"
    using levels_okD(1) [OF Cons.prems(1), of k ids] by (simp add: e)
  have own: "RateKey_eq (f j) k \<and> rate_valid (f j)" if "j \<in> set ids" for j
    using that k levels_okD(3) [OF Cons.prems(1), of k ids j] Cons.prems(2) [of j k]
    by (simp add: e level_ids_def)
  have "RateKey_le (f i) (f j)" if i: "i \<in> set ids" and j: "j \<in> set (level_ids L)" for i j
  proof -
    obtain k' ids' where m: "(k', ids') \<in> set L" "j \<in> set ids'"
      using j by (force simp: level_ids_def)
    have k': "\<not> RateKey_le k' k" "rate_valid k'"
      using levels_ok_head [OF Cons.prems(1) [unfolded e] m(1)] by simp_all
    have "RateKey_eq (f j) k'" "rate_valid (f j)"
      using levels_okD(3) [OF levels_ok_tail [OF Cons.prems(1)] m] Cons.prems(2) [of j k'] k' j
      by (simp_all add: e level_ids_def)
    then show ?thesis
      using own [OF i] k k' by (meson RateKey_eq_le rate_order.le_trans rate_order.not_le_imp_le)
  qed
  moreover have "sorted_wrt (\<lambda>i j. RateKey_le (f i) (f j)) ids"
  proof -
    have "RateKey_le (f i) (f j)" if "i \<in> set ids" "j \<in> set ids" for i j
      using own [OF that(1)] own [OF that(2)] k by (meson RateKey_eq_le rate_order.le_trans)
    then show ?thesis
      by (simp add: sorted_wrt_iff_nth_less)
  qed
  moreover have "sorted_wrt (\<lambda>i j. RateKey_le (f i) (f j)) (level_ids L)"
    using Cons.IH [OF levels_ok_tail [OF Cons.prems(1)]] Cons.prems(2)
    by (simp add: level_ids_def)
  ultimately show ?case
    by (simp add: e level_ids_def sorted_wrt_append)
qed (simp add: level_ids_def)

lemma abs_book_sorted:
  assumes "wf_book bk"
  shows "sorted_wrt (\<lambda>x y. RateKey_le (rate_key x) (rate_key y)) (abs_book bk p)"
proof -
  have "sorted_wrt (\<lambda>i j. RateKey_le (rate_key (the (orders bk i))) (rate_key (the (orders bk j))))
      (level_ids (levels_of bk p))"
    by (rule levels_sorted [OF index_invD(1) [OF wf_bookD(2) [OF assms]]]) (auto simp: keyed_def)
  then show ?thesis
    by (simp add: abs_book_eq [OF assms] sorted_wrt_map pair_ids_def)
qed

section \<open>The contract of a price-time book\<close>

text \<open>
  What the matcher and the router rely on: a view of each pair in rate order, an
  operation that takes one order out of every view, and the top of a view.
\<close>

locale price_time_book =
  fixes ok :: "'b \<Rightarrow> bool"
    and view :: "'b \<Rightarrow> Pair \<Rightarrow> Order list"
    and take_out :: "OrderId \<Rightarrow> 'b \<Rightarrow> 'b"
    and top :: "TokenId \<Rightarrow> TokenId \<Rightarrow> 'b \<Rightarrow> Order option"
  assumes take_ok: "ok b \<Longrightarrow> ok (take_out i b)"
    and take_view: "ok b \<Longrightarrow> view (take_out i b) p = filter (\<lambda>x. order_id x \<noteq> i) (view b p)"
    and view_sorted: "ok b \<Longrightarrow> sorted_wrt (\<lambda>x y. RateKey_le (rate_key x) (rate_key y)) (view b p)"
    and top_view: "ok b \<Longrightarrow> top s r b = (case view b (s, r) of [] \<Rightarrow> None | x # _ \<Rightarrow> Some x)"
begin

lemma fold_take_ok: "ok b \<Longrightarrow> ok (fold take_out ids b)"
  by (induction ids arbitrary: b) (auto intro: take_ok)

lemma fold_take_view:
  "ok b \<Longrightarrow> view (fold take_out ids b) p = filter (\<lambda>x. order_id x \<notin> set ids) (view b p)"
  by (induction ids arbitrary: b) (auto simp: take_ok take_view intro!: filter_cong)

lemma fold_take_order_irrelevant:
  assumes "ok b" "set ids = set ids'"
  shows "view (fold take_out ids b) p = view (fold take_out ids' b) p"
  using assms by (simp add: fold_take_view)

lemma top_least:
  assumes "ok b" "top s r b = Some x" "y \<in> set (view b (s, r))"
  shows "y = x \<or> RateKey_le (rate_key x) (rate_key y)"
  using assms view_sorted [OF assms(1), of "(s, r)"]
  by (auto simp: top_view split: list.splits)

lemma take_top_next:
  assumes "ok b" "top s r b = Some x" "distinct (map order_id (view b (s, r)))"
  shows "view (take_out (order_id x) b) (s, r) = tl (view b (s, r))"
proof -
  obtain xs where v: "view b (s, r) = x # xs"
    using assms(1,2) by (auto simp: top_view split: list.splits)
  then have "order_id x \<notin> order_id ` set xs"
    using assms(3) by simp
  then have "filter (\<lambda>y. order_id y \<noteq> order_id x) xs = xs"
    unfolding filter_id_conv by (metis image_eqI)
  then show ?thesis
    using assms(1) by (simp add: take_view v)
qed

end

lemma remove_order_view:
  "wf_book bk \<Longrightarrow> abs_book (remove_order i bk) p = filter (\<lambda>x. order_id x \<noteq> i) (abs_book bk p)"
  by (rule abs_book_remove1 [OF _ wf_book_remove_order])
    (simp_all add: remove_order_pair_ids)

lemma park_view:
  "wf_book bk \<Longrightarrow> abs_book (park i dex t bk) p = filter (\<lambda>x. order_id x \<noteq> i) (abs_book bk p)"
  by (rule abs_book_remove1 [OF _ wf_book_park])
    (simp_all add: park_pair_ids)

lemma best_order_view:
  assumes wf: "wf_book bk"
  shows "fst (best_order a b bk) = (case abs_book bk (a, b) of [] \<Rightarrow> None | x # _ \<Rightarrow> Some x)"
proof (cases "levels_of bk (a, b)")
  case Nil
  then show ?thesis
    by (simp add: best_order_wf [OF wf] abs_book_eq [OF wf] pair_ids_def level_ids_def)
next
  case (Cons e L)
  obtain k ids where e: "e = (k, ids)" by (cases e)
  have "ids \<noteq> []" "hd ids \<in> live bk (a, b)"
    using wf_book_levels_active(1,2) [OF wf, of k ids "(a, b)"] Cons e by simp_all
  then show ?thesis
    by (cases ids) (auto simp: best_order_wf [OF wf] abs_book_eq [OF wf] pair_ids_def level_ids_def
        Cons e live_def)
qed

interpretation removing: price_time_book wf_book abs_book remove_order "\<lambda>a b bk. fst (best_order a b bk)"
  by unfold_locales
    (simp_all add: wf_book_remove_order remove_order_view abs_book_sorted best_order_view)

interpretation parking: price_time_book wf_book abs_book "\<lambda>i. park i dex t"
    "\<lambda>a b bk. fst (best_order a b bk)" for dex t
  by unfold_locales
    (simp_all add: wf_book_park park_view abs_book_sorted best_order_view)

lemma abs_book_distinct:
  assumes "wf_book bk"
  shows "distinct (map order_id (abs_book bk p))"
  using index_invD(5) [OF wf_bookD(2) [OF assms]] by (simp add: abs_book_ids [OF assms])

section \<open>Every reachable book is well-formed\<close>

text \<open>
  The operations the solver performs on its book: orders come from the parser
  (nonzero amounts) and a match is applied to two orders that are not parked.
\<close>

inductive book_step :: "OrderBook \<Rightarrow> OrderBook \<Rightarrow> bool" where
  step_add: "off \<noteq> 0 \<Longrightarrow> req \<noteq> 0 \<Longrightarrow> card (dom (orders bk)) + 1 < 2 ^ 32
    \<Longrightarrow> book_step bk (add_user_order i a b off req bk)"
| step_remove: "book_step bk (remove_order i bk)"
| step_park: "book_step bk (park i dex t bk)"
| step_unpark: "book_step bk (snd (unpark i bk))"
| step_reactivate: "book_step bk (snd (reactivate_parked_older_than ttl t bk))"
| step_best: "book_step bk (snd (best_order a b bk))"
| step_match: "parked bk i = None \<Longrightarrow> parked bk j = None \<Longrightarrow> book_step bk (snd (apply_match i j bk))"
| step_credit: "book_step bk (add_protocol_balance t x bk)"
| step_debit: "book_step bk (deduct_protocol_balance t x bk)"

inductive_cases book_stepE: "book_step bk bk'"

lemma wf_book_add_protocol_balance: "wf_book bk \<Longrightarrow> wf_book (add_protocol_balance t x bk)"
  using wf_upto_add_protocol_balance [of "{}" bk] by (simp add: wf_upto_empty)

lemma wf_book_apply_match_any:
  assumes "wf_book bk" "parked bk i = None" "parked bk j = None"
  shows "wf_book (snd (apply_match i j bk))"
proof (cases "apply_match i j bk")
  case (Pair r bk')
  then show ?thesis
    using assms wf_book_apply_match [OF assms] apply_match_None [of i j bk bk']
    by (cases r) auto
qed

interpretation book_system: invariant_system "\<lambda>bk. \<exists>f. bk = OrderBook_new f" book_step wf_book
proof unfold_locales
  fix bk bk'
  show "wf_book bk" if "\<exists>f. bk = OrderBook_new f"
    using that wf_book_new by blast
  show "wf_book bk'" if "wf_book bk" "book_step bk bk'"
    using that(2,1)
    by (cases rule: book_step.cases)
      (simp_all add: wf_book_add_user_order wf_book_remove_order wf_book_park wf_book_unpark
        wf_book_reactivate wf_book_apply_match_any wf_book_add_protocol_balance
        wf_book_deduct_protocol_balance)
qed

section \<open>Properties of the order book\<close>

text \<open>A book with three resting orders on which the properties are applied.\<close>

definition sample_feed :: PriceFeed where
  "sample_feed = [1 \<mapsto> 100, 2 \<mapsto> 100, 3 \<mapsto> 100]"

definition sample_book1 :: OrderBook where
  "sample_book1 = add_user_order 1 1 2 100 190 (OrderBook_new sample_feed)"

definition sample_book2 :: OrderBook where
  "sample_book2 = add_user_order 2 2 1 200 100 sample_book1"

definition sample_book :: OrderBook where
  "sample_book = add_user_order 3 1 2 100 150 sample_book2"

lemma add_user_order_orders:
  "orders (add_user_order i a b off req bk) =
     (if orders bk i \<noteq> None \<and> parked bk i = None then orders bk
      else (orders bk)(i \<mapsto> \<lparr>order_id = i, offered_token = a, requested_token = b,
              offered = off, requested = req, requested_remaining = req\<rparr>))"
  by (simp add: add_user_order_def Let_def)

lemma dom_orders_add [simp]:
  "dom (orders (add_user_order i a b off req bk)) = insert i (dom (orders bk))"
  by (auto simp: add_user_order_orders)

lemma dom_orders_new [simp]: "dom (orders (OrderBook_new f)) = {}"
  by (simp add: OrderBook_new_def)

lemma sample_books_wf:
  "wf_book sample_book1" "wf_book sample_book2" "wf_book sample_book"
  "card (dom (orders sample_book)) + 1 < 2 ^ 32"
proof -
  show 1: "wf_book sample_book1"
    unfolding sample_book1_def by (rule wf_book_add_user_order [OF wf_book_new]) simp_all
  show 2: "wf_book sample_book2"
    unfolding sample_book2_def
    by (rule wf_book_add_user_order [OF 1]) (simp_all add: sample_book1_def)
  show 3: "wf_book sample_book"
    unfolding sample_book_def
    by (rule wf_book_add_user_order [OF 2]) (simp_all add: sample_book1_def sample_book2_def)
  show "card (dom (orders sample_book)) + 1 < 2 ^ 32"
    by (simp add: sample_book1_def sample_book2_def sample_book_def)
qed

lemma sample_view: "map order_id (abs_book sample_book (1, 2)) = [3, 1]"
  by code_simp



text \<open>
  C36: adding an order refines insertion in price-time priority: the order goes
  behind every resting order of its pair with the same or a better rate and in
  front of the worse ones, and every other pair is unchanged. Adding an id that
  is already live changes nothing.
\<close>

theorem add_user_order_refines:
  assumes "wf_book bk" "off \<noteq> 0" "req \<noteq> 0" "card (dom (orders bk)) + 1 < 2 ^ 32"
  shows "abs_book (add_user_order i a b off req bk) p =
    (if (orders bk i \<noteq> None \<and> parked bk i = None) \<or> p \<noteq> (a, b) then abs_book bk p
     else insort_rate \<lparr>order_id = i, offered_token = a, requested_token = b,
            offered = off, requested = req, requested_remaining = req\<rparr> (abs_book bk p))"
proof (cases "orders bk i \<noteq> None \<and> parked bk i = None")
  case True
  then show ?thesis
    by (simp add: add_user_order_def)
next
  case False
  define ord where "ord = \<lparr>order_id = i, offered_token = a, requested_token = b,
    offered = off, requested = req, requested_remaining = req\<rparr>"
  define bk1 where "bk1 = bk\<lparr>parked := (parked bk)(i := None), orders := (orders bk)(i \<mapsto> ord)\<rparr>"
  have notin: "i \<notin> live bk q" for q
    using False by (auto simp: live_def)
  have inv1: "index_inv bk1 (live bk)"
    by (rule index_inv_frame [OF wf_bookD(2) [OF assms(1)]]) (auto simp: bk1_def keyed_def notin)
  have ids: "pair_ids bk1 q = pair_ids bk q" for q
    by (simp add: pair_ids_def levels_of_def bk1_def)
  have same: "map (\<lambda>j. the (orders bk1 j)) (pair_ids bk1 q) = abs_book bk q" for q
    unfolding abs_book_eq [OF assms(1)] ids
    by (rule map_cong)
      (use notin [of q] index_invD(2) [OF wf_bookD(2) [OF assms(1)], of q] in \<open>auto simp: bk1_def\<close>)
  have "abs_book (add_user_order i a b off req bk) p = (if p = (a, b)
      then insort_rate ord (map (\<lambda>j. the (orders bk1 j)) (pair_ids bk1 p))
      else map (\<lambda>j. the (orders bk1 j)) (pair_ids bk1 p))"
    using False assms(2)
    by (intro abs_book_insert [OF wf_book_add_user_order [OF assms] inv1, of i])
      (auto simp: bk1_def ord_def add_user_order_def Let_def)
  then show ?thesis
    unfolding same using False by (auto simp: ord_def)
qed

theorem add_user_order_refines_witness:
  "map order_id (abs_book (add_user_order 4 1 2 100 150 sample_book) (1, 2)) = [3, 4, 1]
   \<and> map order_id (abs_book sample_book (1, 2)) = [3, 1]"
proof -
  have *: "abs_book (add_user_order 4 1 2 100 150 sample_book) (1, 2)
    = insort_rate \<lparr>order_id = 4, offered_token = 1, requested_token = 2,
        offered = 100, requested = 150, requested_remaining = 150\<rparr> (abs_book sample_book (1, 2))"
    using add_user_order_refines [OF sample_books_wf(3) _ _ sample_books_wf(4), of 100 150 4 1 2 "(1, 2)"]
    by (simp add: sample_book_def sample_book2_def sample_book1_def add_user_order_orders OrderBook_new_def)
  have "map order_id (abs_book sample_book (1, 2)) = [3, 1]"
    "map order_id (insort_rate \<lparr>order_id = 4, offered_token = 1, requested_token = 2,
        offered = 100, requested = 150, requested_remaining = 150\<rparr> (abs_book sample_book (1, 2)))
      = [3, 4, 1]"
    by code_simp+
  with * show ?thesis
    by simp
qed

text \<open>
  C37: cancelling and parking take exactly one order out of the matchable book:
  every pair keeps its other orders in the same priority. A parked order stays
  in the store with its fill state; a cancelled one is gone from it.
\<close>

theorem take_out_refines:
  assumes "wf_book bk"
  shows "abs_book (remove_order i bk) p = filter (\<lambda>x. order_id x \<noteq> i) (abs_book bk p)
    \<and> abs_book (park i dex t bk) p = filter (\<lambda>x. order_id x \<noteq> i) (abs_book bk p)
    \<and> orders (remove_order i bk) i = None
    \<and> orders (park i dex t bk) = orders bk
    \<and> (is_parked (park i dex t bk) i \<longleftrightarrow> is_parked bk i \<or> (\<exists>q. i \<in> order_id ` set (abs_book bk q)))"
proof -
  have "(\<exists>q. i \<in> order_id ` set (abs_book bk q)) \<longleftrightarrow> (\<exists>q. i \<in> live bk q)"
    using index_invD(2) [OF wf_bookD(2) [OF assms]] abs_book_ids [OF assms] by (metis set_map)
  also have "\<dots> \<longleftrightarrow> parked bk i = None \<and> (\<exists>ord. orders bk i = Some ord \<and> is_active ord)"
    by (auto simp: live_def)
  finally have "is_parked (park i dex t bk) i
      \<longleftrightarrow> is_parked bk i \<or> (\<exists>q. i \<in> order_id ` set (abs_book bk q))"
    by (auto simp: is_parked_def park_def Let_def split: option.splits)
  then show ?thesis
    using assms remove_order_view park_view by simp
qed

theorem take_out_refines_witness:
  "map order_id (abs_book (park 3 7 1000 sample_book) (1, 2)) = [1]
   \<and> is_parked (park 3 7 1000 sample_book) 3"
proof -
  have 1: "map order_id (filter (\<lambda>x. order_id x \<noteq> 3) (abs_book sample_book (1, 2))) = [1]"
    by code_simp
  have "3 \<in> set (map order_id (abs_book sample_book (1, 2)))"
    by code_simp
  with take_out_refines [OF sample_books_wf(3), of 3 "(1, 2)" 7 1000] 1 show ?thesis
    by (metis set_map)
qed

text \<open>
  Rolling a park back returns the note to matching: it is no longer parked,
  its exchange is reported, it rejoins its pair behind every order of the same
  or a better rate with its fill state untouched, and no other pair changes.
\<close>

theorem unpark_refines:
  assumes "wf_book bk" "parked bk i = Some (dex, t)" "orders bk i = Some ord"
  shows "fst (unpark i bk) = Some dex
    \<and> \<not> is_parked (snd (unpark i bk)) i
    \<and> orders (snd (unpark i bk)) = orders bk
    \<and> abs_book (snd (unpark i bk)) p
        = (if p = order_pair ord then insort_rate ord (abs_book bk p) else abs_book bk p)"
proof -
  note S = wf_bookD(1) [OF assms(1)] and inv = wf_bookD(2) [OF assms(1)]
  have act: "is_active ord"
    using store_okD(9) [OF S assms(2)] assms(3) by simp
  have off: "offered ord \<noteq> 0"
    using store_okD(5) [OF S assms(3)] by (simp add: wf_order_def)
  define bk1 where "bk1 = bk\<lparr>parked := (parked bk)(i := None)\<rparr>"
  have inv1: "index_inv bk1 (live bk)"
    by (rule index_inv_frame [OF inv]) (simp_all add: bk1_def)
  have same: "map (\<lambda>j. the (orders bk1 j)) (pair_ids bk1 q) = abs_book bk q" for q
    by (simp add: abs_book_eq [OF assms(1)] bk1_def pair_ids_def levels_of_def)
  have "abs_book (snd (unpark i bk)) p = (if p = order_pair ord
      then insort_rate ord (map (\<lambda>j. the (orders bk1 j)) (pair_ids bk1 p))
      else map (\<lambda>j. the (orders bk1 j)) (pair_ids bk1 p))"
    unfolding order_pair_def using assms(3) off
    by (intro abs_book_insert [OF wf_book_unpark [OF assms(1)] inv1, of i])
      (simp_all add: bk1_def unpark_eq [OF assms(2,3) act])
  then show ?thesis
    unfolding same using assms(2) by (simp add: is_parked_def)
qed

theorem unpark_refines_witness:
  "fst (unpark 3 (park 3 7 1000 sample_book)) = Some 7
   \<and> map order_id (abs_book (snd (unpark 3 (park 3 7 1000 sample_book))) (1, 2)) = [3, 1]"
proof -
  let ?ord = "\<lparr>order_id = 3, offered_token = 1, requested_token = 2,
      offered = 100, requested = 150, requested_remaining = 150\<rparr>"
  have "parked (park 3 7 1000 sample_book) 3 = Some (7, 1000)"
    "orders (park 3 7 1000 sample_book) 3 = Some ?ord"
    by code_simp+
  from unpark_refines [OF wf_book_park [OF sample_books_wf(3)] this, of "(1, 2)"]
  have "fst (unpark 3 (park 3 7 1000 sample_book)) = Some 7"
    "abs_book (snd (unpark 3 (park 3 7 1000 sample_book))) (1, 2)
      = insort_rate ?ord (abs_book (park 3 7 1000 sample_book) (1, 2))"
    by (simp_all add: order_pair_def)
  moreover have "map order_id (insort_rate ?ord (abs_book (park 3 7 1000 sample_book) (1, 2))) = [3, 1]"
    by code_simp
  ultimately show ?thesis
    by simp
qed

text \<open>
  \<open>best_order\<close> returns the head of the pair's priority list and leaves the
  book alone: it finds an order exactly when a live one exists, and no live
  order of the pair has a better rate than the one returned.
\<close>

theorem best_order_priority:
  assumes "wf_book bk"
  shows "best_order a b bk
      = (case abs_book bk (a, b) of [] \<Rightarrow> None | x # _ \<Rightarrow> Some x, bk)
    \<and> sorted_wrt (\<lambda>x y. RateKey_le (rate_key x) (rate_key y)) (abs_book bk (a, b))
    \<and> order_id ` set (abs_book bk (a, b)) = live bk (a, b)"
proof -
  have "order_id ` set (abs_book bk (a, b)) = live bk (a, b)"
    using index_invD(2) [OF wf_bookD(2) [OF assms]] abs_book_ids [OF assms] by (metis set_map)
  then show ?thesis
    using best_order_view [OF assms, of a b] best_order_book [OF assms, of a b]
      abs_book_sorted [OF assms] by (simp add: prod_eq_iff)
qed

theorem best_order_priority_witness:
  "map_option order_id (fst (best_order 1 2 sample_book)) = Some 3
   \<and> snd (best_order 1 2 sample_book) = sample_book"
proof -
  have "map_option order_id (fst (best_order 1 2 sample_book)) = Some 3"
    by code_simp
  then show ?thesis
    using best_order_priority [OF sample_books_wf(3), of 1 2] by simp
qed

section \<open>Counters\<close>

lemma unat_sum_no_wrap:
  fixes f :: "'x \<Rightarrow> 'a::len word"
  assumes "finite A" "(\<Sum>x\<in>A. unat (f x)) < 2 ^ LENGTH('a)"
  shows "unat (\<Sum>x\<in>A. f x) = (\<Sum>x\<in>A. unat (f x))"
  using assms
proof (induction A)
  case (insert x A)
  then have "unat (\<Sum>x\<in>A. f x) = (\<Sum>x\<in>A. unat (f x))"
    by simp
  with insert show ?case
    by (simp add: unat_add_no_wrap)
qed simp

lemma has_orders_count: "has_orders a b bk \<longleftrightarrow> 0 < unat (count_of bk (a, b))"
  by (auto simp: has_orders_def count_of_def unwrap_or_default_def word_gt_0 split: option.splits)

lemma live_disjoint: "p \<noteq> q \<Longrightarrow> live bk p \<inter> live bk q = {}"
  by (auto simp: live_def)

lemma sum_count_live:
  assumes "wf_book bk"
  shows "(\<Sum>p \<in> dom (active_pair_count bk). unat (the (active_pair_count bk p)))
    = card {i. \<exists>p. i \<in> live bk p}"
proof -
  note D = index_invD [OF wf_bookD(2) [OF assms]]
  have "unat (the (active_pair_count bk p)) = card (live bk p)" if "p \<in> dom (active_pair_count bk)" for p
    using D(9) [of p] that by (auto simp: count_of_def unwrap_or_default_def)
  moreover have empty: "live bk p = {}" if "p \<notin> dom (active_pair_count bk)" for p
    using D(7,9) [of p] that by (auto simp: count_of_def unwrap_or_default_def domIff)
  moreover have "{i. \<exists>p. i \<in> live bk p} = (\<Union>p \<in> dom (active_pair_count bk). live bk p)"
    using empty by blast
  moreover have "card (\<Union>p \<in> dom (active_pair_count bk). live bk p)
      = (\<Sum>p \<in> dom (active_pair_count bk). card (live bk p))"
    using D(7,8) live_disjoint by (intro card_UN_disjoint) auto
  ultimately show ?thesis
    by simp
qed

text \<open>
  The constant-time counters are exact. \<open>has_orders\<close> holds precisely when
  the pair has a live order, and \<open>active_order_count\<close> is the number of live
  orders of the whole book, without wrap-around.
\<close>

theorem counters_exact:
  assumes "wf_book bk"
  shows "(has_orders a b bk \<longleftrightarrow> live bk (a, b) \<noteq> {})
    \<and> unat (active_order_count bk) = card {i. \<exists>p. i \<in> live bk p}"
proof -
  note D = index_invD [OF wf_bookD(2) [OF assms]] and S = wf_bookD(1) [OF assms]
  have "card {i. \<exists>p. i \<in> live bk p} \<le> card (dom (orders bk))"
    by (rule card_mono [OF store_okD(1) [OF S]]) (auto simp: live_def)
  then have "(\<Sum>p \<in> dom (active_pair_count bk). unat (the (active_pair_count bk p))) < 2 ^ 32"
    using store_okD(2) [OF S] by (simp add: sum_count_live [OF assms])
  then have "unat (active_order_count bk) = card {i. \<exists>p. i \<in> live bk p}"
    unfolding active_order_count_def
    by (subst unat_sum_no_wrap) (simp_all add: D(8) sum_count_live [OF assms])
  moreover have "has_orders a b bk \<longleftrightarrow> live bk (a, b) \<noteq> {}"
    unfolding has_orders_count D(9) using D(7) [of "(a, b)"] by (simp add: card_gt_0_iff)
  ultimately show ?thesis
    by blast
qed

theorem counters_exact_witness:
  "has_orders 1 2 sample_book \<and> live sample_book (1, 2) \<noteq> {}
   \<and> \<not> has_orders 2 3 sample_book \<and> live sample_book (2, 3) = {}"
proof -
  have "has_orders 1 2 sample_book" "\<not> has_orders 2 3 sample_book"
    by code_simp+
  then show ?thesis
    using counters_exact [OF sample_books_wf(3)] by blast
qed

section \<open>Reactivation\<close>

lemma saturating_add_mono: "x \<le> y \<Longrightarrow> saturating_add x t \<le> saturating_add y t"
  by (simp add: word_le_nat_alt unat_saturating_add)

lemma sorted_takeWhile_expired:
  assumes "sorted_wrt (\<lambda>e e'. fst e \<le> fst e') q"
  shows "set (takeWhile (expired ttl time) q) = {e \<in> set q. expired ttl time e}"
  using assms
proof (induction q)
  case (Cons e q)
  have "\<not> expired ttl time e'" if "\<not> expired ttl time e" "e' \<in> set q" for e'
    using that Cons.prems saturating_add_mono [of "fst e" "fst e'" ttl]
    by (auto simp: expired_def)
  with Cons show ?case
    by auto
qed simp

text \<open>
  Reactivation returns exactly the expired notes. When the queue is in time
  order and no queue entry is older than the park it belongs to, the notes whose
  park time plus TTL has passed are unparked and reported with their exchange,
  each once; every other park is kept, and the book stays well-formed.
\<close>

theorem reactivate_exact:
  assumes "wf_book bk"
    and "sorted_wrt (\<lambda>e e'. fst e \<le> fst e') (park_queue bk)"
    and "\<forall>(t, i) \<in> set (park_queue bk). \<forall>d t'. parked bk i = Some (d, t') \<longrightarrow> t' = t"
    and "reactivate_parked_older_than ttl time bk = (rs, bk')"
  shows "wf_book bk' \<and> distinct (map fst rs)
    \<and> (\<forall>i d. (i, d) \<in> set rs \<longleftrightarrow>
          (\<exists>t. parked bk i = Some (d, t) \<and> saturating_add t ttl \<le> time))
    \<and> (\<forall>i d t. parked bk' i = Some (d, t) \<longleftrightarrow>
          parked bk i = Some (d, t) \<and> \<not> saturating_add t ttl \<le> time)"
proof -
  let ?q = "park_queue bk"
  have loop: "reactivate_loop ttl time ?q bk = (rs, bk')"
    using assms(4) by (simp add: reactivate_parked_older_than_def)
  have pop: "i \<in> set (popped ttl time ?q) \<longleftrightarrow> (\<exists>t. (t, i) \<in> set ?q \<and> saturating_add t ttl \<le> time)" for i
    using sorted_takeWhile_expired [OF assms(2), of ttl time]
    by (force simp: popped_def expired_def)
  have mem: "parked bk i = Some (d, t) \<Longrightarrow> (t, i) \<in> set ?q" for i d t
    using store_okD(8) [OF wf_bookD(1) [OF assms(1)]] .
  have iff: "i \<in> set (popped ttl time ?q) \<longleftrightarrow> saturating_add t ttl \<le> time"
    if "parked bk i = Some (d, t)" for i d t
  proof -
    have "t' = t" if "(t', i) \<in> set ?q" for t'
      using bspec [OF assms(3) that] \<open>parked bk i = Some (d, t)\<close> by simp
    with mem [OF that] show ?thesis
      unfolding pop by blast
  qed
  have "(i, d) \<in> set rs \<longleftrightarrow> (\<exists>t. parked bk i = Some (d, t) \<and> saturating_add t ttl \<le> time)" for i d
    using reactivate_loop_result [of i d ttl time ?q bk] iff by (force simp: loop)
  moreover have "parked bk' i = Some (d, t) \<longleftrightarrow>
      parked bk i = Some (d, t) \<and> \<not> saturating_add t ttl \<le> time" for i d t
    using reactivate_loop_parked [of ttl time ?q bk i] iff by (auto simp: loop)
  ultimately show ?thesis
    using wf_book_reactivate [OF assms(1), of ttl time] reactivate_loop_distinct [of ttl time ?q bk]
    by (simp add: loop assms(4))
qed

text \<open>
  A rolled-back park leaves its queue entry behind. When the same note is parked
  again later, the old entry unparks it as soon as the old park would have
  expired: here the note parked at time 1050 with a TTL of 100 is back in the
  matchable book at time 1100.
\<close>

lemma stale_queue_entry_reactivates_early:
  "let bk = park 3 8 1050 (snd (unpark 3 (park 3 7 1000 sample_book)));
       (rs, bk') = reactivate_parked_older_than 100 1100 bk
   in parked bk 3 = Some (8, 1050) \<and> rs = [(3, 8)] \<and> parked bk' 3 = None
      \<and> (1050 :: u64) + 100 > 1100"
  by code_simp

theorem reactivate_exact_witness:
  "fst (reactivate_parked_older_than 100 1100 (park 1 8 1050 (park 3 7 1000 sample_book))) = [(3, 7)]
   \<and> wf_book (snd (reactivate_parked_older_than 100 1100 (park 1 8 1050 (park 3 7 1000 sample_book))))"
proof -
  let ?bk = "park 1 8 1050 (park 3 7 1000 sample_book)"
  have wf: "wf_book ?bk"
    by (intro wf_book_park sample_books_wf)
  have q: "park_queue ?bk = [(1000, 3), (1050, 1)]"
    and p: "parked ?bk 3 = Some (7, 1000)" "parked ?bk 1 = Some (8, 1050)"
    by code_simp+
  have r: "fst (reactivate_parked_older_than 100 1100 ?bk) = [(3, 7)]"
    by code_simp
  obtain bk' where bk': "reactivate_parked_older_than 100 1100 ?bk = ([(3, 7)], bk')"
    using r by (metis prod.collapse)
  have "sorted_wrt (\<lambda>e e'. fst e \<le> fst e') (park_queue ?bk)"
    by (simp add: q del: One_nat_def)
  moreover have "\<forall>(t, i) \<in> set (park_queue ?bk). \<forall>d t'. parked ?bk i = Some (d, t') \<longrightarrow> t' = t"
    by (simp add: q p del: One_nat_def)
  ultimately have "wf_book bk'"
    using reactivate_exact [OF wf _ _ bk'] by blast
  with r bk' show ?thesis
    by (simp del: One_nat_def)
qed

section \<open>Top of book snapshot\<close>

lemma level_volume_live:
  assumes "\<forall>i \<in> set ids. \<exists>ord. os i = Some ord \<and> is_active ord"
  shows "fst (level_volume os ids any vol) \<longleftrightarrow> any \<or> ids \<noteq> []"
    and "unat (snd (level_volume os ids any vol))
      = min (unat vol + (\<Sum>i\<leftarrow>ids. unat (offered_remaining (the (os i))))) (2 ^ 64 - 1)"
  using assms
proof (induction ids arbitrary: any vol)
  case Nil
  {
    case 1
    then show ?case by simp
  next
    case 2
    then show ?case using unat_u64_lt [of vol] by simp
  }
next
  case (Cons i ids)
  {
    case 1
    with Cons.IH(1) show ?case by auto
  next
    case 2
    with Cons.IH(2) show ?case by (auto simp: unat_saturating_add)
  }
qed

lemma level_ids_same_rate:
  assumes "levels_ok R ((k, ids) # L)"
    and "\<And>j k'. j \<in> set (level_ids ((k, ids) # L)) \<Longrightarrow> R j k' \<Longrightarrow> rate_valid k'
      \<Longrightarrow> RateKey_eq (f j) k' \<and> rate_valid (f j)"
  shows "filter (\<lambda>j. RateKey_eq (f j) k) (level_ids ((k, ids) # L)) = ids"
proof -
  have k: "rate_valid k" and own: "\<And>j. j \<in> set ids \<Longrightarrow> R j k"
    using levels_okD [OF assms(1), of k ids] by simp_all
  have "RateKey_eq (f j) k" if "j \<in> set ids" for j
    using assms(2) [of j k] own [OF that] k that by (simp add: level_ids_def)
  moreover have "\<not> RateKey_eq (f j) k" if j: "j \<in> set (level_ids L)" for j
  proof -
    obtain k' ids' where m: "(k', ids') \<in> set L" "j \<in> set ids'"
      using j by (force simp: level_ids_def)
    have k': "\<not> RateKey_le k' k" "rate_valid k'"
      using levels_ok_head [OF assms(1) m(1)] by simp_all
    have "RateKey_eq (f j) k'" "rate_valid (f j)"
      using assms(2) [of j k'] levels_okD(3) [OF levels_ok_tail [OF assms(1)] m] k' j
      by (simp_all add: level_ids_def)
    with k k' show ?thesis
      by (meson RateKey_eq_le rate_order.le_trans)
  qed
  ultimately show ?thesis
    by (simp add: level_ids_def filter_empty_conv filter_id_conv)
qed

text \<open>
  The published top of book is exact. A pair has a level precisely when it
  has a live order; the level's rate is that of the best order, and its volume
  is the sum of what the live orders at that rate can still release, saturated
  at the 64-bit maximum.
\<close>

theorem best_level_exact:
  assumes "wf_book bk"
  shows "case abs_book bk (a, b) of
      [] \<Rightarrow> best_level a b bk = None
    | x # _ \<Rightarrow> (\<exists>k v. best_level a b bk = Some (k, v) \<and> RateKey_eq (rate_key x) k
        \<and> unat v = min (\<Sum>y \<leftarrow> filter (\<lambda>y. RateKey_eq (rate_key y) k) (abs_book bk (a, b)).
                          unat (offered_remaining y)) (2 ^ 64 - 1))"
proof (cases "levels_of bk (a, b)")
  case Nil
  then have "pair_index bk (a, b) = None"
    using index_invD(4) [OF wf_bookD(2) [OF assms], of "(a, b)"]
    by (auto simp: levels_of_def unwrap_or_default_def split: option.splits)
  with Nil show ?thesis
    by (simp add: best_level_def abs_book_eq [OF assms] pair_ids_def level_ids_def)
next
  case (Cons e L)
  obtain k ids where e: "e = (k, ids)" by (cases e)
  define f where "f = (\<lambda>i. rate_key (the (orders bk i)))"
  have idx: "pair_index bk (a, b) = Some ((k, ids) # L)"
    using Cons e by (auto simp: levels_of_def unwrap_or_default_def split: option.splits)
  have ok: "levels_ok (keyed (orders bk)) ((k, ids) # L)"
    using index_invD(1) [OF wf_bookD(2) [OF assms], of "(a, b)"] Cons e by simp
  have same: "filter (\<lambda>j. RateKey_eq (f j) k) (level_ids ((k, ids) # L)) = ids"
    by (rule level_ids_same_rate [OF ok]) (auto simp: keyed_def f_def)
  have ids: "ids \<noteq> []" "\<forall>i \<in> set ids. \<exists>ord. orders bk i = Some ord \<and> is_active ord"
    using wf_book_levels_active [OF assms, of k ids "(a, b)"] Cons e by (auto simp: live_def)
  have abs: "abs_book bk (a, b) = map (\<lambda>i. the (orders bk i)) (level_ids ((k, ids) # L))"
    by (simp add: abs_book_eq [OF assms] pair_ids_def Cons e)
  obtain v where v: "level_volume (orders bk) ids False 0 = (True, v)"
    using level_volume_live(1) [OF ids(2), of False 0] ids(1) by (cases "level_volume (orders bk) ids False 0") auto
  have vol: "unat v = min (\<Sum>i\<leftarrow>ids. unat (offered_remaining (the (orders bk i)))) (2 ^ 64 - 1)"
    using level_volume_live(2) [OF ids(2), of False 0] v by simp
  have flt: "filter (\<lambda>y. RateKey_eq (rate_key y) k) (abs_book bk (a, b)) = map (\<lambda>i. the (orders bk i)) ids"
    using same by (simp add: abs filter_map comp_def f_def)
  have key: "RateKey_eq (rate_key (the (orders bk (hd ids)))) k"
  proof -
    have "hd ids \<in> set (filter (\<lambda>j. RateKey_eq (f j) k) (level_ids ((k, ids) # L)))"
      unfolding same using ids(1) by simp
    then show ?thesis
      by (simp add: f_def)
  qed
  have hd: "hd (abs_book bk (a, b)) = the (orders bk (hd ids))" "abs_book bk (a, b) \<noteq> []"
    using ids(1) by (simp_all add: abs level_ids_def hd_append hd_map)
  have lv: "best_level a b bk = Some (k, v)"
    using v by (simp add: best_level_def idx)
  have "unat v = min (\<Sum>y \<leftarrow> filter (\<lambda>y. RateKey_eq (rate_key y) k) (abs_book bk (a, b)).
      unat (offered_remaining y)) (2 ^ 64 - 1)"
    unfolding flt using vol by (simp add: comp_def)
  moreover obtain xs where "abs_book bk (a, b) = the (orders bk (hd ids)) # xs"
    using hd by (cases "abs_book bk (a, b)") auto
  ultimately show ?thesis
    using lv key by simp
qed

theorem best_level_exact_witness:
  "\<exists>k v. best_level 1 2 sample_book = Some (k, v) \<and> unat v = 100"
proof -
  obtain x xs where x: "abs_book sample_book (1, 2) = x # xs"
    using sample_view by (cases "abs_book sample_book (1, 2)") auto
  have "best_level 1 2 sample_book = Some (\<lparr>rk_requested = 150, rk_offered = 100\<rparr>, 100)"
    by code_simp
  then show ?thesis
    using best_level_exact [OF sample_books_wf(3), of 1 2] unfolding x by auto
qed

end
