(* ===== verification/Settlement_Flow.thy ===== *)
theory Settlement_Flow
  imports Order_Book_Props
begin

text \<open>
  The settlement of a book. When the filled notes of a book are executed on
  chain, each order releases what its accumulated fill is worth and takes in the
  fill itself; \<open>net_flow\<close> is the sum of these movements per token, the number
  the executor recomputes before it submits a batch. A book is \<open>solvent\<close> when no
  token's flow is below the balance the matcher booked for the protocol.
\<close>

definition contribution :: "Order \<Rightarrow> TokenId \<Rightarrow> int" where
  "contribution ord t =
     (if offered_token ord = t then int (unat (offered_for ord (requested_filled ord))) else 0)
   - (if requested_token ord = t then int (unat (requested_filled ord)) else 0)"

definition net_flow :: "OrderBook \<Rightarrow> TokenId \<Rightarrow> int" where
  "net_flow bk t = (\<Sum>i \<in> dom (orders bk). contribution (the (orders bk i)) t)"

definition balance_of :: "OrderBook \<Rightarrow> TokenId \<Rightarrow> Amount" where
  "balance_of bk t = unwrap_or_default 0 (protocol_balances bk t)"

definition solvent :: "OrderBook \<Rightarrow> bool" where
  "solvent bk \<longleftrightarrow> (\<forall>t. int (unat (balance_of bk t)) \<le> net_flow bk t)"

text \<open>A fresh book: no order has been filled and no surplus is booked.\<close>

definition fresh_book :: "OrderBook \<Rightarrow> bool" where
  "fresh_book bk \<longleftrightarrow> (\<forall>i ord. orders bk i = Some ord \<longrightarrow> requested_remaining ord = requested ord)
     \<and> (\<forall>t. balance_of bk t = 0)"

definition total_remaining :: "OrderBook \<Rightarrow> nat" where
  "total_remaining bk = (\<Sum>i \<in> dom (orders bk). unat (requested_remaining (the (orders bk i))))"

section \<open>One fill\<close>

lemma contribution_fill:
  assumes wf: "wf_order ord" and x: "x \<le> requested_remaining ord"
  shows "contribution ord t
      + (if offered_token ord = t then int (unat (offered_for ord x)) else 0)
      - (if requested_token ord = t then int (unat x) else 0)
    \<le> contribution (ord\<lparr>requested_remaining := requested_remaining ord - x\<rparr>) t"
proof -
  let ?o = "ord\<lparr>requested_remaining := requested_remaining ord - x\<rparr>"
  have f: "requested_filled ?o = requested_filled ord + x"
    by (simp add: requested_filled_def)
  have le: "unat (requested_filled ord) + unat x \<le> unat (requested ord)"
    using assms by (simp add: requested_filled_nat) (simp add: word_le_nat_alt wf_order_def)
  have "unat (requested_filled ord + x) = unat (requested_filled ord) + unat x"
    using le unat_u64_lt [of "requested ord"] by (intro unat_add_no_wrap) simp
  moreover have "unat (offered_for ord (requested_filled ord)) + unat (offered_for ord x)
      \<le> unat (offered_for ord (requested_filled ord + x))"
    by (rule offered_for_superadd [OF le])
  ultimately show ?thesis
    by (simp add: contribution_def f)
qed

lemma sum_dom_upd:
  assumes "finite (dom m)" "m i = Some x"
  shows "(\<Sum>j \<in> dom (m(i \<mapsto> y)). g (the ((m(i \<mapsto> y)) j))) + g x
    = (\<Sum>j \<in> dom m. g (the (m j))) + (g y :: 'b::ab_group_add)"
proof -
  have d: "dom (m(i \<mapsto> y)) = insert i (dom m - {i})"
    using assms(2) by auto
  have "(\<Sum>j \<in> dom (m(i \<mapsto> y)). g (the ((m(i \<mapsto> y)) j)))
      = g y + (\<Sum>j \<in> dom m - {i}. g (the ((m(i \<mapsto> y)) j)))"
    unfolding d using assms(1) by (subst sum.insert) simp_all
  moreover have "(\<Sum>j \<in> dom m. g (the (m j))) = g x + (\<Sum>j \<in> dom m - {i}. g (the (m j)))"
    using assms by (subst sum.remove [of _ i]) auto
  moreover have "(\<Sum>j \<in> dom m - {i}. g (the ((m(i \<mapsto> y)) j))) = (\<Sum>j \<in> dom m - {i}. g (the (m j)))"
    by (rule sum.cong) auto
  ultimately show ?thesis
    by (simp only: ac_simps)
qed

lemma net_flow_upd:
  assumes "finite (dom (orders bk))" "orders bk i = Some ord"
  shows "net_flow (bk\<lparr>orders := (orders bk)(i \<mapsto> ord')\<rparr>) t
    = net_flow bk t - contribution ord t + contribution ord' t"
  using sum_dom_upd [OF assms, of "\<lambda>x. contribution x t" ord'] by (simp add: net_flow_def)

lemma net_flow_fill:
  assumes "finite (dom (orders bk))" "orders bk i = Some ord" "wf_order ord" "x \<le> requested_remaining ord"
  shows "net_flow bk t
      + (if offered_token ord = t then int (unat (offered_for ord x)) else 0)
      - (if requested_token ord = t then int (unat x) else 0)
    \<le> net_flow (bk\<lparr>orders := (orders bk)(i \<mapsto> ord\<lparr>requested_remaining := requested_remaining ord - x\<rparr>)\<rparr>) t"
  using contribution_fill [OF assms(3,4), of t] unfolding net_flow_upd [OF assms(1,2)] by linarith

lemma total_remaining_upd:
  assumes "finite (dom (orders bk))" "orders bk i = Some ord"
    and "x \<le> requested_remaining ord" "x \<noteq> 0"
  shows "total_remaining (bk\<lparr>orders := (orders bk)(i \<mapsto> ord\<lparr>requested_remaining := requested_remaining ord - x\<rparr>)\<rparr>)
    < total_remaining bk"
proof -
  let ?o = "ord\<lparr>requested_remaining := requested_remaining ord - x\<rparr>"
  have "unat (requested_remaining ?o) < unat (requested_remaining ord)"
    using word_less_sub_nonzero [OF assms(3,4)] by (simp add: word_less_nat_alt)
  moreover have "int (total_remaining (bk\<lparr>orders := (orders bk)(i \<mapsto> ?o)\<rparr>)) + int (unat (requested_remaining ord))
      = int (total_remaining bk) + int (unat (requested_remaining ?o))"
    using sum_dom_upd [OF assms(1,2), of "\<lambda>x. int (unat (requested_remaining x))" ?o]
    by (simp add: total_remaining_def)
  ultimately show ?thesis
    by linarith
qed

lemma net_flow_cong: "orders bk' = orders bk \<Longrightarrow> net_flow bk' t = net_flow bk t"
  by (simp add: net_flow_def)

lemma total_remaining_cong: "orders bk' = orders bk \<Longrightarrow> total_remaining bk' = total_remaining bk"
  by (simp add: total_remaining_def)

lemma balance_credit:
  "unat (balance_of (add_protocol_balance s x bk) t)
     \<le> unat (balance_of bk t) + (if s = t then unat x else 0)"
proof -
  have "unat (a + x) \<le> unat a + unat x" for a :: u64
    by (simp add: unat_word_ariths)
  then show ?thesis
    by (auto simp: balance_of_def add_protocol_balance_def unwrap_or_default_def)
qed

lemma net_flow_fresh:
  assumes "fresh_book bk"
  shows "net_flow bk t = 0"
  unfolding net_flow_def
proof (rule sum.neutral, rule ballI)
  fix i
  assume "i \<in> dom (orders bk)"
  then obtain ord where ord: "orders bk i = Some ord" by blast
  then have "requested_filled ord = 0"
    using assms by (simp add: fresh_book_def requested_filled_def)
  then show "contribution (the (orders bk i)) t = 0"
    by (simp add: ord contribution_def)
qed

lemma fresh_solvent: "fresh_book bk \<Longrightarrow> solvent bk"
  using net_flow_fresh by (simp add: solvent_def fresh_book_def)

section \<open>One match\<close>

lemma apply_match_progress:
  assumes wf: "wf_book bk" and m: "apply_match a b bk = (Some r, bk')"
  shows "total_remaining bk' < total_remaining bk"
  using m
proof (elim apply_match_SomeE)
  fix oa ob oa' ob'
  assume ne: "a \<noteq> b" and oa: "orders bk a = Some oa" and ob: "orders bk b = Some ob"
    and mw: "match_with oa ob = (Some r, oa', ob')"
    and bk': "bk' = cleanup_if_filled b (cleanup_if_filled a
       (add_protocol_balance (offered_token ob') (surplus_requested r)
         (add_protocol_balance (offered_token oa') (surplus_offered r)
           (bk\<lparr>orders := (orders bk)(a \<mapsto> oa', b \<mapsto> ob')\<rparr>))))"
  have fin: "finite (dom (orders bk))"
    using wf by (auto dest: wf_bookD(1) store_okD(1))
  from mw show ?thesis
  proof (elim match_with_SomeE)
    fix s t
    assume s: "s = min (offered_remaining oa) (requested_remaining ob)" "s \<noteq> 0"
      and t: "t = min (offered_for ob s) (requested_remaining oa)" "t \<noteq> 0"
      and upd: "oa' = oa\<lparr>requested_remaining := requested_remaining oa - t\<rparr>"
        "ob' = ob\<lparr>requested_remaining := requested_remaining ob - s\<rparr>"
    let ?b1 = "bk\<lparr>orders := (orders bk)(a \<mapsto> oa')\<rparr>"
    have "total_remaining ?b1 < total_remaining bk"
      unfolding upd by (rule total_remaining_upd [OF fin oa]) (use t in simp_all)
    moreover have "total_remaining (?b1\<lparr>orders := (orders ?b1)(b \<mapsto> ob')\<rparr>) < total_remaining ?b1"
      unfolding upd(2) by (rule total_remaining_upd) (use fin ob ne s in simp_all)
    moreover have "total_remaining bk' = total_remaining (?b1\<lparr>orders := (orders ?b1)(b \<mapsto> ob')\<rparr>)"
      by (rule total_remaining_cong) (simp add: bk')
    ultimately show ?thesis
      by simp
  qed
qed

lemma apply_match_solvent:
  assumes wf: "wf_book bk" and sol: "solvent bk" and m: "apply_match a b bk = (Some r, bk')"
    and tok: "\<And>oa ob. orders bk a = Some oa \<Longrightarrow> orders bk b = Some ob \<Longrightarrow>
      requested_token oa = offered_token ob \<and> requested_token ob = offered_token oa"
  shows "solvent bk'"
  using m
proof (elim apply_match_SomeE)
  fix oa ob oa' ob'
  assume ne: "a \<noteq> b" and oa: "orders bk a = Some oa" and ob: "orders bk b = Some ob"
    and mw: "match_with oa ob = (Some r, oa', ob')"
    and bk': "bk' = cleanup_if_filled b (cleanup_if_filled a
       (add_protocol_balance (offered_token ob') (surplus_requested r)
         (add_protocol_balance (offered_token oa') (surplus_offered r)
           (bk\<lparr>orders := (orders bk)(a \<mapsto> oa', b \<mapsto> ob')\<rparr>))))"
  note S = wf_bookD(1) [OF wf]
  have fin: "finite (dom (orders bk))" and wfo: "wf_order oa" "wf_order ob"
    using store_okD(1,5) [OF S] oa ob by auto
  from mw show ?thesis
  proof (elim match_with_SomeE)
    fix s t
    assume s: "s = min (offered_remaining oa) (requested_remaining ob)"
      and t: "t = min (offered_for ob s) (requested_remaining oa)"
      and upd: "oa' = oa\<lparr>requested_remaining := requested_remaining oa - t\<rparr>"
        "ob' = ob\<lparr>requested_remaining := requested_remaining ob - s\<rparr>"
      and le: "s \<le> offered_for oa t"
      and sur: "surplus_offered r = saturating_sub (offered_for oa t) s"
        "surplus_requested r = saturating_sub (offered_for ob s) t"
    let ?b1 = "bk\<lparr>orders := (orders bk)(a \<mapsto> oa')\<rparr>"
    let ?b2 = "?b1\<lparr>orders := (orders ?b1)(b \<mapsto> ob')\<rparr>"
    have tr: "t \<le> requested_remaining oa" and sr: "s \<le> requested_remaining ob" and tle: "t \<le> offered_for ob s"
      by (simp_all add: s t)
    show ?thesis
      unfolding solvent_def
    proof
      fix x
      have 1: "net_flow bk x + (if offered_token oa = x then int (unat (offered_for oa t)) else 0)
          - (if requested_token oa = x then int (unat t) else 0) \<le> net_flow ?b1 x"
        unfolding upd by (rule net_flow_fill [OF fin oa wfo(1) tr])
      have 2: "net_flow ?b1 x + (if offered_token ob = x then int (unat (offered_for ob s)) else 0)
          - (if requested_token ob = x then int (unat s) else 0) \<le> net_flow ?b2 x"
        unfolding upd(2) by (rule net_flow_fill [OF _ _ wfo(2) sr]) (use fin ob ne in simp_all)
      have 3: "net_flow bk' x = net_flow ?b2 x"
        by (rule net_flow_cong) (simp add: bk')
      have eqA: "balance_of bk' x = balance_of (add_protocol_balance (offered_token ob) (surplus_requested r)
         (add_protocol_balance (offered_token oa) (surplus_offered r) ?b2)) x"
        by (simp add: bk' balance_of_def upd)
      have eqB: "balance_of ?b2 x = balance_of bk x"
        by (simp add: balance_of_def)
      have 4: "unat (balance_of bk' x) \<le> unat (balance_of bk x)
          + (if offered_token oa = x then unat (surplus_offered r) else 0)
          + (if offered_token ob = x then unat (surplus_requested r) else 0)"
        using balance_credit [of "offered_token ob" "surplus_requested r"
            "add_protocol_balance (offered_token oa) (surplus_offered r) ?b2" x]
          balance_credit [of "offered_token oa" "surplus_offered r" ?b2 x]
        unfolding eqA eqB by linarith
      have 5: "int (unat (surplus_offered r)) = int (unat (offered_for oa t)) - int (unat s)"
        "int (unat (surplus_requested r)) = int (unat (offered_for ob s)) - int (unat t)"
        using le tle by (simp_all add: sur word_le_nat_alt of_nat_diff)
      have "int (unat (balance_of bk x)) \<le> net_flow bk x"
        using sol by (simp add: solvent_def)
      then show "int (unat (balance_of bk' x)) \<le> net_flow bk' x"
        using 1 2 3 4 5 tok [OF oa ob] by (auto split: if_splits)
    qed
  qed
qed

end
