(* ===== verification/Direct_Matching.thy ===== *)
theory Direct_Matching
  imports Settlement_Flow "HOL-Library.Product_Lexorder"
begin

text \<open>
  The pairwise phase of \<open>matching/direct_matching.rs\<close>. The loop over one pair is
  a partial function: \<open>None\<close> would mean that it does not return. It is proved to
  return on every well-formed book, since each match strictly decreases the sum
  of the remaining amounts. The order in which the hash set of pairs is walked
  is the parameter \<open>order\<close>.
\<close>

definition collect_matchable_pairs :: "(Pair set \<Rightarrow> Pair list) \<Rightarrow> OrderBook \<Rightarrow> Pair list" where
  "collect_matchable_pairs order book =
     order {p \<in> tokens book \<times> tokens book.
              \<not> fst p \<ge> snd p \<and> has_orders (fst p) (snd p) book \<and> has_orders (snd p) (fst p) book}"

partial_function (option) match_user_orders_from ::
  "TokenId \<Rightarrow> TokenId \<Rightarrow> OrderBook \<Rightarrow> OrderId set \<Rightarrow> u64 \<Rightarrow> (OrderBook \<times> OrderId set \<times> u64) option" where
  "match_user_orders_from token_a token_b book filled cycles =
     (case best_order token_a token_b book of
        (None, book1) \<Rightarrow> Some (book1, filled, cycles)
      | (Some order_a, book1) \<Rightarrow>
        (case best_order token_b token_a book1 of
           (None, book2) \<Rightarrow> Some (book2, filled, cycles)
         | (Some order_b, book2) \<Rightarrow>
           if feed book2 token_a = None \<or> feed book2 token_b = None then Some (book2, filled, cycles)
           else
             (case apply_match (order_id order_a) (order_id order_b) book2 of
                (None, book3) \<Rightarrow> Some (book3, filled, cycles)
              | (Some _, book3) \<Rightarrow>
                match_user_orders_from token_a token_b book3
                  (insert (order_id order_b) (insert (order_id order_a) filled)) (cycles + 1))))"

declare match_user_orders_from.simps [code]

definition match_user_orders ::
  "OrderBook \<Rightarrow> TokenId \<Rightarrow> TokenId \<Rightarrow> OrderId set \<Rightarrow> (OrderBook \<times> OrderId set \<times> u64) option" where
  "match_user_orders book token_a token_b filled = match_user_orders_from token_a token_b book filled 0"

fun direct_pairs :: "Pair list \<Rightarrow> OrderBook \<Rightarrow> OrderId set \<Rightarrow> u64
    \<Rightarrow> (OrderBook \<times> OrderId set \<times> u64) option" where
  "direct_pairs [] book filled cycles = Some (book, filled, cycles)"
| "direct_pairs ((token_a, token_b) # pairs) book filled cycles =
     (case match_user_orders book token_a token_b filled of
        None \<Rightarrow> None
      | Some (book', filled', n) \<Rightarrow> direct_pairs pairs book' filled' (cycles + n))"

definition run_direct_matching ::
  "(Pair set \<Rightarrow> Pair list) \<Rightarrow> OrderBook \<Rightarrow> OrderId set \<Rightarrow> (OrderBook \<times> OrderId set \<times> u64) option" where
  "run_direct_matching order book filled =
     direct_pairs (collect_matchable_pairs order book) book filled 0"

section \<open>The loop as steps\<close>

text \<open>One iteration that finds a match, on the book and the set of filled ids.\<close>

inductive direct_step ::
  "TokenId \<Rightarrow> TokenId \<Rightarrow> OrderBook \<times> OrderId set \<Rightarrow> OrderBook \<times> OrderId set \<Rightarrow> bool" for a b where
  "fst (best_order a b bk) = Some oa \<Longrightarrow> fst (best_order b a bk) = Some ob
   \<Longrightarrow> feed bk a \<noteq> None \<Longrightarrow> feed bk b \<noteq> None
   \<Longrightarrow> apply_match (order_id oa) (order_id ob) bk = (Some r, bk')
   \<Longrightarrow> direct_step a b (bk, F) (bk', insert (order_id ob) (insert (order_id oa) F))"

lemma direct_stepE:
  assumes "direct_step a b (bk, F) (bk', F')"
  obtains oa ob r where "fst (best_order a b bk) = Some oa" "fst (best_order b a bk) = Some ob"
    "feed bk a \<noteq> None" "feed bk b \<noteq> None"
    "apply_match (order_id oa) (order_id ob) bk = (Some r, bk')"
    "F' = insert (order_id ob) (insert (order_id oa) F)"
  using assms by (cases rule: direct_step.cases) auto

definition direct_done :: "TokenId \<Rightarrow> TokenId \<Rightarrow> OrderBook \<Rightarrow> bool" where
  "direct_done a b bk \<longleftrightarrow>
     (case (fst (best_order a b bk), fst (best_order b a bk)) of
        (Some oa, Some ob) \<Rightarrow> feed bk a = None \<or> feed bk b = None
          \<or> fst (apply_match (order_id oa) (order_id ob) bk) = None
      | _ \<Rightarrow> True)"

lemma direct_step_live:
  assumes "wf_book bk" "fst (best_order a b bk) = Some oa"
  shows "orders bk (order_id oa) = Some oa" "parked bk (order_id oa) = None"
    "offered_token oa = a" "requested_token oa = b" "is_active oa"
  using best_order_SomeD(1,2) [OF assms] by (auto simp: live_def order_pair_def)

lemma direct_step_wf:
  assumes "wf_book bk" "direct_step a b (bk, F) (bk', F')"
  shows "wf_book bk'"
  using assms(2)
  by (elim direct_stepE)
    (auto intro: wf_book_apply_match [OF assms(1)] dest: direct_step_live(2) [OF assms(1)])

lemma direct_step_progress:
  assumes "wf_book bk" "direct_step a b (bk, F) (bk', F')"
  shows "total_remaining bk' < total_remaining bk"
  using assms(2) by (elim direct_stepE) (auto dest: apply_match_progress [OF assms(1)])

lemma direct_step_solvent:
  assumes "wf_book bk" "solvent bk" "direct_step a b (bk, F) (bk', F')"
  shows "solvent bk'"
  using assms(3)
proof (elim direct_stepE)
  fix oa ob r
  assume b: "fst (best_order a b bk) = Some oa" "fst (best_order b a bk) = Some ob"
    and m: "apply_match (order_id oa) (order_id ob) bk = (Some r, bk')"
    and eq: "F' = insert (order_id ob) (insert (order_id oa) F)"
  note la = direct_step_live [OF assms(1) b(1)] and lb = direct_step_live [OF assms(1) b(2)]
  show ?thesis
    by (rule apply_match_solvent [OF assms(1,2) m]) (use la lb in auto)
qed

lemma best_order_pair:
  "wf_book bk \<Longrightarrow> fst (best_order a b bk) = r \<Longrightarrow> best_order a b bk = (r, bk)"
  using best_order_book [of bk a b] by (simp add: prod_eq_iff)

lemma match_user_orders_step:
  assumes "wf_book bk" "direct_step a b (bk, F) (bk', F')"
  shows "match_user_orders_from a b bk F c = match_user_orders_from a b bk' F' (c + 1)"
  using assms(2)
proof (elim direct_stepE)
  fix oa ob r
  assume b: "fst (best_order a b bk) = Some oa" "fst (best_order b a bk) = Some ob"
    and pr: "feed bk a \<noteq> None" "feed bk b \<noteq> None"
    and m: "apply_match (order_id oa) (order_id ob) bk = (Some r, bk')"
    and eq: "F' = insert (order_id ob) (insert (order_id oa) F)"
  show ?thesis
    using pr eq
    by (subst match_user_orders_from.simps)
      (auto simp: best_order_pair [OF assms(1) b(1)] best_order_pair [OF assms(1) b(2)] m)
qed

lemma not_done_step:
  assumes "wf_book bk" "\<not> direct_done a b bk"
  shows "\<exists>bk' F'. direct_step a b (bk, F) (bk', F')"
proof -
  obtain oa ob r where "fst (best_order a b bk) = Some oa" "fst (best_order b a bk) = Some ob"
    "feed bk a \<noteq> None" "feed bk b \<noteq> None" "fst (apply_match (order_id oa) (order_id ob) bk) = Some r"
    using assms(2) by (auto simp: direct_done_def split: option.splits)
  then have "direct_step a b (bk, F) (snd (apply_match (order_id oa) (order_id ob) bk),
      insert (order_id ob) (insert (order_id oa) F))"
    by (intro direct_step.intros) (auto simp: prod_eq_iff)
  then show ?thesis
    by blast
qed

lemma done_returns:
  assumes "wf_book bk" "direct_done a b bk"
  shows "match_user_orders_from a b bk F c = Some (bk, F, c)"
proof (cases "fst (best_order a b bk)")
  case None
  then show ?thesis
    by (subst match_user_orders_from.simps) (simp add: best_order_pair [OF assms(1) None])
next
  case (Some oa)
  note A = best_order_pair [OF assms(1) Some]
  show ?thesis
  proof (cases "fst (best_order b a bk)")
    case None
    then show ?thesis
      by (subst match_user_orders_from.simps) (simp add: A best_order_pair [OF assms(1) None])
  next
    case (Some ob)
    note B = best_order_pair [OF assms(1) Some]
    show ?thesis
      using assms(2) apply_match_None [of "order_id oa" "order_id ob" bk]
      by (subst match_user_orders_from.simps) (auto simp: direct_done_def A B split: prod.splits option.splits)
  qed
qed

lemma match_user_orders_returns:
  assumes "wf_book bk"
  shows "\<exists>bk' F' c'. match_user_orders_from a b bk F c = Some (bk', F', c')
    \<and> (direct_step a b)\<^sup>*\<^sup>* (bk, F) (bk', F') \<and> wf_book bk' \<and> direct_done a b bk'"
  using assms
proof (induction "total_remaining bk" arbitrary: bk F c rule: less_induct)
  case less
  show ?case
  proof (cases "direct_done a b bk")
    case True
    with less.prems done_returns show ?thesis
      by blast
  next
    case False
    then obtain bk1 F1 where st: "direct_step a b (bk, F) (bk1, F1)"
      using not_done_step [OF less.prems] by blast
    from less.hyps [OF direct_step_progress [OF less.prems st] direct_step_wf [OF less.prems st]]
    obtain bk' F' c' where "match_user_orders_from a b bk1 F1 (c + 1) = Some (bk', F', c')"
      "(direct_step a b)\<^sup>*\<^sup>* (bk1, F1) (bk', F')" "wf_book bk'" "direct_done a b bk'"
      by blast
    then show ?thesis
      using match_user_orders_step [OF less.prems st, of c]
        converse_rtranclp_into_rtranclp [of "direct_step a b", OF st] by auto
  qed
qed

section \<open>What a matching run changes\<close>

text \<open>
  \<open>book_rel P bk F bk' F'\<close>: between the two books only orders of the pairs in \<open>P\<close>
  were filled, every filled order is in the set of filled ids, every id added to
  that set was strictly filled, and the index of the pairs outside \<open>P\<close> is the same.
\<close>

definition order_rel :: "Pair set \<Rightarrow> OrderId set \<Rightarrow> OrderId set \<Rightarrow> OrderId \<Rightarrow> Order \<Rightarrow> Order option \<Rightarrow> bool" where
  "order_rel P F F' i ord res \<longleftrightarrow>
     (\<exists>r \<le> requested_remaining ord. res = Some (ord\<lparr>requested_remaining := r\<rparr>)
        \<and> (r \<noteq> requested_remaining ord \<longrightarrow> i \<in> F' \<and> order_pair ord \<in> P)
        \<and> (i \<in> F' - F \<longrightarrow> r < requested_remaining ord))"

definition book_rel :: "Pair set \<Rightarrow> OrderBook \<Rightarrow> OrderId set \<Rightarrow> OrderBook \<Rightarrow> OrderId set \<Rightarrow> bool" where
  "book_rel P bk F bk' F' \<longleftrightarrow>
     F \<subseteq> F' \<and> F' - F \<subseteq> dom (orders bk) \<and> feed bk' = feed bk \<and> parked bk' = parked bk
   \<and> dom (orders bk') = dom (orders bk)
   \<and> (\<forall>i ord. orders bk i = Some ord \<longrightarrow> order_rel P F F' i ord (orders bk' i))
   \<and> (\<forall>p. p \<notin> P \<longrightarrow> levels_of bk' p = levels_of bk p)
   \<and> (F' = {} \<longrightarrow> protocol_balances bk' = protocol_balances bk)"

lemma book_rel_refl [simp]: "book_rel P bk F bk F"
  by (auto simp: book_rel_def order_rel_def intro!: exI [of _ "requested_remaining _"])

lemma book_rel_mono: "book_rel P bk F bk' F' \<Longrightarrow> P \<subseteq> Q \<Longrightarrow> book_rel Q bk F bk' F'"
  unfolding book_rel_def order_rel_def by blast

lemma order_rel_trans:
  assumes "order_rel P F F1 i ord (Some ord1)" "order_rel P F1 F2 i ord1 res" "F \<subseteq> F1" "F1 \<subseteq> F2"
  shows "order_rel P F F2 i ord res"
proof -
  obtain r1 where r1: "r1 \<le> requested_remaining ord" "ord1 = ord\<lparr>requested_remaining := r1\<rparr>"
      "r1 \<noteq> requested_remaining ord \<longrightarrow> i \<in> F1 \<and> order_pair ord \<in> P"
      "i \<in> F1 - F \<longrightarrow> r1 < requested_remaining ord"
    using assms(1) by (auto simp: order_rel_def)
  obtain r2 where r2: "r2 \<le> r1" "res = Some (ord\<lparr>requested_remaining := r2\<rparr>)"
      "r2 \<noteq> r1 \<longrightarrow> i \<in> F2 \<and> order_pair ord \<in> P" "i \<in> F2 - F1 \<longrightarrow> r2 < r1"
    using assms(2) by (auto simp: order_rel_def r1(2))
  have "i \<in> F2 - F \<longrightarrow> r2 < requested_remaining ord"
    using r1(1,4) r2(1,4) by (meson DiffD1 DiffD2 DiffI le_less_trans less_le_trans)
  moreover have "r2 \<noteq> requested_remaining ord \<longrightarrow> i \<in> F2 \<and> order_pair ord \<in> P"
    using r1(3) r2(3) assms(4) by blast
  moreover have "r2 \<le> requested_remaining ord"
    using r1(1) r2(1) by order
  ultimately show ?thesis
    using r2(2) unfolding order_rel_def by (intro exI [of _ r2] conjI) simp_all
qed

lemma book_rel_trans:
  assumes "book_rel P bk F bk1 F1" "book_rel P bk1 F1 bk2 F2"
  shows "book_rel P bk F bk2 F2"
proof -
  have "order_rel P F F2 i ord (orders bk2 i)" if i: "orders bk i = Some ord" for i ord
  proof -
    have 1: "order_rel P F F1 i ord (orders bk1 i)"
      using assms(1) i by (simp add: book_rel_def)
    then obtain ord1 where ord1: "orders bk1 i = Some ord1"
      by (auto simp: order_rel_def)
    then have "order_rel P F1 F2 i ord1 (orders bk2 i)"
      using assms(2) by (simp add: book_rel_def)
    with 1 ord1 assms show ?thesis
      using order_rel_trans by (simp add: book_rel_def)
  qed
  then show ?thesis
    using assms unfolding book_rel_def by auto
qed

lemma levels_of_cleanup:
  assumes "\<And>ord. orders bk i = Some ord \<Longrightarrow> order_pair ord \<noteq> p"
  shows "levels_of (cleanup_if_filled i bk) p = levels_of bk p"
  using assms
  by (auto simp: cleanup_if_filled_def levels_of_remove_from_index split: option.splits)

lemma levels_of_add_protocol_balance [simp]:
  "levels_of (add_protocol_balance t x bk) p = levels_of bk p"
  by (simp add: levels_of_def)

lemma levels_of_orders_upd [simp]: "levels_of (bk\<lparr>orders := os\<rparr>) p = levels_of bk p"
  by (simp add: levels_of_def)

lemma direct_step_rel:
  assumes wf: "wf_book bk" and st: "direct_step a b (bk, F) (bk', F')"
  shows "book_rel {(a, b), (b, a)} bk F bk' F' \<and> feed bk a \<noteq> None \<and> feed bk b \<noteq> None"
  using st
proof (elim direct_stepE)
  fix oa ob r
  assume b: "fst (best_order a b bk) = Some oa" "fst (best_order b a bk) = Some ob"
    and pr: "feed bk a \<noteq> None" "feed bk b \<noteq> None"
    and m: "apply_match (order_id oa) (order_id ob) bk = (Some r, bk')"
    and eq: "F' = insert (order_id ob) (insert (order_id oa) F)"
  note la = direct_step_live [OF wf b(1)] and lb = direct_step_live [OF wf b(2)]
  note S = wf_bookD(1) [OF wf]
  from m obtain oa' ob' where ne: "order_id oa \<noteq> order_id ob"
    and mw: "match_with oa ob = (Some r, oa', ob')"
    and bk': "bk' = cleanup_if_filled (order_id ob) (cleanup_if_filled (order_id oa)
       (add_protocol_balance (offered_token ob') (surplus_requested r)
         (add_protocol_balance (offered_token oa') (surplus_offered r)
           (bk\<lparr>orders := (orders bk)(order_id oa \<mapsto> oa', order_id ob \<mapsto> ob')\<rparr>))))"
    by (elim apply_match_SomeE) (use la lb in auto)
  note u = match_with_upd [OF mw]
  have less: "requested_remaining oa' < requested_remaining oa" "requested_remaining ob' < requested_remaining ob"
    using mw by (elim match_with_SomeE; simp add: word_less_sub_nonzero)+
  have pairs: "order_pair oa = (a, b)" "order_pair ob = (b, a)"
    using la lb by (simp_all add: order_pair_def)
  then have pairs': "order_pair oa' = (a, b)" "order_pair ob' = (b, a)"
    by (subst u; simp)+
  have os: "orders bk' = (orders bk)(order_id oa \<mapsto> oa', order_id ob \<mapsto> ob')"
    by (simp add: bk')
  have "levels_of bk' p = levels_of bk p" if "p \<notin> {(a, b), (b, a)}" for p
    unfolding bk' using that pairs'
    by (subst levels_of_cleanup; (subst levels_of_cleanup)?) (auto split: if_splits)
  moreover have "order_rel {(a, b), (b, a)} F F' i ord (orders bk' i)" if "orders bk i = Some ord" for i ord
  proof -
    consider "i = order_id oa" | "i = order_id ob" | "i \<noteq> order_id oa" "i \<noteq> order_id ob" by blast
    then show ?thesis
    proof cases
      case 1
      then show ?thesis
        using that la less u(1) eq pairs ne unfolding order_rel_def os
        by (auto intro!: exI [of _ "requested_remaining oa'"])
    next
      case 2
      then show ?thesis
        using that lb less u(2) eq pairs ne unfolding order_rel_def os
        by (auto intro!: exI [of _ "requested_remaining ob'"])
    next
      case 3
      with that eq show ?thesis
        unfolding order_rel_def os by (auto intro!: exI [of _ "requested_remaining ord"])
    qed
  qed
  ultimately show ?thesis
    using eq la lb pr by (auto simp: book_rel_def os) (simp_all add: bk')
qed

section \<open>The run over all pairs\<close>

definition priced :: "PriceFeed \<Rightarrow> Pair \<Rightarrow> bool" where
  "priced f p \<longleftrightarrow> f (fst p) \<noteq> None \<and> f (snd p) \<noteq> None"

definition both_ways :: "Pair list \<Rightarrow> Pair set" where
  "both_ways ps = set ps \<union> prod.swap ` set ps"

lemma direct_steps_rel:
  assumes "(direct_step a b)\<^sup>*\<^sup>* (bk, F) (bk', F')" "wf_book bk"
  shows "wf_book bk' \<and> (solvent bk \<longrightarrow> solvent bk')
    \<and> book_rel {p \<in> {(a, b), (b, a)}. priced (feed bk) p} bk F bk' F'"
  using assms
proof (induction rule: rtranclp_induct2)
  case (step bk1 F1 bk2 F2)
  then have IH: "wf_book bk1" "solvent bk \<longrightarrow> solvent bk1"
      "book_rel {p \<in> {(a, b), (b, a)}. priced (feed bk) p} bk F bk1 F1"
    by simp_all
  have f: "feed bk1 = feed bk"
    using IH(3) by (simp add: book_rel_def)
  have "book_rel {(a, b), (b, a)} bk1 F1 bk2 F2" "priced (feed bk) (a, b)" "priced (feed bk) (b, a)"
    using direct_step_rel [OF IH(1) step.hyps(2)] by (simp_all add: f priced_def)
  then have "book_rel {p \<in> {(a, b), (b, a)}. priced (feed bk) p} bk1 F1 bk2 F2"
    by (elim book_rel_mono) auto
  then show ?case
    using IH direct_step_wf [OF IH(1) step.hyps(2)] direct_step_solvent [OF IH(1) _ step.hyps(2)]
      book_rel_trans by blast
qed simp

lemma apply_match_fst:
  "fst (apply_match i j bk) = (if i = j then None else
     (case (orders bk i, orders bk j) of
        (Some oa, Some ob) \<Rightarrow> fst (match_with oa ob)
      | _ \<Rightarrow> None))"
  by (auto simp: apply_match_def Let_def split: option.splits prod.splits)

lemma best_order_unrelated:
  assumes "wf_book bk" "wf_book bk'" "book_rel P bk F bk' F'" "(a, b) \<notin> P"
  shows "fst (best_order a b bk') = fst (best_order a b bk)"
proof -
  have lv: "levels_of bk' (a, b) = levels_of bk (a, b)"
    using assms(3,4) by (simp add: book_rel_def)
  have same: "orders bk' i = orders bk i" if i: "i \<in> live bk (a, b)" for i
  proof -
    obtain ord where ord: "orders bk i = Some ord" "order_pair ord = (a, b)"
      using i by (auto simp: live_def)
    then have "order_rel P F F' i ord (orders bk' i)"
      using assms(3) by (simp add: book_rel_def)
    with ord assms(4) show ?thesis
      by (auto simp: order_rel_def)
  qed
  have "orders bk' (hd ids) = orders bk (hd ids)" if "levels_of bk (a, b) = (k, ids) # L" for k ids L
    using wf_book_levels_active(1,2) [OF assms(1), of k ids "(a, b)"] that by (simp add: same)
  then show ?thesis
    by (auto simp: best_order_wf [OF assms(1)] best_order_wf [OF assms(2)] lv split: list.splits)
qed

lemma direct_done_unrelated:
  assumes "wf_book bk" "wf_book bk'" "book_rel P bk F bk' F'" "(a, b) \<notin> P" "(b, a) \<notin> P"
    and "direct_done a b bk"
  shows "direct_done a b bk'"
proof -
  note ab = best_order_unrelated [OF assms(1-4)] and ba = best_order_unrelated [OF assms(1-3,5)]
  have f: "feed bk' = feed bk"
    using assms(3) by (simp add: book_rel_def)
  have own: "orders bk' (order_id x) = Some x \<and> orders bk (order_id x) = Some x"
    if "fst (best_order u v bk) = Some x" "fst (best_order u v bk') = Some x" for u v x
    using that best_order_SomeD(2) [OF assms(1)] best_order_SomeD(2) [OF assms(2)] by blast
  show ?thesis
    using assms(6) own [of a b] own [of b a] unfolding direct_done_def apply_match_fst
    by (auto simp: ab ba f split: option.splits)
qed

lemma match_user_orders_result:
  assumes "wf_book bk"
  obtains bk' F' n where "match_user_orders bk a b F = Some (bk', F', n)" "wf_book bk'"
    "solvent bk \<longrightarrow> solvent bk'"
    "book_rel {p \<in> {(a, b), (b, a)}. priced (feed bk) p} bk F bk' F'"
    "direct_done a b bk'"
  using match_user_orders_returns [OF assms, of a b F 0] direct_steps_rel [OF _ assms, of a b F]
  unfolding match_user_orders_def by blast

lemma direct_pairs_result:
  assumes "wf_book bk" "\<forall>p \<in> set ps. fst p < snd p"
  shows "\<exists>bk' F' n. direct_pairs ps bk F c = Some (bk', F', n) \<and> wf_book bk'
    \<and> (solvent bk \<longrightarrow> solvent bk')
    \<and> book_rel {p \<in> both_ways ps. priced (feed bk) p} bk F bk' F'
    \<and> (\<forall>p \<in> set ps. direct_done (fst p) (snd p) bk')"
  using assms
proof (induction ps arbitrary: bk F c)
  case Nil
  then show ?case by simp
next
  case (Cons p ps)
  obtain a b where p: "p = (a, b)" by (cases p)
  obtain bk1 F1 n1 where m: "match_user_orders bk a b F = Some (bk1, F1, n1)" "wf_book bk1"
      "solvent bk \<longrightarrow> solvent bk1" "book_rel {p \<in> {(a, b), (b, a)}. priced (feed bk) p} bk F bk1 F1"
      "direct_done a b bk1"
    by (rule match_user_orders_result [OF Cons.prems(1)])
  have f: "feed bk1 = feed bk"
    using m(4) by (simp add: book_rel_def)
  obtain bk2 F2 n2 where r: "direct_pairs ps bk1 F1 (c + n1) = Some (bk2, F2, n2)" "wf_book bk2"
      "solvent bk1 \<longrightarrow> solvent bk2" "book_rel {p \<in> both_ways ps. priced (feed bk) p} bk1 F1 bk2 F2"
      "\<forall>p \<in> set ps. direct_done (fst p) (snd p) bk2"
    using Cons.IH [OF m(2), of F1 "c + n1"] Cons.prems(2) by (auto simp: f)
  have "book_rel {q \<in> both_ways ((a, b) # ps). priced (feed bk) q} bk F bk2 F2"
    by (rule book_rel_trans [OF book_rel_mono [OF m(4)] book_rel_mono [OF r(4)]])
      (auto simp: both_ways_def)
  moreover have "direct_done a b bk2"
  proof (cases "(a, b) \<in> set ps")
    case True
    with r(5) show ?thesis by auto
  next
    case False
    then have "(a, b) \<notin> both_ways ps" "(b, a) \<notin> both_ways ps"
      using Cons.prems(2) by (auto simp: both_ways_def p)
    then show ?thesis
      by (intro direct_done_unrelated [OF m(2) r(2,4) _ _ m(5)]) simp_all
  qed
  ultimately show ?case
    using m r by (simp add: p)
qed

lemma collect_matchable_set:
  assumes "walks order" "wf_book bk"
  shows "set (collect_matchable_pairs order bk)
    = {p. fst p < snd p \<and> live bk p \<noteq> {} \<and> live bk (prod.swap p) \<noteq> {}}"
proof -
  have fin: "finite (tokens bk)"
    using assms(2) by (auto dest: wf_bookD(1) store_okD(3))
  have has: "has_orders u v bk \<longleftrightarrow> live bk (u, v) \<noteq> {}" for u v
    using index_invD(7,9) [OF wf_bookD(2) [OF assms(2)], of "(u, v)"]
    by (simp add: has_orders_count card_gt_0_iff)
  have tok: "u \<in> tokens bk \<and> v \<in> tokens bk" if "live bk (u, v) \<noteq> {}" for u v
    using that store_okD(6,7) [OF wf_bookD(1) [OF assms(2)]] by (auto simp: live_def order_pair_def)
  have "set (collect_matchable_pairs order bk)
      = {p \<in> tokens bk \<times> tokens bk. \<not> snd p \<le> fst p \<and> has_orders (fst p) (snd p) bk \<and> has_orders (snd p) (fst p) bk}"
    unfolding collect_matchable_pairs_def
    by (rule walksD(2) [OF assms(1)]) (rule finite_subset [OF _ finite_cartesian_product [OF fin fin]], auto)
  also have "\<dots> = {p. fst p < snd p \<and> live bk p \<noteq> {} \<and> live bk (prod.swap p) \<noteq> {}}"
    using tok by (auto simp: has prod.swap_def)
  finally show ?thesis .
qed

lemma run_direct_matching_result:
  assumes "walks order" "wf_book bk"
  obtains bk' F' n where "run_direct_matching order bk F = Some (bk', F', n)" "wf_book bk'"
    "solvent bk \<longrightarrow> solvent bk'" "book_rel {p. priced (feed bk) p} bk F bk' F'"
    "\<And>a b. a < b \<Longrightarrow> direct_done a b bk'"
proof -
  let ?ps = "collect_matchable_pairs order bk"
  have "\<forall>p \<in> set ?ps. fst p < snd p"
    by (simp add: collect_matchable_set [OF assms])
  then obtain bk' F' n where r: "run_direct_matching order bk F = Some (bk', F', n)" "wf_book bk'"
      "solvent bk \<longrightarrow> solvent bk'" "book_rel {p \<in> both_ways ?ps. priced (feed bk) p} bk F bk' F'"
      "\<forall>p \<in> set ?ps. direct_done (fst p) (snd p) bk'"
    using direct_pairs_result [OF assms(2), of ?ps F 0] by (auto simp: run_direct_matching_def)
  have "direct_done a b bk'" if ab: "a < b" for a b
  proof (cases "(a, b) \<in> set ?ps")
    case True
    with r(5) show ?thesis by auto
  next
    case False
    then have "live bk (a, b) = {} \<or> live bk (b, a) = {}"
      using ab by (simp add: collect_matchable_set [OF assms])
    then have "direct_done a b bk"
      using best_order_None [OF assms(2), of a b] best_order_None [OF assms(2), of b a]
      by (auto simp: direct_done_def split: option.splits)
    moreover have "(a, b) \<notin> both_ways ?ps" "(b, a) \<notin> both_ways ?ps"
      using False ab by (auto simp: both_ways_def collect_matchable_set [OF assms])
    ultimately show ?thesis
      by (intro direct_done_unrelated [OF assms(2) r(2,4)]) simp_all
  qed
  moreover have "book_rel {p. priced (feed bk) p} bk F bk' F'"
    using r(4) by (rule book_rel_mono) auto
  ultimately show thesis
    using that r by blast
qed

section \<open>Properties of direct matching\<close>

text \<open>
  C3: direct matching always returns, and it never makes the settlement
  insolvent. Started on a well-formed book without fills, whatever the order in
  which the pairs are walked, it yields a well-formed book in which every token's
  settlement flow covers the surplus booked for the protocol.
\<close>

theorem direct_matching_solvent:
  assumes "walks order" "wf_book bk" "fresh_book bk"
  shows "\<exists>bk' F' n. run_direct_matching order bk F = Some (bk', F', n) \<and> wf_book bk'
    \<and> (\<forall>t. 0 \<le> net_flow bk' t \<and> int (unat (balance_of bk' t)) \<le> net_flow bk' t)"
proof -
  obtain bk' F' n where "run_direct_matching order bk F = Some (bk', F', n)" "wf_book bk'" "solvent bk'"
    using run_direct_matching_result [OF assms(1,2), of F] fresh_solvent [OF assms(3)] by metis
  then show ?thesis
    unfolding solvent_def by (meson of_nat_0_le_iff order.trans)
qed

lemma sample_fresh: "fresh_book sample_book"
  by (auto simp: fresh_book_def sample_book_def sample_book2_def sample_book1_def add_user_order_def
      OrderBook_new_def index_insert_def Let_def balance_of_def unwrap_or_default_def split: if_splits)

theorem direct_matching_solvent_witness:
  "\<exists>bk' F' n. run_direct_matching sorted_list_of_set sample_book {} = Some (bk', F', n)
   \<and> (\<forall>t. 0 \<le> net_flow bk' t)"
  using direct_matching_solvent [OF walks_sorted_list sample_books_wf(3) sample_fresh, of "{}"] by blast

text \<open>
  Direct matching touches only what it reports. Orders of a pair with an
  unpriced token keep their state, an order whose remaining amount changed is in
  the set of filled ids, every id added to that set was strictly filled, and no
  order is created, dropped, parked or changed in any other field.
\<close>

theorem direct_matching_touches:
  assumes "walks order" "wf_book bk" "run_direct_matching order bk F = Some (bk', F', n)"
    and "orders bk i = Some ord"
  shows "\<exists>r \<le> requested_remaining ord. orders bk' i = Some (ord\<lparr>requested_remaining := r\<rparr>)
      \<and> (r \<noteq> requested_remaining ord \<longrightarrow>
           i \<in> F' \<and> feed bk (offered_token ord) \<noteq> None \<and> feed bk (requested_token ord) \<noteq> None)
      \<and> (i \<in> F' - F \<longrightarrow> r < requested_remaining ord)"
proof -
  have "book_rel {p. priced (feed bk) p} bk F bk' F'"
    by (rule run_direct_matching_result [OF assms(1,2), of F]) (use assms(3) in auto)
  then have "order_rel {p. priced (feed bk) p} F F' i ord (orders bk' i)"
    using assms(4) by (simp add: book_rel_def)
  then show ?thesis
    by (auto simp: order_rel_def priced_def order_pair_def)
qed

theorem direct_matching_touches_witness:
  "\<exists>bk' F' n r. run_direct_matching sorted_list_of_set sample_book {} = Some (bk', F', n)
   \<and> orders bk' 3 = Some (\<lparr>order_id = 3, offered_token = 1, requested_token = 2,
       offered = 100, requested = 150, requested_remaining = r\<rparr>) \<and> r \<le> 150"
proof -
  obtain bk' F' n where r: "run_direct_matching sorted_list_of_set sample_book {} = Some (bk', F', n)"
    by (rule run_direct_matching_result [OF walks_sorted_list sample_books_wf(3), of "{}"])
  have "orders sample_book 3 = Some \<lparr>order_id = 3, offered_token = 1, requested_token = 2,
       offered = 100, requested = 150, requested_remaining = 150\<rparr>"
    by code_simp
  from direct_matching_touches [OF walks_sorted_list sample_books_wf(3) r this] r show ?thesis
    by auto
qed

text \<open>
  C35: direct matching stops only when nothing is left to do. After the run, for
  every two tokens, either one direction has no live order, or a token is
  unpriced, or the two best orders of the opposite directions cannot be matched.
\<close>

theorem direct_matching_exhausts:
  assumes "walks order" "wf_book bk" "run_direct_matching order bk F = Some (bk', F', n)" "a < b"
  shows "live bk' (a, b) = {} \<or> live bk' (b, a) = {}
    \<or> feed bk' a = None \<or> feed bk' b = None
    \<or> (\<exists>oa ob. fst (best_order a b bk') = Some oa \<and> fst (best_order b a bk') = Some ob
         \<and> fst (apply_match (order_id oa) (order_id ob) bk') = None)"
proof -
  have d: "direct_done a b bk'" and wf: "wf_book bk'"
    by (rule run_direct_matching_result [OF assms(1,2), of F], use assms(3,4) in auto)+
  then show ?thesis
    using best_order_None [OF wf, of a b] best_order_None [OF wf, of b a]
    by (auto simp: direct_done_def split: option.splits)
qed

theorem direct_matching_exhausts_witness:
  "\<exists>bk' F' n. run_direct_matching sorted_list_of_set sample_book {} = Some (bk', F', n)
   \<and> (live bk' (1, 2) = {} \<or> live bk' (2, 1) = {} \<or> feed bk' 1 = None \<or> feed bk' 2 = None
      \<or> (\<exists>oa ob. fst (best_order 1 2 bk') = Some oa \<and> fst (best_order 2 1 bk') = Some ob
         \<and> fst (apply_match (order_id oa) (order_id ob) bk') = None))"
proof -
  obtain bk' F' n where r: "run_direct_matching sorted_list_of_set sample_book {} = Some (bk', F', n)"
    by (rule run_direct_matching_result [OF walks_sorted_list sample_books_wf(3), of "{}"])
  with direct_matching_exhausts [OF walks_sorted_list sample_books_wf(3) r, of 1 2] show ?thesis
    by simp
qed

end
