(* ===== verification/Three_Edge_Cycle.thy ===== *)
theory Three_Edge_Cycle
  imports Direct_Matching
begin

text \<open>
  The triangular phase of \<open>matching/three_edge_cycle.rs\<close>. An operation that can
  panic (indexing the order map with an absent id) or loop returns an option
  whose \<open>None\<close> means that it does not return; the Rust \<open>Option\<close> it computes is
  the option inside. The binary heap is the list of its entries with a \<open>pop\<close>
  that takes an entry of maximal surplus: which of several maximal entries comes
  first is not specified, so \<open>pop\<close> is a parameter with the contract \<open>max_heap\<close>.
  The walks over hash sets are parameters as well.
\<close>

section \<open>Data\<close>

datatype Triangle = Triangle (token_id_a: TokenId) (token_id_b: TokenId) (token_id_c: TokenId)

definition canonical :: "TokenId \<Rightarrow> TokenId \<Rightarrow> TokenId \<Rightarrow> Triangle" where
  "canonical a b c =
     (if a \<le> b \<and> a \<le> c then Triangle a b c
      else if b \<le> a \<and> b \<le> c then Triangle b c a
      else Triangle c a b)"

definition triangle_pairs :: "Triangle \<Rightarrow> Pair list" where
  "triangle_pairs t = [(token_id_a t, token_id_b t), (token_id_b t, token_id_c t), (token_id_c t, token_id_a t)]"

record CycleEntry =
  ce_triangle :: Triangle
  ce_ab :: OrderId
  ce_bc :: OrderId
  ce_ca :: OrderId
  ce_surplus_usd :: u128

datatype BottleneckLeg = AB | BC | CA

record FillResult =
  fill_a :: Amount
  fill_b :: Amount
  fill_c :: Amount
  surplus_a :: Amount
  surplus_b :: Amount
  surplus_c :: Amount

record CycleSimulation =
  sim_fills :: FillResult
  sim_surplus_usd :: u128

section \<open>Simulation of a cycle\<close>

definition fill_leg :: "Order \<Rightarrow> Amount \<Rightarrow> Amount \<times> Amount" where
  "fill_leg ord input = (let filled = min input (requested_remaining ord) in (filled, offered_for ord filled))"

definition simulate_cycle_fills ::
  "Order \<Rightarrow> Order \<Rightarrow> Order \<Rightarrow> ((Amount \<times> Amount) \<times> (Amount \<times> Amount) \<times> (Amount \<times> Amount)) option" where
  "simulate_cycle_fills leg0 leg1 leg2 =
     (let filled_0 = requested_remaining leg0;
          released_0 = offered_for leg0 filled_0;
          (filled_1, released_1) = fill_leg leg1 released_0;
          (filled_2, released_2) = fill_leg leg2 released_1
      in if filled_0 = 0 \<or> filled_1 = 0 \<or> filled_2 = 0 then None
         else Some ((filled_0, released_0), (filled_1, released_1), (filled_2, released_2)))"

text \<open>Per token the pair (released, consumed): A, B and C in this order.\<close>

definition cycle_amounts ::
  "Order \<Rightarrow> Order \<Rightarrow> Order \<Rightarrow> BottleneckLeg \<Rightarrow> ((Amount \<times> Amount) \<times> (Amount \<times> Amount) \<times> (Amount \<times> Amount)) option" where
  "cycle_amounts order_ab order_bc order_ca bottleneck =
     (case bottleneck of
        AB \<Rightarrow> (case simulate_cycle_fills order_ab order_ca order_bc of None \<Rightarrow> None
               | Some (l0, l1, l2) \<Rightarrow> Some ((snd l0, fst l1), (snd l2, fst l0), (snd l1, fst l2)))
      | BC \<Rightarrow> (case simulate_cycle_fills order_bc order_ab order_ca of None \<Rightarrow> None
               | Some (l0, l1, l2) \<Rightarrow> Some ((snd l1, fst l2), (snd l0, fst l1), (snd l2, fst l0)))
      | CA \<Rightarrow> (case simulate_cycle_fills order_ca order_bc order_ab of None \<Rightarrow> None
               | Some (l0, l1, l2) \<Rightarrow> Some ((snd l2, fst l0), (snd l1, fst l2), (snd l0, fst l1))))"

definition simulate_cycle :: "Order \<Rightarrow> Order \<Rightarrow> Order \<Rightarrow> BottleneckLeg \<Rightarrow> FillResult option" where
  "simulate_cycle order_ab order_bc order_ca bottleneck =
     (case cycle_amounts order_ab order_bc order_ca bottleneck of None \<Rightarrow> None
      | Some ((released_a, fa), (released_b, fb), (released_c, fc)) \<Rightarrow>
          Some \<lparr>fill_a = fa, fill_b = fb, fill_c = fc,
                surplus_a = saturating_sub released_a fa,
                surplus_b = saturating_sub released_b fb,
                surplus_c = saturating_sub released_c fc\<rparr>)"

definition find_bottleneck :: "u128 \<Rightarrow> u128 \<Rightarrow> u128 \<Rightarrow> BottleneckLeg" where
  "find_bottleneck usd_ab usd_bc usd_ca =
     (if usd_ab \<le> usd_bc \<and> usd_ab \<le> usd_ca then AB else if usd_bc \<le> usd_ca then BC else CA)"

definition simulate_orders :: "PriceFeed \<Rightarrow> Order \<Rightarrow> Order \<Rightarrow> Order \<Rightarrow> CycleSimulation option" where
  "simulate_orders f order_ab order_bc order_ca =
     (if \<not> is_active order_ab \<or> \<not> is_active order_bc \<or> \<not> is_active order_ca then None
      else case (f (offered_token order_ab), f (requested_token order_ab), f (requested_token order_bc)) of
        (Some price_a, Some price_b, Some price_c) \<Rightarrow>
          (let usd_ab = as_u128 (requested_remaining order_ab) * as_u128 price_b;
               usd_bc = as_u128 (requested_remaining order_bc) * as_u128 price_c;
               usd_ca = as_u128 (requested_remaining order_ca) * as_u128 price_a;
               bottleneck = find_bottleneck usd_ab usd_bc usd_ca;
               bottleneck_usd = (case bottleneck of AB \<Rightarrow> usd_ab | BC \<Rightarrow> usd_bc | CA \<Rightarrow> usd_ca)
           in if bottleneck_usd = 0 then None
              else case simulate_cycle order_ab order_bc order_ca bottleneck of None \<Rightarrow> None
                | Some fills \<Rightarrow>
                    Some \<lparr>sim_fills = fills,
                      sim_surplus_usd =
                        saturating_add
                          (saturating_add
                            (saturating_mul (as_u128 (surplus_a fills)) (as_u128 price_a))
                            (saturating_mul (as_u128 (surplus_b fills)) (as_u128 price_b)))
                          (saturating_mul (as_u128 (surplus_c fills)) (as_u128 price_c))\<rparr>)
      | _ \<Rightarrow> None)"

definition simulate_full_cycle ::
  "OrderBook \<Rightarrow> OrderId \<Rightarrow> OrderId \<Rightarrow> OrderId \<Rightarrow> CycleSimulation option option" where
  "simulate_full_cycle book id_ab id_bc id_ca =
     (case (orders book id_ab, orders book id_bc, orders book id_ca) of
        (Some order_ab, Some order_bc, Some order_ca) \<Rightarrow>
          Some (simulate_orders (feed book) order_ab order_bc order_ca)
      | _ \<Rightarrow> None)"

section \<open>Building heap entries\<close>

definition triple_product :: "Amount \<Rightarrow> Amount \<Rightarrow> Amount \<Rightarrow> u128 option" where
  "triple_product x y z =
     (case checked_mul (as_u128 x) (as_u128 y) of None \<Rightarrow> None | Some p \<Rightarrow> checked_mul p (as_u128 z))"

definition unprofitable :: "Order \<Rightarrow> Order \<Rightarrow> Order \<Rightarrow> bool" where
  "unprofitable order_ab order_bc order_ca =
     (case (triple_product (offered order_ab) (offered order_bc) (offered order_ca),
            triple_product (requested order_ab) (requested order_bc) (requested order_ca)) of
        (Some lhs, Some rhs) \<Rightarrow> lhs \<le> rhs
      | _ \<Rightarrow> False)"

definition try_build_entry :: "OrderBook \<Rightarrow> Triangle \<Rightarrow> (CycleEntry option \<times> OrderBook) option" where
  "try_build_entry book t =
     (case best_order (token_id_a t) (token_id_b t) book of
        (None, book1) \<Rightarrow> Some (None, book1)
      | (Some best_ab, book1) \<Rightarrow>
        (case best_order (token_id_b t) (token_id_c t) book1 of
           (None, book2) \<Rightarrow> Some (None, book2)
         | (Some best_bc, book2) \<Rightarrow>
           (case best_order (token_id_c t) (token_id_a t) book2 of
              (None, book3) \<Rightarrow> Some (None, book3)
            | (Some best_ca, book3) \<Rightarrow>
              (case (orders book3 (order_id best_ab), orders book3 (order_id best_bc),
                     orders book3 (order_id best_ca)) of
                 (Some order_ab, Some order_bc, Some order_ca) \<Rightarrow>
                   if unprofitable order_ab order_bc order_ca then Some (None, book3)
                   else
                     (case simulate_full_cycle book3 (order_id best_ab) (order_id best_bc) (order_id best_ca) of
                        None \<Rightarrow> None
                      | Some None \<Rightarrow> Some (None, book3)
                      | Some (Some simulation) \<Rightarrow>
                          if sim_surplus_usd simulation = 0 then Some (None, book3)
                          else Some (Some \<lparr>ce_triangle = t, ce_ab = order_id best_ab,
                                 ce_bc = order_id best_bc, ce_ca = order_id best_ca,
                                 ce_surplus_usd = sim_surplus_usd simulation\<rparr>, book3))
               | _ \<Rightarrow> None))))"

record enum_state =
  es_book :: OrderBook
  es_seen :: "Triangle set"
  es_entries :: "CycleEntry list"
  es_by_pair :: "Pair \<Rightarrow> Triangle list option"

definition push_by_pair :: "Triangle \<Rightarrow> Pair \<Rightarrow> (Pair \<Rightarrow> Triangle list option) \<Rightarrow> (Pair \<Rightarrow> Triangle list option)" where
  "push_by_pair t p m = m(p \<mapsto> unwrap_or_default [] (m p) @ [t])"

fun enum_outgoing :: "TokenId \<Rightarrow> TokenId \<Rightarrow> TokenId list \<Rightarrow> enum_state \<Rightarrow> enum_state option" where
  "enum_outgoing token_a token_b [] st = Some st"
| "enum_outgoing token_a token_b (token_c # cs) st =
     (if token_c = token_a \<or> token_c = token_b then enum_outgoing token_a token_b cs st
      else if \<not> has_orders token_c token_a (es_book st) then enum_outgoing token_a token_b cs st
      else
        let t = canonical token_a token_b token_c
        in if t \<in> es_seen st then enum_outgoing token_a token_b cs st
           else
             let st1 = st\<lparr>es_seen := insert t (es_seen st)\<rparr>
             in case try_build_entry (es_book st1) t of
                  None \<Rightarrow> None
                | Some (None, book') \<Rightarrow> enum_outgoing token_a token_b cs (st1\<lparr>es_book := book'\<rparr>)
                | Some (Some entry, book') \<Rightarrow>
                    enum_outgoing token_a token_b cs
                      (st1\<lparr>es_book := book',
                           es_by_pair := fold (push_by_pair t) (triangle_pairs t) (es_by_pair st1),
                           es_entries := es_entries st1 @ [entry]\<rparr>))"

fun enum_incoming :: "TokenId \<Rightarrow> TokenId list \<Rightarrow> TokenId list \<Rightarrow> enum_state \<Rightarrow> enum_state option" where
  "enum_incoming token_b [] outgoing st = Some st"
| "enum_incoming token_b (token_a # as) outgoing st =
     (case enum_outgoing token_a token_b outgoing st of
        None \<Rightarrow> None
      | Some st' \<Rightarrow> enum_incoming token_b as outgoing st')"

fun enum_tokens :: "(TokenId set \<Rightarrow> TokenId list) \<Rightarrow> TokenId list \<Rightarrow> enum_state \<Rightarrow> enum_state option" where
  "enum_tokens order [] st = Some st"
| "enum_tokens order (token_b # bs) st =
     (let incoming = incoming_neighbors order token_b (es_book st);
          outgoing = neighbors order token_b (es_book st)
      in case enum_incoming token_b incoming outgoing st of
           None \<Rightarrow> None
         | Some st' \<Rightarrow> enum_tokens order bs st')"

definition enumerate_triangles :: "(TokenId set \<Rightarrow> TokenId list) \<Rightarrow> OrderBook \<Rightarrow> enum_state option" where
  "enumerate_triangles order book =
     enum_tokens order (order (tokens book))
       \<lparr>es_book = book, es_seen = {}, es_entries = [], es_by_pair = Map.empty\<rparr>"

section \<open>Execution\<close>

definition fill_order :: "OrderId \<Rightarrow> Amount \<Rightarrow> OrderBook \<Rightarrow> OrderBook option" where
  "fill_order oid amt book =
     (case orders book oid of
        None \<Rightarrow> None
      | Some ord \<Rightarrow> Some (book\<lparr>orders := (orders book)(oid \<mapsto> snd (fill ord amt))\<rparr>))"

definition execute_cycle ::
  "OrderBook \<Rightarrow> CycleEntry \<Rightarrow> FillResult \<Rightarrow> OrderId set \<Rightarrow> bool \<times> OrderBook \<times> OrderId set" where
  "execute_cycle book entry sim filled =
     (case fill_order (ce_ab entry) (fill_b sim) book of
        None \<Rightarrow> (False, book, filled)
      | Some book1 \<Rightarrow>
        (case fill_order (ce_ca entry) (fill_a sim) book1 of
           None \<Rightarrow> (False, book1, filled)
         | Some book2 \<Rightarrow>
           (case fill_order (ce_bc entry) (fill_c sim) book2 of
              None \<Rightarrow> (False, book2, filled)
            | Some book3 \<Rightarrow>
              let filled' = insert (ce_bc entry) (insert (ce_ca entry) (insert (ce_ab entry) filled));
                  book4 = cleanup_if_filled (ce_bc entry)
                            (cleanup_if_filled (ce_ca entry) (cleanup_if_filled (ce_ab entry) book3));
                  t = ce_triangle entry;
                  book5 = add_protocol_balance (token_id_c t) (surplus_c sim)
                            (add_protocol_balance (token_id_b t) (surplus_b sim)
                              (add_protocol_balance (token_id_a t) (surplus_a sim) book4))
              in (True, book5, filled'))))"

fun refresh_triangles :: "Triangle list \<Rightarrow> OrderBook \<Rightarrow> CycleEntry list \<Rightarrow> (OrderBook \<times> CycleEntry list) option" where
  "refresh_triangles [] book heap = Some (book, heap)"
| "refresh_triangles (t # ts) book heap =
     (case try_build_entry book t of
        None \<Rightarrow> None
      | Some (None, book') \<Rightarrow> refresh_triangles ts book' heap
      | Some (Some fresh_entry, book') \<Rightarrow> refresh_triangles ts book' (fresh_entry # heap))"

definition affected_set :: "(Pair \<Rightarrow> Triangle list option) \<Rightarrow> Triangle \<Rightarrow> Triangle set" where
  "affected_set by_pair t =
     set (concat (map (\<lambda>p. unwrap_or_default [] (by_pair p)) (triangle_pairs t)))"

text \<open>
  The loop state: heap, book, filled ids and cycle count. The body of the loop
  for a popped entry computes the next state, each \<open>continue\<close> of the source being
  one of its branches.
\<close>

type_synonym cycle_state = "CycleEntry list \<times> OrderBook \<times> OrderId set \<times> u64"

definition cycle_body ::
  "(Triangle set \<Rightarrow> Triangle list) \<Rightarrow> (Pair \<Rightarrow> Triangle list option) \<Rightarrow> CycleEntry \<Rightarrow> CycleEntry list
    \<Rightarrow> OrderBook \<Rightarrow> OrderId set \<Rightarrow> u64 \<Rightarrow> cycle_state option" where
  "cycle_body order by_pair entry heap book filled cycles =
     (case simulate_full_cycle book (ce_ab entry) (ce_bc entry) (ce_ca entry) of
        None \<Rightarrow> None
      | Some None \<Rightarrow>
          (case try_build_entry book (ce_triangle entry) of
             None \<Rightarrow> None
           | Some (None, book') \<Rightarrow> Some (heap, book', filled, cycles)
           | Some (Some fresh_entry, book') \<Rightarrow> Some (fresh_entry # heap, book', filled, cycles))
      | Some (Some simulation) \<Rightarrow>
          if sim_surplus_usd simulation \<noteq> ce_surplus_usd entry then
            (if sim_surplus_usd simulation > 0 then
               Some (entry\<lparr>ce_surplus_usd := sim_surplus_usd simulation\<rparr> # heap, book, filled, cycles)
             else Some (heap, book, filled, cycles))
          else
            (case execute_cycle book entry (sim_fills simulation) filled of
               (False, book', filled') \<Rightarrow> Some (heap, book', filled', cycles)
             | (True, book', filled') \<Rightarrow>
                 (case refresh_triangles (order (affected_set by_pair (ce_triangle entry))) book' heap of
                    None \<Rightarrow> None
                  | Some (book'', heap') \<Rightarrow> Some (heap', book'', filled', cycles + 1))))"

partial_function (option) cycle_loop ::
  "(CycleEntry list \<Rightarrow> (CycleEntry \<times> CycleEntry list) option) \<Rightarrow> (Triangle set \<Rightarrow> Triangle list)
    \<Rightarrow> (Pair \<Rightarrow> Triangle list option) \<Rightarrow> CycleEntry list \<Rightarrow> OrderBook \<Rightarrow> OrderId set \<Rightarrow> u64
    \<Rightarrow> (OrderBook \<times> OrderId set \<times> u64) option" where
  "cycle_loop pop order by_pair heap book filled cycles =
     (case pop heap of
        None \<Rightarrow> Some (book, filled, cycles)
      | Some (entry, heap1) \<Rightarrow>
        (case cycle_body order by_pair entry heap1 book filled cycles of
           None \<Rightarrow> None
         | Some (heap', book', filled', cycles') \<Rightarrow>
             cycle_loop pop order by_pair heap' book' filled' cycles'))"

declare cycle_loop.simps [code]

definition run_three_edge_cycle ::
  "(CycleEntry list \<Rightarrow> (CycleEntry \<times> CycleEntry list) option) \<Rightarrow> (TokenId set \<Rightarrow> TokenId list)
    \<Rightarrow> (Triangle set \<Rightarrow> Triangle list) \<Rightarrow> OrderBook \<Rightarrow> OrderId set \<Rightarrow> (OrderBook \<times> OrderId set \<times> u64) option" where
  "run_three_edge_cycle pop order_t order_tri book filled =
     (case enumerate_triangles order_t book of
        None \<Rightarrow> None
      | Some st \<Rightarrow> cycle_loop pop order_tri (es_by_pair st) (es_entries st) (es_book st) filled 0)"

section \<open>The heap contract\<close>

locale max_heap =
  fixes pop :: "CycleEntry list \<Rightarrow> (CycleEntry \<times> CycleEntry list) option"
  assumes pop_Nil: "pop [] = None"
    and pop_Cons: "h \<noteq> [] \<Longrightarrow> \<exists>e h'. pop h = Some (e, h') \<and> mset h = add_mset e (mset h')
      \<and> (\<forall>x \<in> set h. ce_surplus_usd x \<le> ce_surplus_usd e)"
begin

lemma pop_NoneD: "pop h = None \<longleftrightarrow> h = []"
  using pop_Nil pop_Cons [of h] by fastforce

lemma pop_SomeD:
  assumes "pop h = Some (e, h')"
  shows "mset h = add_mset e (mset h')" "\<forall>x \<in> set h. ce_surplus_usd x \<le> ce_surplus_usd e"
  using assms pop_Nil pop_Cons [of h] by (cases "h = []"; force)+

end

text \<open>One implementation of the contract: the first maximal entry.\<close>

fun heap_max :: "CycleEntry \<Rightarrow> CycleEntry list \<Rightarrow> CycleEntry" where
  "heap_max e [] = e"
| "heap_max e (x # xs) = heap_max (if ce_surplus_usd e < ce_surplus_usd x then x else e) xs"

definition pop_first :: "CycleEntry list \<Rightarrow> (CycleEntry \<times> CycleEntry list) option" where
  "pop_first h = (case h of [] \<Rightarrow> None | x # xs \<Rightarrow> (let e = heap_max x xs in Some (e, remove1 e h)))"

lemma heap_max_in: "heap_max e xs \<in> set (e # xs)"
  by (induction xs arbitrary: e) (auto split: if_splits)

lemma heap_max_ge: "x \<in> set (e # xs) \<Longrightarrow> ce_surplus_usd x \<le> ce_surplus_usd (heap_max e xs)"
proof (induction xs arbitrary: e x)
  case (Cons y ys)
  let ?m = "if ce_surplus_usd e < ce_surplus_usd y then y else e"
  have "ce_surplus_usd ?m \<le> ce_surplus_usd (heap_max ?m ys)"
    using Cons.IH [of ?m ?m] by simp
  moreover have "x \<in> set ys \<Longrightarrow> ce_surplus_usd x \<le> ce_surplus_usd (heap_max ?m ys)"
    using Cons.IH [of x ?m] by simp
  ultimately show ?case
    using Cons.prems by (auto split: if_splits)
qed simp

interpretation first_heap: max_heap pop_first
proof unfold_locales
  fix h :: "CycleEntry list"
  show "pop_first [] = None"
    by (simp add: pop_first_def)
  assume "h \<noteq> []"
  then obtain x xs where h: "h = x # xs" by (cases h) auto
  let ?e = "heap_max x xs"
  have "?e \<in># mset h"
    using heap_max_in [of x xs] by (simp add: h)
  then have "mset h = add_mset ?e (mset (remove1 ?e h))"
    by simp
  moreover have "\<forall>y \<in> set h. ce_surplus_usd y \<le> ce_surplus_usd ?e"
    using heap_max_ge [of _ x xs] by (simp add: h)
  moreover have "pop_first h = Some (?e, remove1 ?e h)"
    by (simp add: pop_first_def h Let_def)
  ultimately show "\<exists>e h'. pop_first h = Some (e, h') \<and> mset h = add_mset e (mset h')
      \<and> (\<forall>x \<in> set h. ce_surplus_usd x \<le> ce_surplus_usd e)"
    by blast
qed

end
