(* ===== verification/Three_Edge_Props.thy ===== *)
theory Three_Edge_Props
  imports Three_Edge_Cycle
begin

text \<open>
  Correctness of the triangular phase: the amounts of a simulated cycle, the
  effect of executing it on the book and on the settlement flow, and the
  termination of the heap loop for every heap and every walk over the hash sets.
\<close>

section \<open>The amounts of a cycle\<close>

lemma fill_leg_eq: "fill_leg ord x = (min x (requested_remaining ord), offered_for ord (min x (requested_remaining ord)))"
  by (simp add: fill_leg_def Let_def)

lemma simulate_cycle_fills_Some:
  assumes "simulate_cycle_fills l0 l1 l2 = Some ((f0, r0), (f1, r1), (f2, r2))"
  shows "f0 = requested_remaining l0" "f1 \<le> requested_remaining l1" "f2 \<le> requested_remaining l2"
    "r0 = offered_for l0 f0" "r1 = offered_for l1 f1" "r2 = offered_for l2 f2"
    "f1 \<le> r0" "f2 \<le> r1" "f0 \<noteq> 0" "f1 \<noteq> 0" "f2 \<noteq> 0"
  using assms by (auto simp: simulate_cycle_fills_def fill_leg_eq Let_def split: if_splits)

lemma cycle_amounts_Some:
  assumes "cycle_amounts ab bc ca bn = Some ((ra, fa), (rb, fb), (rc, fc))"
  shows "ra = offered_for ab fb" "rb = offered_for bc fc" "rc = offered_for ca fa"
    "fb \<le> requested_remaining ab" "fc \<le> requested_remaining bc" "fa \<le> requested_remaining ca"
    "fa \<noteq> 0" "fb \<noteq> 0" "fc \<noteq> 0"
    "case bn of AB \<Rightarrow> fa \<le> ra \<and> fc \<le> rc | BC \<Rightarrow> fa \<le> ra \<and> fb \<le> rb | CA \<Rightarrow> fb \<le> rb \<and> fc \<le> rc"
proof -
  have "(ra = offered_for ab fb \<and> rb = offered_for bc fc \<and> rc = offered_for ca fa)
    \<and> (fb \<le> requested_remaining ab \<and> fc \<le> requested_remaining bc \<and> fa \<le> requested_remaining ca)
    \<and> (fa \<noteq> 0 \<and> fb \<noteq> 0 \<and> fc \<noteq> 0)
    \<and> (case bn of AB \<Rightarrow> fa \<le> ra \<and> fc \<le> rc | BC \<Rightarrow> fa \<le> ra \<and> fb \<le> rb | CA \<Rightarrow> fb \<le> rb \<and> fc \<le> rc)"
  proof (cases bn)
    case AB
    then have "simulate_cycle_fills ab ca bc = Some ((fb, ra), (fa, rc), (fc, rb))"
      using assms by (auto simp: cycle_amounts_def split: option.splits)
    from simulate_cycle_fills_Some [OF this] AB show ?thesis
      by simp
  next
    case BC
    then have "simulate_cycle_fills bc ab ca = Some ((fc, rb), (fb, ra), (fa, rc))"
      using assms by (auto simp: cycle_amounts_def split: option.splits)
    from simulate_cycle_fills_Some [OF this] BC show ?thesis
      by simp
  next
    case CA
    then have "simulate_cycle_fills ca bc ab = Some ((fa, rc), (fc, rb), (fb, ra))"
      using assms by (auto simp: cycle_amounts_def split: option.splits)
    from simulate_cycle_fills_Some [OF this] CA show ?thesis
      by simp
  qed
  then show "ra = offered_for ab fb" "rb = offered_for bc fc" "rc = offered_for ca fa"
    "fb \<le> requested_remaining ab" "fc \<le> requested_remaining bc" "fa \<le> requested_remaining ca"
    "fa \<noteq> 0" "fb \<noteq> 0" "fc \<noteq> 0"
    "case bn of AB \<Rightarrow> fa \<le> ra \<and> fc \<le> rc | BC \<Rightarrow> fa \<le> ra \<and> fb \<le> rb | CA \<Rightarrow> fb \<le> rb \<and> fc \<le> rc"
    by blast+
qed

lemma simulate_cycle_Some:
  assumes "simulate_cycle ab bc ca bn = Some fr"
  shows "cycle_amounts ab bc ca bn = Some ((offered_for ab (fill_b fr), fill_a fr),
      (offered_for bc (fill_c fr), fill_b fr), (offered_for ca (fill_a fr), fill_c fr))"
    "surplus_a fr = saturating_sub (offered_for ab (fill_b fr)) (fill_a fr)"
    "surplus_b fr = saturating_sub (offered_for bc (fill_c fr)) (fill_b fr)"
    "surplus_c fr = saturating_sub (offered_for ca (fill_a fr)) (fill_c fr)"
proof -
  obtain ra fa rb fb rc fc where c: "cycle_amounts ab bc ca bn = Some ((ra, fa), (rb, fb), (rc, fc))"
    using assms by (auto simp: simulate_cycle_def split: option.splits prod.splits)
  note D = cycle_amounts_Some [OF c]
  show "cycle_amounts ab bc ca bn = Some ((offered_for ab (fill_b fr), fill_a fr),
      (offered_for bc (fill_c fr), fill_b fr), (offered_for ca (fill_a fr), fill_c fr))"
    "surplus_a fr = saturating_sub (offered_for ab (fill_b fr)) (fill_a fr)"
    "surplus_b fr = saturating_sub (offered_for bc (fill_c fr)) (fill_b fr)"
    "surplus_c fr = saturating_sub (offered_for ca (fill_a fr)) (fill_c fr)"
    using assms c D by (auto simp: simulate_cycle_def)
qed

lemma simulate_orders_Some:
  assumes "simulate_orders f ab bc ca = Some sim"
  obtains bn where "simulate_cycle ab bc ca bn = Some (sim_fills sim)"
    "is_active ab" "is_active bc" "is_active ca"
    "f (offered_token ab) \<noteq> None" "f (requested_token ab) \<noteq> None" "f (requested_token bc) \<noteq> None"
proof -
  have act: "is_active ab" "is_active bc" "is_active ca"
    using assms by (simp_all add: simulate_orders_def split: if_splits)
  obtain pa pb pc where pr: "f (offered_token ab) = Some pa" "f (requested_token ab) = Some pb"
      "f (requested_token bc) = Some pc"
    using assms act by (auto simp: simulate_orders_def split: option.splits)
  define bn where "bn = find_bottleneck (as_u128 (requested_remaining ab) * as_u128 pb)
    (as_u128 (requested_remaining bc) * as_u128 pc) (as_u128 (requested_remaining ca) * as_u128 pa)"
  have "simulate_cycle ab bc ca bn = Some (sim_fills sim)"
    using assms act unfolding simulate_orders_def pr Let_def
    by (cases "simulate_cycle ab bc ca bn") (auto simp flip: bn_def split: if_splits)
  with act pr show thesis
    by (intro that) simp_all
qed

section \<open>Heap entries\<close>

definition tri_ok :: "Triangle \<Rightarrow> bool" where
  "tri_ok t \<longleftrightarrow> distinct (triangle_pairs t)"

definition entry_ok :: "OrderBook \<Rightarrow> CycleEntry \<Rightarrow> bool" where
  "entry_ok bk e \<longleftrightarrow> tri_ok (ce_triangle e)
     \<and> (\<exists>ab bc ca. orders bk (ce_ab e) = Some ab \<and> orders bk (ce_bc e) = Some bc \<and> orders bk (ce_ca e) = Some ca
          \<and> parked bk (ce_ab e) = None \<and> parked bk (ce_bc e) = None \<and> parked bk (ce_ca e) = None
          \<and> map order_pair [ab, bc, ca] = triangle_pairs (ce_triangle e))"

text \<open>An entry is accurate when its surplus is what the current book gives.\<close>

definition accurate :: "OrderBook \<Rightarrow> CycleEntry \<Rightarrow> bool" where
  "accurate bk e \<longleftrightarrow>
     (\<exists>sim. simulate_full_cycle bk (ce_ab e) (ce_bc e) (ce_ca e) = Some (Some sim)
        \<and> sim_surplus_usd sim = ce_surplus_usd e)"

lemma canonical_ok: "c \<noteq> a \<Longrightarrow> c \<noteq> b \<Longrightarrow> tri_ok (canonical a b c)"
  by (auto simp: tri_ok_def canonical_def triangle_pairs_def)

lemma simulate_full_cycle_ok:
  "entry_ok bk e \<Longrightarrow> \<exists>r. simulate_full_cycle bk (ce_ab e) (ce_bc e) (ce_ca e) = Some r"
  by (auto simp: entry_ok_def simulate_full_cycle_def)

lemma try_build_entry_wf:
  assumes "wf_book bk"
  obtains r where "try_build_entry bk t = Some (r, bk)"
    "\<And>e. r = Some e \<Longrightarrow> tri_ok t \<Longrightarrow> entry_ok bk e \<and> accurate bk e"
proof -
  let ?a = "token_id_a t" and ?b = "token_id_b t" and ?c = "token_id_c t"
  note bp = best_order_pair [OF assms]
  consider "fst (best_order ?a ?b bk) = None" | x where "fst (best_order ?a ?b bk) = Some x" "fst (best_order ?b ?c bk) = None"
    | x y where "fst (best_order ?a ?b bk) = Some x" "fst (best_order ?b ?c bk) = Some y" "fst (best_order ?c ?a bk) = None"
    | x y z where "fst (best_order ?a ?b bk) = Some x" "fst (best_order ?b ?c bk) = Some y" "fst (best_order ?c ?a bk) = Some z"
    by (metis option.exhaust)
  then show thesis
  proof cases
    case 1
    have "try_build_entry bk t = Some (None, bk)"
      by (simp add: try_build_entry_def bp [OF 1])
    then show ?thesis
      using that by blast
  next
    case 2
    have "try_build_entry bk t = Some (None, bk)"
      by (simp add: try_build_entry_def bp [OF 2(1)] bp [OF 2(2)])
    then show ?thesis
      using that by blast
  next
    case 3
    have "try_build_entry bk t = Some (None, bk)"
      by (simp add: try_build_entry_def bp [OF 3(1)] bp [OF 3(2)] bp [OF 3(3)])
    then show ?thesis
      using that by blast
  next
    case 4
    note l = direct_step_live [OF assms 4(1)] direct_step_live [OF assms 4(2)] direct_step_live [OF assms 4(3)]
    have sim: "simulate_full_cycle bk (order_id x) (order_id y) (order_id z) = Some (simulate_orders (feed bk) x y z)"
      using l by (simp add: simulate_full_cycle_def)
    show ?thesis
    proof (cases "unprofitable x y z \<or> simulate_orders (feed bk) x y z = None
        \<or> (\<exists>s. simulate_orders (feed bk) x y z = Some s \<and> sim_surplus_usd s = 0)")
      case True
      then have "try_build_entry bk t = Some (None, bk)"
        using l by (auto simp: try_build_entry_def bp [OF 4(1)] bp [OF 4(2)] bp [OF 4(3)] sim)
      then show ?thesis
        using that by blast
    next
      case False
      then obtain s where s: "simulate_orders (feed bk) x y z = Some s" "sim_surplus_usd s \<noteq> 0" by auto
      let ?e = "\<lparr>ce_triangle = t, ce_ab = order_id x, ce_bc = order_id y, ce_ca = order_id z,
        ce_surplus_usd = sim_surplus_usd s\<rparr>"
      have "try_build_entry bk t = Some (Some ?e, bk)"
        using False l s by (simp add: try_build_entry_def bp [OF 4(1)] bp [OF 4(2)] bp [OF 4(3)] sim)
      moreover have "accurate bk ?e"
        using sim s by (simp add: accurate_def)
      moreover have "entry_ok bk ?e" if "tri_ok t"
        using that l by (simp add: entry_ok_def order_pair_def triangle_pairs_def)
      ultimately show ?thesis
        using that by blast
    qed
  qed
qed

section \<open>Executing a cycle\<close>

lemma book_rel_fill:
  assumes "orders bk i = Some ord" "x \<le> requested_remaining ord" "x \<noteq> 0" "order_pair ord \<in> P"
  shows "book_rel P bk F
    (bk\<lparr>orders := (orders bk)(i \<mapsto> ord\<lparr>requested_remaining := requested_remaining ord - x\<rparr>)\<rparr>) (insert i F)"
proof -
  let ?r = "requested_remaining ord - x"
  have less: "?r < requested_remaining ord"
    by (rule word_less_sub_nonzero [OF assms(2,3)])
  then have "order_rel P F (insert i F) j o' (((orders bk)(i \<mapsto> ord\<lparr>requested_remaining := ?r\<rparr>)) j)"
    if "orders bk j = Some o'" for j o'
    using that assms(1,4) unfolding order_rel_def
    by (intro exI [of _ "if j = i then ?r else requested_remaining o'"]) (auto simp: less_imp_le)
  then show ?thesis
    using assms(1) by (auto simp: book_rel_def)
qed

lemma book_rel_same_orders:
  assumes "orders bk' = orders bk" "feed bk' = feed bk" "parked bk' = parked bk"
    and "\<And>p. p \<notin> P \<Longrightarrow> levels_of bk' p = levels_of bk p" "F \<noteq> {}"
  shows "book_rel P bk F bk' F"
  using assms by (auto simp: book_rel_def order_rel_def intro!: exI [of _ "requested_remaining _"])

lemma book_rel_cleanup:
  assumes "\<And>ord. orders bk i = Some ord \<Longrightarrow> order_pair ord \<in> P" "F \<noteq> {}"
  shows "book_rel P bk F (cleanup_if_filled i bk) F"
  using assms by (intro book_rel_same_orders levels_of_cleanup) auto

lemma book_rel_balance: "F \<noteq> {} \<Longrightarrow> book_rel P bk F (add_protocol_balance t x bk) F"
  by (rule book_rel_same_orders) simp_all

lemma fill_order_eq:
  assumes "orders bk i = Some ord" "x \<le> requested_remaining ord"
  shows "fill_order i x bk
    = Some (bk\<lparr>orders := (orders bk)(i \<mapsto> ord\<lparr>requested_remaining := requested_remaining ord - x\<rparr>)\<rparr>)"
  using assms by (simp add: fill_order_def fill_eq min_absorb1)

text \<open>The three fills of a cycle, as the book between the fills and the cleanup.\<close>

definition cycle_filled :: "OrderBook \<Rightarrow> CycleEntry \<Rightarrow> Order \<Rightarrow> Order \<Rightarrow> Order \<Rightarrow> FillResult \<Rightarrow> OrderBook" where
  "cycle_filled bk e ab bc ca fr = bk\<lparr>orders := (orders bk)
     (ce_ab e \<mapsto> ab\<lparr>requested_remaining := requested_remaining ab - fill_b fr\<rparr>,
      ce_ca e \<mapsto> ca\<lparr>requested_remaining := requested_remaining ca - fill_a fr\<rparr>,
      ce_bc e \<mapsto> bc\<lparr>requested_remaining := requested_remaining bc - fill_c fr\<rparr>)\<rparr>"

definition cycle_settled :: "OrderBook \<Rightarrow> CycleEntry \<Rightarrow> FillResult \<Rightarrow> OrderBook" where
  "cycle_settled bk e fr =
     add_protocol_balance (token_id_c (ce_triangle e)) (surplus_c fr)
       (add_protocol_balance (token_id_b (ce_triangle e)) (surplus_b fr)
         (add_protocol_balance (token_id_a (ce_triangle e)) (surplus_a fr)
           (cleanup_if_filled (ce_bc e) (cleanup_if_filled (ce_ca e) (cleanup_if_filled (ce_ab e) bk)))))"

lemma entry_okE:
  assumes "entry_ok bk e"
  obtains ab bc ca where "orders bk (ce_ab e) = Some ab" "orders bk (ce_bc e) = Some bc" "orders bk (ce_ca e) = Some ca"
    "parked bk (ce_ab e) = None" "parked bk (ce_bc e) = None" "parked bk (ce_ca e) = None"
    "order_pair ab = (token_id_a (ce_triangle e), token_id_b (ce_triangle e))"
    "order_pair bc = (token_id_b (ce_triangle e), token_id_c (ce_triangle e))"
    "order_pair ca = (token_id_c (ce_triangle e), token_id_a (ce_triangle e))"
    "ce_ab e \<noteq> ce_bc e" "ce_ab e \<noteq> ce_ca e" "ce_bc e \<noteq> ce_ca e"
proof -
  obtain ab bc ca where o: "orders bk (ce_ab e) = Some ab" "orders bk (ce_bc e) = Some bc" "orders bk (ce_ca e) = Some ca"
      and p: "parked bk (ce_ab e) = None" "parked bk (ce_bc e) = None" "parked bk (ce_ca e) = None"
      and m: "map order_pair [ab, bc, ca] = triangle_pairs (ce_triangle e)" "distinct (triangle_pairs (ce_triangle e))"
    using assms by (auto simp: entry_ok_def tri_ok_def)
  have "distinct (map order_pair [ab, bc, ca])"
    using m by simp
  then have "order_pair ab \<noteq> order_pair bc" "order_pair ab \<noteq> order_pair ca" "order_pair bc \<noteq> order_pair ca"
    by simp_all
  then have ne: "ce_ab e \<noteq> ce_bc e" "ce_ab e \<noteq> ce_ca e" "ce_bc e \<noteq> ce_ca e"
    using o by auto
  show thesis
    by (rule that [OF o p _ _ _ ne]) (use m(1) in \<open>simp_all add: triangle_pairs_def\<close>)
qed

lemma cycle_fill_bounds:
  assumes "simulate_cycle ab bc ca bn = Some fr"
  shows "fill_b fr \<le> requested_remaining ab" "fill_c fr \<le> requested_remaining bc" "fill_a fr \<le> requested_remaining ca"
    "fill_a fr \<noteq> 0" "fill_b fr \<noteq> 0" "fill_c fr \<noteq> 0"
  using cycle_amounts_Some(4-9) [OF simulate_cycle_Some(1) [OF assms]] by simp_all

lemma execute_cycle_eq:
  assumes "orders bk (ce_ab e) = Some ab" "orders bk (ce_bc e) = Some bc" "orders bk (ce_ca e) = Some ca"
    and "ce_ab e \<noteq> ce_bc e" "ce_ab e \<noteq> ce_ca e" "ce_bc e \<noteq> ce_ca e"
    and "simulate_cycle ab bc ca bn = Some fr"
  shows "execute_cycle bk e fr F = (True, cycle_settled (cycle_filled bk e ab bc ca fr) e fr,
    insert (ce_bc e) (insert (ce_ca e) (insert (ce_ab e) F)))"
proof -
  note B = cycle_fill_bounds [OF assms(7)]
  show ?thesis
    using assms(1-6) B
    by (simp add: execute_cycle_def fill_order_eq Let_def cycle_settled_def cycle_filled_def)
qed

lemma wf_order_remaining_le: "wf_order ord \<Longrightarrow> x \<le> requested_remaining ord
    \<Longrightarrow> requested_remaining ord - x \<le> requested ord"
  unfolding wf_order_def by (blast intro: order.trans [OF word_diff_le])

lemma wf_book_cycle:
  assumes wf: "wf_book bk"
    and o: "orders bk (ce_ab e) = Some ab" "orders bk (ce_bc e) = Some bc" "orders bk (ce_ca e) = Some ca"
    and np: "parked bk (ce_ab e) = None" "parked bk (ce_bc e) = None" "parked bk (ce_ca e) = None"
    and ne: "ce_ab e \<noteq> ce_bc e" "ce_ab e \<noteq> ce_ca e" "ce_bc e \<noteq> ce_ca e"
    and act: "is_active ab" "is_active bc" "is_active ca"
    and sc: "simulate_cycle ab bc ca bn = Some fr"
  shows "wf_book (cycle_settled (cycle_filled bk e ab bc ca fr) e fr)"
proof -
  note B = cycle_fill_bounds [OF sc] and S = wf_bookD(1) [OF wf]
  note wfo = store_okD(5) [OF S]
  have "wf_upto {} bk"
    using wf by (simp add: wf_upto_empty)
  from wf_upto_fill [OF this o(1) act(1) np(1) wf_order_remaining_le [OF wfo [OF o(1)] B(1)]]
  have 1: "wf_upto {ce_ab e} (bk\<lparr>orders := (orders bk)(ce_ab e \<mapsto>
      ab\<lparr>requested_remaining := requested_remaining ab - fill_b fr\<rparr>)\<rparr>)" (is "wf_upto _ ?b1") .
  have 2: "wf_upto {ce_ca e, ce_ab e} (?b1\<lparr>orders := (orders ?b1)(ce_ca e \<mapsto>
      ca\<lparr>requested_remaining := requested_remaining ca - fill_a fr\<rparr>)\<rparr>)" (is "wf_upto _ ?b2")
    by (rule wf_upto_fill [OF 1 _ act(3) _ wf_order_remaining_le [OF wfo [OF o(3)] B(3)]])
      (use o np ne in simp_all)
  have 3: "wf_upto {ce_bc e, ce_ca e, ce_ab e} (?b2\<lparr>orders := (orders ?b2)(ce_bc e \<mapsto>
      bc\<lparr>requested_remaining := requested_remaining bc - fill_c fr\<rparr>)\<rparr>)" (is "wf_upto _ ?b3")
    by (rule wf_upto_fill [OF 2 _ act(2) _ wf_order_remaining_le [OF wfo [OF o(2)] B(2)]])
      (use o np ne in simp_all)
  have b3: "cycle_filled bk e ab bc ca fr = ?b3"
    by (simp add: cycle_filled_def)
  have "wf_upto ({ce_bc e, ce_ca e, ce_ab e} - {ce_ab e} - {ce_ca e} - {ce_bc e})
      (cleanup_if_filled (ce_bc e) (cleanup_if_filled (ce_ca e) (cleanup_if_filled (ce_ab e) ?b3)))"
    by (intro wf_upto_cleanup 3) (use ne in auto)
  moreover have "{ce_bc e, ce_ca e, ce_ab e} - {ce_ab e} - {ce_ca e} - {ce_bc e} = {}"
    by auto
  ultimately have "wf_upto {} (cycle_settled ?b3 e fr)"
    unfolding cycle_settled_def by (intro wf_upto_add_protocol_balance) simp
  then show ?thesis
    by (simp add: b3 wf_upto_empty)
qed

lemma book_rel_cycle:
  assumes o: "orders bk (ce_ab e) = Some ab" "orders bk (ce_bc e) = Some bc" "orders bk (ce_ca e) = Some ca"
    and ne: "ce_ab e \<noteq> ce_bc e" "ce_ab e \<noteq> ce_ca e" "ce_bc e \<noteq> ce_ca e"
    and P: "order_pair ab \<in> P" "order_pair bc \<in> P" "order_pair ca \<in> P"
    and sc: "simulate_cycle ab bc ca bn = Some fr"
  shows "book_rel P bk F (cycle_settled (cycle_filled bk e ab bc ca fr) e fr)
    (insert (ce_bc e) (insert (ce_ca e) (insert (ce_ab e) F)))"
proof -
  note B = cycle_fill_bounds [OF sc]
  let ?b1 = "bk\<lparr>orders := (orders bk)(ce_ab e \<mapsto> ab\<lparr>requested_remaining := requested_remaining ab - fill_b fr\<rparr>)\<rparr>"
  let ?b2 = "?b1\<lparr>orders := (orders ?b1)(ce_ca e \<mapsto> ca\<lparr>requested_remaining := requested_remaining ca - fill_a fr\<rparr>)\<rparr>"
  let ?b3 = "?b2\<lparr>orders := (orders ?b2)(ce_bc e \<mapsto> bc\<lparr>requested_remaining := requested_remaining bc - fill_c fr\<rparr>)\<rparr>"
  have b3: "cycle_filled bk e ab bc ca fr = ?b3"
    by (simp add: cycle_filled_def)
  have 1: "book_rel P bk F ?b1 (insert (ce_ab e) F)"
    by (rule book_rel_fill [OF o(1) B(1,5) P(1)])
  have 2: "book_rel P ?b1 (insert (ce_ab e) F) ?b2 (insert (ce_ca e) (insert (ce_ab e) F))"
    by (rule book_rel_fill [OF _ B(3,4) P(3)]) (use o ne in simp)
  have 3: "book_rel P ?b2 (insert (ce_ca e) (insert (ce_ab e) F)) ?b3
      (insert (ce_bc e) (insert (ce_ca e) (insert (ce_ab e) F)))"
    by (rule book_rel_fill [OF _ B(2,6) P(2)]) (use o ne in simp)
  let ?F = "insert (ce_bc e) (insert (ce_ca e) (insert (ce_ab e) F))"
  have "book_rel P ?b3 ?F (cycle_settled ?b3 e fr) ?F"
    unfolding cycle_settled_def
    by (rule book_rel_trans [OF _ book_rel_balance], rule book_rel_trans [OF _ book_rel_balance],
        rule book_rel_trans [OF _ book_rel_balance], rule book_rel_trans [OF _ book_rel_cleanup],
        rule book_rel_trans [OF _ book_rel_cleanup], rule book_rel_cleanup)
      (use P ne in \<open>auto split: if_splits\<close>)
  from book_rel_trans [OF book_rel_trans [OF book_rel_trans [OF 1 2] 3] this] show ?thesis
    by (simp add: b3)
qed

lemma cycle_remaining_less:
  assumes wf: "wf_book bk"
    and o: "orders bk (ce_ab e) = Some ab" "orders bk (ce_bc e) = Some bc" "orders bk (ce_ca e) = Some ca"
    and ne: "ce_ab e \<noteq> ce_bc e" "ce_ab e \<noteq> ce_ca e" "ce_bc e \<noteq> ce_ca e"
    and sc: "simulate_cycle ab bc ca bn = Some fr"
  shows "total_remaining (cycle_settled (cycle_filled bk e ab bc ca fr) e fr) < total_remaining bk"
proof -
  note B = cycle_fill_bounds [OF sc]
  have fin: "finite (dom (orders bk))"
    using wf by (auto dest: wf_bookD(1) store_okD(1))
  let ?b1 = "bk\<lparr>orders := (orders bk)(ce_ab e \<mapsto> ab\<lparr>requested_remaining := requested_remaining ab - fill_b fr\<rparr>)\<rparr>"
  let ?b2 = "?b1\<lparr>orders := (orders ?b1)(ce_ca e \<mapsto> ca\<lparr>requested_remaining := requested_remaining ca - fill_a fr\<rparr>)\<rparr>"
  let ?b3 = "?b2\<lparr>orders := (orders ?b2)(ce_bc e \<mapsto> bc\<lparr>requested_remaining := requested_remaining bc - fill_c fr\<rparr>)\<rparr>"
  have "total_remaining ?b1 < total_remaining bk"
    by (rule total_remaining_upd [OF fin o(1) B(1,5)])
  moreover have "total_remaining ?b2 < total_remaining ?b1"
    by (rule total_remaining_upd [OF _ _ B(3,4)]) (use fin o ne in simp_all)
  moreover have "total_remaining ?b3 < total_remaining ?b2"
    by (rule total_remaining_upd [OF _ _ B(2,6)]) (use fin o ne in simp_all)
  moreover have "total_remaining (cycle_settled (cycle_filled bk e ab bc ca fr) e fr) = total_remaining ?b3"
    by (rule total_remaining_cong) (simp add: cycle_settled_def cycle_filled_def)
  ultimately show ?thesis
    by linarith
qed

lemma cycle_net_flow:
  assumes wf: "wf_book bk"
    and o: "orders bk (ce_ab e) = Some ab" "orders bk (ce_bc e) = Some bc" "orders bk (ce_ca e) = Some ca"
    and ne: "ce_ab e \<noteq> ce_bc e" "ce_ab e \<noteq> ce_ca e" "ce_bc e \<noteq> ce_ca e"
    and pa: "order_pair ab = (a, b)" "order_pair bc = (b, c)" "order_pair ca = (c, a)"
    and sc: "simulate_cycle ab bc ca bn = Some fr"
  shows "net_flow bk t
      + (if a = t then int (unat (offered_for ab (fill_b fr))) - int (unat (fill_a fr)) else 0)
      + (if b = t then int (unat (offered_for bc (fill_c fr))) - int (unat (fill_b fr)) else 0)
      + (if c = t then int (unat (offered_for ca (fill_a fr))) - int (unat (fill_c fr)) else 0)
    \<le> net_flow (cycle_settled (cycle_filled bk e ab bc ca fr) e fr) t"
proof -
  note B = cycle_fill_bounds [OF sc] and S = wf_bookD(1) [OF wf]
  note fin = store_okD(1) [OF S] and wfo = store_okD(5) [OF S]
  let ?b1 = "bk\<lparr>orders := (orders bk)(ce_ab e \<mapsto> ab\<lparr>requested_remaining := requested_remaining ab - fill_b fr\<rparr>)\<rparr>"
  let ?b2 = "?b1\<lparr>orders := (orders ?b1)(ce_ca e \<mapsto> ca\<lparr>requested_remaining := requested_remaining ca - fill_a fr\<rparr>)\<rparr>"
  let ?b3 = "?b2\<lparr>orders := (orders ?b2)(ce_bc e \<mapsto> bc\<lparr>requested_remaining := requested_remaining bc - fill_c fr\<rparr>)\<rparr>"
  have tok: "offered_token ab = a" "requested_token ab = b" "offered_token bc = b" "requested_token bc = c"
      "offered_token ca = c" "requested_token ca = a"
    using pa by (simp_all add: order_pair_def)
  note 1 = net_flow_fill [OF fin o(1) wfo [OF o(1)] B(1), of t]
  have 2: "net_flow ?b1 t + (if offered_token ca = t then int (unat (offered_for ca (fill_a fr))) else 0)
      - (if requested_token ca = t then int (unat (fill_a fr)) else 0) \<le> net_flow ?b2 t"
    by (rule net_flow_fill [OF _ _ wfo [OF o(3)] B(3)]) (use fin o ne in simp_all)
  have 3: "net_flow ?b2 t + (if offered_token bc = t then int (unat (offered_for bc (fill_c fr))) else 0)
      - (if requested_token bc = t then int (unat (fill_c fr)) else 0) \<le> net_flow ?b3 t"
    by (rule net_flow_fill [OF _ _ wfo [OF o(2)] B(2)]) (use fin o ne in simp_all)
  have "net_flow (cycle_settled (cycle_filled bk e ab bc ca fr) e fr) t = net_flow ?b3 t"
    by (rule net_flow_cong) (simp add: cycle_settled_def cycle_filled_def)
  with 1 2 3 show ?thesis
    unfolding tok by (auto split: if_splits)
qed

section \<open>The heap loop\<close>

lemma entry_ok_rel:
  assumes "book_rel P bk F bk' F'" "entry_ok bk e"
  shows "entry_ok bk' e"
proof -
  have keep: "\<exists>o'. orders bk' i = Some o' \<and> order_pair o' = order_pair ord" if "orders bk i = Some ord" for i ord
  proof -
    have "order_rel P F F' i ord (orders bk' i)"
      using assms(1) that by (simp add: book_rel_def)
    then show ?thesis
      by (auto simp: order_rel_def)
  qed
  have pk: "parked bk' = parked bk"
    using assms(1) by (simp add: book_rel_def)
  obtain ab bc ca where e: "orders bk (ce_ab e) = Some ab" "orders bk (ce_bc e) = Some bc" "orders bk (ce_ca e) = Some ca"
      "parked bk (ce_ab e) = None" "parked bk (ce_bc e) = None" "parked bk (ce_ca e) = None"
      "map order_pair [ab, bc, ca] = triangle_pairs (ce_triangle e)" "tri_ok (ce_triangle e)"
    using assms(2) by (auto simp: entry_ok_def)
  obtain ab' bc' ca' where "orders bk' (ce_ab e) = Some ab'" "orders bk' (ce_bc e) = Some bc'" "orders bk' (ce_ca e) = Some ca'"
      "order_pair ab' = order_pair ab" "order_pair bc' = order_pair bc" "order_pair ca' = order_pair ca"
    using keep [OF e(1)] keep [OF e(2)] keep [OF e(3)] by blast
  with e pk show ?thesis
    by (simp add: entry_ok_def)
qed

lemma refresh_triangles_ok:
  assumes "wf_book bk" "\<forall>t \<in> set ts. tri_ok t" "\<forall>e \<in> set heap. entry_ok bk e"
  shows "\<exists>heap'. refresh_triangles ts bk heap = Some (bk, heap') \<and> (\<forall>e \<in> set heap'. entry_ok bk e)"
  using assms(2,3)
proof (induction ts arbitrary: heap)
  case (Cons t ts)
  obtain r where r: "try_build_entry bk t = Some (r, bk)"
      "\<forall>e. r = Some e \<and> tri_ok t \<longrightarrow> entry_ok bk e \<and> accurate bk e"
    using try_build_entry_wf [OF assms(1), of t] by metis
  then show ?case
    using Cons.IH [of heap] Cons.IH [of "the r # heap"] Cons.prems by (cases r) auto
qed simp

definition stale_count :: "OrderBook \<Rightarrow> CycleEntry list \<Rightarrow> nat" where
  "stale_count bk heap = size (filter_mset (\<lambda>e. \<not> accurate bk e) (mset heap))"

definition loop_measure :: "((CycleEntry list \<times> OrderBook) \<times> (CycleEntry list \<times> OrderBook)) set" where
  "loop_measure = measures [\<lambda>(h, bk). total_remaining bk, \<lambda>(h, bk). stale_count bk h, \<lambda>(h, bk). length h]"

definition loop_inv :: "(Pair \<Rightarrow> Triangle list option) \<Rightarrow> CycleEntry list \<Rightarrow> OrderBook \<Rightarrow> bool" where
  "loop_inv by_pair heap bk \<longleftrightarrow> wf_book bk \<and> (\<forall>e \<in> set heap. entry_ok bk e)
     \<and> (\<forall>p ts. by_pair p = Some ts \<longrightarrow> (\<forall>t \<in> set ts. tri_ok t))"

lemma affected_set_ok:
  assumes "\<forall>p ts. by_pair p = Some ts \<longrightarrow> (\<forall>t \<in> set ts. tri_ok t)" "walks order"
  shows "\<forall>t \<in> set (order (affected_set by_pair t0)). tri_ok t"
proof -
  have "finite (affected_set by_pair t0)"
    by (simp add: affected_set_def)
  then have "set (order (affected_set by_pair t0)) = affected_set by_pair t0"
    by (rule walksD(2) [OF assms(2)])
  moreover have "\<forall>t \<in> set (unwrap_or_default [] (by_pair p)). tri_ok t" for p
    using assms(1) by (cases "by_pair p") (simp_all add: unwrap_or_default_def del: split_paired_All)
  then have "\<forall>t \<in> affected_set by_pair t0. tri_ok t"
    by (auto simp: affected_set_def)
  ultimately show ?thesis
    by simp
qed

lemma cycle_body_ok:
  assumes ord: "walks order" and inv: "loop_inv by_pair (e # heap) bk"
  shows "\<exists>heap' bk' F' c'. cycle_body order by_pair e heap bk F c = Some (heap', bk', F', c')
    \<and> loop_inv by_pair heap' bk' \<and> ((heap', bk'), (e # heap, bk)) \<in> loop_measure
    \<and> book_rel {p. priced (feed bk) p} bk F bk' F'"
proof -
  have wf: "wf_book bk" and ok: "entry_ok bk e" and oks: "\<forall>x \<in> set heap. entry_ok bk x"
      and bp: "\<forall>p ts. by_pair p = Some ts \<longrightarrow> (\<forall>t \<in> set ts. tri_ok t)"
    using inv by (simp_all add: loop_inv_def)
  obtain r where r: "simulate_full_cycle bk (ce_ab e) (ce_bc e) (ce_ca e) = Some r"
    using simulate_full_cycle_ok [OF ok] by blast
  show ?thesis
  proof (cases r)
    case None
    then have na: "\<not> accurate bk e"
      using r by (simp add: accurate_def)
    obtain q where q: "try_build_entry bk (ce_triangle e) = Some (q, bk)"
        "\<forall>x. q = Some x \<and> tri_ok (ce_triangle e) \<longrightarrow> entry_ok bk x \<and> accurate bk x"
      using try_build_entry_wf [OF wf, of "ce_triangle e"] by metis
    have "tri_ok (ce_triangle e)"
      using ok by (simp add: entry_ok_def)
    then show ?thesis
      using r None q wf oks bp na
      by (cases q) (auto simp: cycle_body_def loop_inv_def loop_measure_def stale_count_def)
  next
    case (Some sim)
    show ?thesis
    proof (cases "sim_surplus_usd sim = ce_surplus_usd e")
      case False
      then have na: "\<not> accurate bk e"
        using r Some by (simp add: accurate_def)
      have "accurate bk (e\<lparr>ce_surplus_usd := sim_surplus_usd sim\<rparr>)" "entry_ok bk (e\<lparr>ce_surplus_usd := sim_surplus_usd sim\<rparr>)"
        using r Some ok by (simp_all add: accurate_def entry_ok_def)
      with r Some False wf oks bp na show ?thesis
        by (auto simp: cycle_body_def loop_inv_def loop_measure_def stale_count_def)
    next
      case True
      obtain ab bc ca where E: "orders bk (ce_ab e) = Some ab" "orders bk (ce_bc e) = Some bc" "orders bk (ce_ca e) = Some ca"
          "parked bk (ce_ab e) = None" "parked bk (ce_bc e) = None" "parked bk (ce_ca e) = None"
          "order_pair ab = (token_id_a (ce_triangle e), token_id_b (ce_triangle e))"
          "order_pair bc = (token_id_b (ce_triangle e), token_id_c (ce_triangle e))"
          "order_pair ca = (token_id_c (ce_triangle e), token_id_a (ce_triangle e))"
          "ce_ab e \<noteq> ce_bc e" "ce_ab e \<noteq> ce_ca e" "ce_bc e \<noteq> ce_ca e"
        by (rule entry_okE [OF ok])
      have "simulate_orders (feed bk) ab bc ca = Some sim"
        using r Some E by (simp add: simulate_full_cycle_def)
      then obtain bn where sc: "simulate_cycle ab bc ca bn = Some (sim_fills sim)"
          and act: "is_active ab" "is_active bc" "is_active ca"
          and pr: "feed bk (offered_token ab) \<noteq> None" "feed bk (requested_token ab) \<noteq> None" "feed bk (requested_token bc) \<noteq> None"
        by (rule simulate_orders_Some)
      let ?bk' = "cycle_settled (cycle_filled bk e ab bc ca (sim_fills sim)) e (sim_fills sim)"
      let ?F' = "insert (ce_bc e) (insert (ce_ca e) (insert (ce_ab e) F))"
      have ex: "execute_cycle bk e (sim_fills sim) F = (True, ?bk', ?F')"
        by (rule execute_cycle_eq [OF E(1-3) E(10-12) sc])
      have wf': "wf_book ?bk'"
        by (rule wf_book_cycle [OF wf E(1-6) E(10-12) act sc])
      have rel: "book_rel {p. priced (feed bk) p} bk F ?bk' ?F'"
        by (rule book_rel_cycle [OF E(1-3) E(10-12) _ _ _ sc])
          (use E(7-9) pr in \<open>simp_all add: priced_def order_pair_def\<close>)
      have less: "total_remaining ?bk' < total_remaining bk"
        by (rule cycle_remaining_less [OF wf E(1-3) E(10-12) sc])
      obtain heap' where h: "refresh_triangles (order (affected_set by_pair (ce_triangle e))) ?bk' heap = Some (?bk', heap')"
          "\<forall>x \<in> set heap'. entry_ok ?bk' x"
        using refresh_triangles_ok [OF wf' affected_set_ok [OF bp ord], of heap] oks entry_ok_rel [OF rel] by blast
      have "cycle_body order by_pair e heap bk F c = Some (heap', ?bk', ?F', c + 1)"
        using r Some True ex h by (simp add: cycle_body_def)
      moreover have "((heap', ?bk'), (e # heap, bk)) \<in> loop_measure"
        using less by (simp add: loop_measure_def)
      ultimately show ?thesis
        using wf' h rel bp by (auto simp: loop_inv_def)
    qed
  qed
qed

lemma loop_inv_mset: "mset h = mset h' \<Longrightarrow> loop_inv bp h bk = loop_inv bp h' bk"
  by (auto simp: loop_inv_def dest: mset_eq_setD)

lemma loop_measure_mset:
  "mset h = mset h2 \<Longrightarrow> ((h', bk'), (h, bk)) \<in> loop_measure \<longleftrightarrow> ((h', bk'), (h2, bk)) \<in> loop_measure"
  by (auto simp: loop_measure_def stale_count_def dest: mset_eq_length)

text \<open>
  The loop returns: each round either fills something, or turns a stale entry
  into an accurate one, or shrinks the heap.
\<close>

context max_heap
begin

lemma cycle_loop_ok:
  assumes ord: "walks order" and inv: "loop_inv by_pair heap bk"
  shows "\<exists>bk' F' c'. cycle_loop pop order by_pair heap bk F c = Some (bk', F', c')
    \<and> wf_book bk' \<and> book_rel {p. priced (feed bk) p} bk F bk' F'"
proof -
  have "wf loop_measure"
    by (simp add: loop_measure_def)
  then have "loop_inv by_pair (fst s) (snd s) \<Longrightarrow>
    \<exists>bk' F' c'. cycle_loop pop order by_pair (fst s) (snd s) F c = Some (bk', F', c')
    \<and> wf_book bk' \<and> book_rel {p. priced (feed (snd s)) p} (snd s) F bk' F'" for s
  proof (induction s arbitrary: F c rule: wf_induct_rule)
    case (less s)
    obtain h b where s: "s = (h, b)" by (cases s) auto
    show ?case
    proof (cases "pop h")
      case None
      then show ?thesis
        using less.prems by (auto simp: s loop_inv_def cycle_loop.simps [of _ _ _ h] intro: book_rel_refl)
    next
      case (Some eh)
      then obtain e h1 where p: "pop h = Some (e, h1)" by (cases eh) auto
      have m: "mset h = mset (e # h1)"
        using pop_SomeD(1) [OF p] by simp
      have "loop_inv by_pair (e # h1) b"
        using less.prems loop_inv_mset [OF m] by (simp add: s)
      from cycle_body_ok [OF ord this, of F c] obtain h' b' F1 c1 where
          body: "cycle_body order by_pair e h1 b F c = Some (h', b', F1, c1)" and i: "loop_inv by_pair h' b'"
          and l: "((h', b'), (e # h1, b)) \<in> loop_measure" and rel: "book_rel {p. priced (feed b) p} b F b' F1"
        by blast
      have l': "((h', b'), s) \<in> loop_measure"
        using l loop_measure_mset [OF m] by (simp add: s)
      have fd: "feed b' = feed b"
        using rel by (simp add: book_rel_def)
      obtain b2 F2 c2 where n: "cycle_loop pop order by_pair h' b' F1 c1 = Some (b2, F2, c2)" "wf_book b2"
          "book_rel {p. priced (feed b) p} b' F1 b2 F2"
        using less.IH [OF l', of F1 c1] i fd by auto
      have "cycle_loop pop order by_pair h b F c = Some (b2, F2, c2)"
        using p body n(1) by (simp add: cycle_loop.simps [of _ _ _ h])
      then show ?thesis
        using n(2) book_rel_trans [OF rel n(3)] by (auto simp: s)
    qed
  qed
  from this [of "(heap, bk)"] inv show ?thesis
    by simp
qed

end

section \<open>Enumeration\<close>

definition enum_inv :: "OrderBook \<Rightarrow> enum_state \<Rightarrow> bool" where
  "enum_inv bk st \<longleftrightarrow> es_book st = bk \<and> loop_inv (es_by_pair st) (es_entries st) bk"

lemma push_by_pair_ok:
  assumes "\<forall>p ts. m p = Some ts \<longrightarrow> (\<forall>t \<in> set ts. tri_ok t)" "tri_ok t0"
  shows "\<forall>p ts. fold (push_by_pair t0) qs m p = Some ts \<longrightarrow> (\<forall>t \<in> set ts. tri_ok t)"
  using assms(1)
proof (induction qs arbitrary: m)
  case (Cons q qs)
  have "\<forall>p ts. push_by_pair t0 q m p = Some ts \<longrightarrow> (\<forall>t \<in> set ts. tri_ok t)"
    using Cons.prems assms(2)
    by (cases "m q") (auto simp: push_by_pair_def unwrap_or_default_def simp del: split_paired_All)
  from Cons.IH [OF this] show ?case
    by simp
qed simp

lemma enum_outgoing_ok:
  assumes "wf_book bk" "enum_inv bk st"
  shows "\<exists>st'. enum_outgoing a b cs st = Some st' \<and> enum_inv bk st'"
  using assms(2)
proof (induction cs arbitrary: st)
  case (Cons c cs)
  let ?t = "canonical a b c" and ?st1 = "st\<lparr>es_seen := insert (canonical a b c) (es_seen st)\<rparr>"
  show ?case
  proof (cases "c = a \<or> c = b \<or> \<not> has_orders c a (es_book st) \<or> ?t \<in> es_seen st")
    case True
    then show ?thesis
      using Cons by (auto simp: Let_def)
  next
    case False
    then have t: "tri_ok ?t"
      by (simp add: canonical_ok)
    obtain r where r: "try_build_entry bk ?t = Some (r, bk)"
        "\<forall>e. r = Some e \<and> tri_ok ?t \<longrightarrow> entry_ok bk e \<and> accurate bk e"
      using try_build_entry_wf [OF assms(1), of ?t] by metis
    have b: "es_book st = bk"
      using Cons.prems by (simp add: enum_inv_def)
    show ?thesis
    proof (cases r)
      case None
      have "enum_inv bk (?st1\<lparr>es_book := bk\<rparr>)"
        using Cons.prems by (simp add: enum_inv_def)
      from Cons.IH [OF this] False r None b show ?thesis
        by (simp add: Let_def)
    next
      case (Some e)
      have "enum_inv bk (?st1\<lparr>es_book := bk, es_by_pair := fold (push_by_pair ?t) (triangle_pairs ?t) (es_by_pair ?st1),
          es_entries := es_entries ?st1 @ [e]\<rparr>)"
        using Cons.prems r(2) Some t push_by_pair_ok [OF _ t, of "es_by_pair st" "triangle_pairs ?t"]
        by (simp add: enum_inv_def loop_inv_def ball_Un del: split_paired_All)
      from Cons.IH [OF this] False r Some b show ?thesis
        by (simp add: Let_def)
    qed
  qed
qed simp

lemma enum_incoming_ok:
  assumes "wf_book bk" "enum_inv bk st"
  shows "\<exists>st'. enum_incoming b as cs st = Some st' \<and> enum_inv bk st'"
  using assms(2)
proof (induction as arbitrary: st)
  case (Cons a as)
  obtain st1 where "enum_outgoing a b cs st = Some st1" "enum_inv bk st1"
    using enum_outgoing_ok [OF assms(1) Cons.prems] by blast
  with Cons.IH show ?case
    by simp
qed simp

lemma enum_tokens_ok:
  assumes "wf_book bk" "enum_inv bk st"
  shows "\<exists>st'. enum_tokens order bs st = Some st' \<and> enum_inv bk st'"
  using assms(2)
proof (induction bs arbitrary: st)
  case (Cons b bs)
  obtain st1 where "enum_incoming b (incoming_neighbors order b (es_book st)) (neighbors order b (es_book st)) st = Some st1"
      "enum_inv bk st1"
    using enum_incoming_ok [OF assms(1) Cons.prems] by blast
  with Cons.IH show ?case
    by (simp add: Let_def)
qed simp

lemma enumerate_triangles_ok:
  assumes "wf_book bk"
  shows "\<exists>st. enumerate_triangles order bk = Some st \<and> enum_inv bk st"
  unfolding enumerate_triangles_def
  by (rule enum_tokens_ok [OF assms]) (simp add: enum_inv_def loop_inv_def assms)

context max_heap
begin

lemma run_three_edge_cycle_ok:
  assumes "walks order_tri" "wf_book bk"
  shows "\<exists>bk' F' c. run_three_edge_cycle pop order_t order_tri bk F = Some (bk', F', c)
    \<and> wf_book bk' \<and> book_rel {p. priced (feed bk) p} bk F bk' F'"
proof -
  obtain st where "enumerate_triangles order_t bk = Some st" "enum_inv bk st"
    using enumerate_triangles_ok [OF assms(2)] by blast
  with cycle_loop_ok [OF assms(1), of "es_by_pair st" "es_entries st" bk F 0] show ?thesis
    by (simp add: run_three_edge_cycle_def enum_inv_def)
qed

end

section \<open>Sample cycles\<close>

text \<open>The walk over a set of triangles used by the samples is the ascending one.\<close>

instantiation Triangle :: linorder
begin

definition less_eq_Triangle :: "Triangle \<Rightarrow> Triangle \<Rightarrow> bool" where
  "less_eq_Triangle s t \<longleftrightarrow>
     (token_id_a s, token_id_b s, token_id_c s) \<le> (token_id_a t, token_id_b t, token_id_c t)"

definition less_Triangle :: "Triangle \<Rightarrow> Triangle \<Rightarrow> bool" where
  "less_Triangle s t \<longleftrightarrow> s \<le> t \<and> \<not> t \<le> (s::Triangle)"

instance
  by standard (auto simp: less_eq_Triangle_def less_Triangle_def Triangle.expand)

end

text \<open>Three orders in a cycle: in the first book every leg covers the next one, in the second one leg is short.\<close>

definition tri_book :: OrderBook where
  "tri_book = add_user_order 3 3 1 200 100 (add_user_order 2 2 3 200 100
     (add_user_order 1 1 2 200 100 (OrderBook_new sample_feed)))"

definition short_book :: OrderBook where
  "short_book = add_user_order 3 3 1 100 100 (add_user_order 2 2 3 60 100
     (add_user_order 1 1 2 200 100 (OrderBook_new sample_feed)))"

definition tri_entry :: CycleEntry where
  "tri_entry = \<lparr>ce_triangle = Triangle 1 2 3, ce_ab = 1, ce_bc = 2, ce_ca = 3, ce_surplus_usd = 30000\<rparr>"

lemma tri_books_wf: "wf_book tri_book" "wf_book short_book"
  unfolding tri_book_def short_book_def
  by (intro wf_book_add_user_order wf_book_new; simp add: add_user_order_orders)+

lemma tri_books_fresh: "fresh_book tri_book" "fresh_book short_book"
  by (auto simp: fresh_book_def tri_book_def short_book_def add_user_order_def
      OrderBook_new_def index_insert_def Let_def balance_of_def unwrap_or_default_def split: if_splits)

section \<open>Properties of the triangular phase\<close>

lemma balance_cycle:
  "unat (balance_of (cycle_settled bk e fr) t)
     \<le> unat (balance_of bk t) + (if token_id_a (ce_triangle e) = t then unat (surplus_a fr) else 0)
        + (if token_id_b (ce_triangle e) = t then unat (surplus_b fr) else 0)
        + (if token_id_c (ce_triangle e) = t then unat (surplus_c fr) else 0)"
proof -
  let ?b = "cleanup_if_filled (ce_bc e) (cleanup_if_filled (ce_ca e) (cleanup_if_filled (ce_ab e) bk))"
  let ?b1 = "add_protocol_balance (token_id_a (ce_triangle e)) (surplus_a fr) ?b"
  let ?b2 = "add_protocol_balance (token_id_b (ce_triangle e)) (surplus_b fr) ?b1"
  have "balance_of ?b t = balance_of bk t"
    by (simp add: balance_of_def)
  then show ?thesis
    using balance_credit [of "token_id_a (ce_triangle e)" "surplus_a fr" ?b t]
      balance_credit [of "token_id_b (ce_triangle e)" "surplus_b fr" ?b1 t]
      balance_credit [of "token_id_c (ce_triangle e)" "surplus_c fr" ?b2 t]
    by (simp add: cycle_settled_def Let_def)
qed

lemma balance_cycle_filled [simp]: "balance_of (cycle_filled bk e ab bc ca fr) t = balance_of bk t"
  by (simp add: cycle_filled_def balance_of_def)

lemma surplus_int: "y \<le> (x::u64) \<Longrightarrow> int (unat (saturating_sub x y)) = int (unat x) - int (unat y)"
  by (simp add: unat_saturating_sub word_le_nat_alt of_nat_diff)

text \<open>
  C28: an executed cycle keeps the settlement solvent when none of its three tokens is
  short, that is when each leg releases at least what the next leg consumes.
\<close>

theorem execute_cycle_solvent:
  assumes "wf_book bk" "solvent bk" "entry_ok bk e"
    and "orders bk (ce_ab e) = Some ab" "orders bk (ce_bc e) = Some bc" "orders bk (ce_ca e) = Some ca"
    and "simulate_full_cycle bk (ce_ab e) (ce_bc e) (ce_ca e) = Some (Some sim)"
    and "fill_a (sim_fills sim) \<le> offered_for ab (fill_b (sim_fills sim))"
    and "fill_b (sim_fills sim) \<le> offered_for bc (fill_c (sim_fills sim))"
    and "fill_c (sim_fills sim) \<le> offered_for ca (fill_a (sim_fills sim))"
  shows "solvent (fst (snd (execute_cycle bk e (sim_fills sim) F)))"
proof -
  let ?fr = "sim_fills sim" and ?t = "ce_triangle e"
  have p: "order_pair ab = (token_id_a ?t, token_id_b ?t)" "order_pair bc = (token_id_b ?t, token_id_c ?t)"
      "order_pair ca = (token_id_c ?t, token_id_a ?t)"
    and ne: "ce_ab e \<noteq> ce_bc e" "ce_ab e \<noteq> ce_ca e" "ce_bc e \<noteq> ce_ca e"
    by (rule entry_okE [OF assms(3)], use assms(4-6) in simp)+
  have "simulate_orders (feed bk) ab bc ca = Some sim"
    using assms(4-7) by (simp add: simulate_full_cycle_def)
  then obtain bn where sc: "simulate_cycle ab bc ca bn = Some ?fr"
    by (rule simulate_orders_Some)
  let ?bk' = "cycle_settled (cycle_filled bk e ab bc ca ?fr) e ?fr"
  have "int (unat (balance_of ?bk' t)) \<le> net_flow ?bk' t" for t
  proof -
    have s: "int (unat (balance_of bk t)) \<le> net_flow bk t"
      using assms(2) by (simp add: solvent_def)
    have b: "int (unat (balance_of ?bk' t)) \<le> int (unat (balance_of bk t))
        + (if token_id_a ?t = t then int (unat (surplus_a ?fr)) else 0)
        + (if token_id_b ?t = t then int (unat (surplus_b ?fr)) else 0)
        + (if token_id_c ?t = t then int (unat (surplus_c ?fr)) else 0)"
      using balance_cycle [of "cycle_filled bk e ab bc ca ?fr" e ?fr t]
      by (simp split: if_splits)
    show ?thesis
      using cycle_net_flow [OF assms(1,4-6) ne p sc, of t] s b
      unfolding simulate_cycle_Some(2-4) [OF sc] surplus_int [OF assms(8)] surplus_int [OF assms(9)] surplus_int [OF assms(10)]
      by linarith
  qed
  then show ?thesis
    using execute_cycle_eq [OF assms(4-6) ne sc, of F] by (simp add: solvent_def)
qed

theorem execute_cycle_solvent_witness:
  "\<exists>sim. simulate_full_cycle tri_book 1 2 3 = Some (Some sim) \<and> fill_a (sim_fills sim) = 100
     \<and> solvent (fst (snd (execute_cycle tri_book tri_entry (sim_fills sim) {})))"
proof -
  let ?sim = "\<lparr>sim_fills = \<lparr>fill_a = 100, fill_b = 100, fill_c = 100, surplus_a = 100, surplus_b = 100,
      surplus_c = 100\<rparr>, sim_surplus_usd = 30000\<rparr>"
  have s: "simulate_full_cycle tri_book 1 2 3 = Some (Some ?sim)"
    by code_simp
  have o: "orders tri_book (ce_ab tri_entry) = Some \<lparr>order_id = 1, offered_token = 1, requested_token = 2,
        offered = 200, requested = 100, requested_remaining = 100\<rparr>"
      "orders tri_book (ce_bc tri_entry) = Some \<lparr>order_id = 2, offered_token = 2, requested_token = 3,
        offered = 200, requested = 100, requested_remaining = 100\<rparr>"
      "orders tri_book (ce_ca tri_entry) = Some \<lparr>order_id = 3, offered_token = 3, requested_token = 1,
        offered = 200, requested = 100, requested_remaining = 100\<rparr>"
      "parked tri_book 1 = None" "parked tri_book 2 = None" "parked tri_book 3 = None"
    by code_simp+
  have e: "entry_ok tri_book tri_entry"
    using o by (simp add: entry_ok_def tri_entry_def tri_ok_def triangle_pairs_def order_pair_def)
  have s': "simulate_full_cycle tri_book (ce_ab tri_entry) (ce_bc tri_entry) (ce_ca tri_entry) = Some (Some ?sim)"
    using s by (simp add: tri_entry_def)
  have "solvent (fst (snd (execute_cycle tri_book tri_entry (sim_fills ?sim) {})))"
    by (rule execute_cycle_solvent [OF tri_books_wf(1) fresh_solvent [OF tri_books_fresh(1)] e o(1-3) s'])
      code_simp+
  with s show ?thesis
    by fastforce
qed

text \<open>
  C27: the triangular phase always returns. On a well-formed book, whatever entry of
  maximal surplus the heap yields and in whatever order the affected triangles are
  refreshed, the loop ends with a well-formed book, changes only remaining amounts of
  orders whose two tokens are priced, and reports every order it filled.
\<close>

theorem three_edge_returns:
  assumes "max_heap pop" "walks order_tri" "wf_book bk"
  shows "\<exists>bk' F' c. run_three_edge_cycle pop order_t order_tri bk F = Some (bk', F', c) \<and> wf_book bk'
    \<and> F \<subseteq> F' \<and> parked bk' = parked bk
    \<and> (\<forall>i ord. orders bk i = Some ord \<longrightarrow> (\<exists>r \<le> requested_remaining ord.
          orders bk' i = Some (ord\<lparr>requested_remaining := r\<rparr>)
          \<and> (r \<noteq> requested_remaining ord \<longrightarrow>
               i \<in> F' \<and> feed bk (offered_token ord) \<noteq> None \<and> feed bk (requested_token ord) \<noteq> None)
          \<and> (i \<in> F' - F \<longrightarrow> r < requested_remaining ord)))"
proof -
  obtain bk' F' c where r: "run_three_edge_cycle pop order_t order_tri bk F = Some (bk', F', c)" "wf_book bk'"
      "book_rel {p. priced (feed bk) p} bk F bk' F'"
    using max_heap.run_three_edge_cycle_ok [OF assms, of order_t F] by blast
  have "\<exists>r \<le> requested_remaining ord. orders bk' i = Some (ord\<lparr>requested_remaining := r\<rparr>)
          \<and> (r \<noteq> requested_remaining ord \<longrightarrow>
               i \<in> F' \<and> feed bk (offered_token ord) \<noteq> None \<and> feed bk (requested_token ord) \<noteq> None)
          \<and> (i \<in> F' - F \<longrightarrow> r < requested_remaining ord)" if "orders bk i = Some ord" for i ord
  proof -
    have "order_rel {p. priced (feed bk) p} F F' i ord (orders bk' i)"
      using r(3) that by (simp add: book_rel_def)
    then show ?thesis
      by (auto simp: order_rel_def priced_def order_pair_def)
  qed
  moreover have "F \<subseteq> F'" "parked bk' = parked bk"
    using r(3) by (simp_all add: book_rel_def)
  ultimately show ?thesis
    using r(1,2) by blast
qed

theorem three_edge_returns_witness:
  "\<exists>bk' F' c. run_three_edge_cycle pop_first sorted_list_of_set sorted_list_of_set tri_book {} = Some (bk', F', c)
     \<and> wf_book bk'"
  using three_edge_returns [OF first_heap.max_heap_axioms walks_sorted_list tri_books_wf(1), of sorted_list_of_set "{}"]
  by blast

text \<open>
  The triangular phase can book an insolvent settlement. Started on a fresh
  book in which the second leg releases 60 of a token of which the first leg
  consumes 100, it executes the cycle, fills the three orders completely and leaves
  that token 40 short.
\<close>

theorem three_edge_deficit:
  "fresh_book short_book \<and> wf_book short_book
   \<and> (\<exists>bk'. run_three_edge_cycle pop_first sorted_list_of_set sorted_list_of_set short_book {} = Some (bk', {1, 2, 3}, 1)
        \<and> net_flow bk' 2 = - 40 \<and> \<not> solvent bk')"
proof -
  let ?run = "run_three_edge_cycle pop_first sorted_list_of_set sorted_list_of_set short_book {}"
  obtain bk' F' c where r: "?run = Some (bk', F', c)" "book_rel {p. priced (feed short_book) p} short_book {} bk' F'"
    using first_heap.run_three_edge_cycle_ok [OF walks_sorted_list tri_books_wf(2), of sorted_list_of_set "{}"] by blast
  have "(case ?run of None \<Rightarrow> False
      | Some (bk', F', c) \<Rightarrow> c = 1 \<and> F' = {1, 2, 3}
          \<and> map (\<lambda>i. case orders bk' i of None \<Rightarrow> 0 | Some ord \<Rightarrow> contribution ord 2) [1, 2, 3] = [- 100, 60, 0])"
    by code_simp
  then have v: "c = 1" "F' = {1, 2, 3}"
      "map (\<lambda>i. case orders bk' i of None \<Rightarrow> 0 | Some ord \<Rightarrow> contribution ord 2) [1, 2, 3] = [- 100, 60, 0]"
    using r(1) by auto
  have d: "dom (orders bk') = {1, 2, 3}"
    using r(2) by (auto simp: book_rel_def short_book_def add_user_order_orders OrderBook_new_def)
  have "net_flow bk' 2 = sum_list (map (\<lambda>i. case orders bk' i of None \<Rightarrow> 0 | Some ord \<Rightarrow> contribution ord 2) [1, 2, 3])"
    unfolding net_flow_def d using d by (auto split: option.splits)
  then have n: "net_flow bk' 2 = - 40"
    unfolding v(3) by simp
  then have "\<not> solvent bk'"
    unfolding solvent_def by (metis int_zle_neg of_nat_0_le_iff not_le neg_less_0_iff_less zero_less_numeral order_less_le_trans)
  with n r(1) v(1,2) tri_books_wf(2) tri_books_fresh(2) show ?thesis
    by blast
qed

end
