(* ===== verification/Engine.thy ===== *)
theory Engine
  imports Three_Edge_Props
begin

text \<open>
  The matching engine of \<open>matching/engine.rs\<close>: the direct phase, then the
  triangular phase when it is enabled, then the settlement batch. The orders in
  which the hash collections are walked and the tie-breaking of the heap are
  bundled in one environment; \<open>env_ok\<close> is what the code relies on.
\<close>

section \<open>Walks\<close>

record walk_env =
  we_pairs :: "Pair set \<Rightarrow> Pair list"
  we_tokens :: "TokenId set \<Rightarrow> TokenId list"
  we_triangles :: "Triangle set \<Rightarrow> Triangle list"
  we_orders :: "OrderId set \<Rightarrow> OrderId list"
  we_pop :: "CycleEntry list \<Rightarrow> (CycleEntry \<times> CycleEntry list) option"

definition env_ok :: "walk_env \<Rightarrow> bool" where
  "env_ok env \<longleftrightarrow> walks (we_pairs env) \<and> walks (we_tokens env) \<and> walks (we_triangles env)
     \<and> walks (we_orders env) \<and> max_heap (we_pop env)"

definition sample_env :: walk_env where
  "sample_env = \<lparr>we_pairs = sorted_list_of_set, we_tokens = sorted_list_of_set,
     we_triangles = sorted_list_of_set, we_orders = sorted_list_of_set, we_pop = pop_first\<rparr>"

lemma sample_env_ok: "env_ok sample_env"
  by (simp add: env_ok_def sample_env_def walks_sorted_list first_heap.max_heap_axioms)

section \<open>Operations\<close>

record MatchingEngine =
  book :: OrderBook
  triangular_enabled :: bool

definition MatchingEngine_new :: "OrderBook \<Rightarrow> MatchingEngine" where
  "MatchingEngine_new b = \<lparr>book = b, triangular_enabled = True\<rparr>"

definition with_triangular_enabled :: "MatchingEngine \<Rightarrow> bool \<Rightarrow> MatchingEngine" where
  "with_triangular_enabled engine enabled = engine\<lparr>triangular_enabled := enabled\<rparr>"

definition positive_balances :: "walk_env \<Rightarrow> OrderBook \<Rightarrow> (TokenId \<times> Amount) list" where
  "positive_balances env bk =
     filter (\<lambda>(_, amt). amt > 0)
       (map (\<lambda>t. (t, the (protocol_balances bk t))) (we_tokens env (dom (protocol_balances bk))))"

text \<open>\<open>None\<close>: the run does not return.\<close>

definition engine_run :: "walk_env \<Rightarrow> MatchingEngine \<Rightarrow> (SettlementBatch \<times> MatchingEngine) option" where
  "engine_run env engine =
     (case run_direct_matching (we_pairs env) (book engine) {} of
        None \<Rightarrow> None
      | Some (book1, filled1, cycles1) \<Rightarrow>
        (case (if triangular_enabled engine
               then run_three_edge_cycle (we_pop env) (we_tokens env) (we_triangles env) book1 filled1
               else Some (book1, filled1, 0)) of
           None \<Rightarrow> None
         | Some (book2, filled2, cycles2) \<Rightarrow>
             Some (\<lparr>filled_orders = filled2,
                    batch_balances = positive_balances env book2,
                    cycles_executed = cycles1 + cycles2,
                    remaining_orders = ucast (active_order_count book2)\<rparr>,
                   engine\<lparr>book := book2\<rparr>)))"

section \<open>The result of a run\<close>

lemma engine_run_result:
  assumes env: "env_ok env" and wf: "wf_book (book eng)"
  obtains batch bk' where "engine_run env eng = Some (batch, eng\<lparr>book := bk'\<rparr>)" "wf_book bk'"
    "book_rel {p. priced (feed (book eng)) p} (book eng) {} bk' (filled_orders batch)"
    "batch_balances batch = positive_balances env bk'"
    "remaining_orders batch = ucast (active_order_count bk')"
    "\<not> triangular_enabled eng \<Longrightarrow> solvent (book eng) \<Longrightarrow> solvent bk'"
proof -
  let ?P = "{p. priced (feed (book eng)) p}"
  obtain bk1 F1 n where 1: "run_direct_matching (we_pairs env) (book eng) {} = Some (bk1, F1, n)" "wf_book bk1"
      "solvent (book eng) \<longrightarrow> solvent bk1" "book_rel ?P (book eng) {} bk1 F1"
    using run_direct_matching_result [OF _ wf, of "we_pairs env" "{}"] env unfolding env_ok_def by metis
  show thesis
  proof (cases "triangular_enabled eng")
    case False
    show ?thesis
      by (rule that [of "\<lparr>filled_orders = F1, batch_balances = positive_balances env bk1, cycles_executed = n,
          remaining_orders = ucast (active_order_count bk1)\<rparr>" bk1])
        (use 1 False in \<open>simp_all add: engine_run_def\<close>)
  next
    case True
    have "max_heap (we_pop env)" "walks (we_triangles env)"
      using env by (simp_all add: env_ok_def)
    from max_heap.run_three_edge_cycle_ok [OF this 1(2), of "we_tokens env" F1]
    obtain bk2 F2 c where 2: "run_three_edge_cycle (we_pop env) (we_tokens env) (we_triangles env) bk1 F1 = Some (bk2, F2, c)"
        "wf_book bk2" "book_rel {p. priced (feed bk1) p} bk1 F1 bk2 F2"
      by blast
    have "feed bk1 = feed (book eng)"
      using 1(4) by (simp add: book_rel_def)
    then have "book_rel ?P (book eng) {} bk2 F2"
      using book_rel_trans [OF 1(4)] 2(3) by simp
    then show ?thesis
      by (intro that [of "\<lparr>filled_orders = F2, batch_balances = positive_balances env bk2, cycles_executed = n + c,
          remaining_orders = ucast (active_order_count bk2)\<rparr>" bk2])
        (use 1 2 True in \<open>simp_all add: engine_run_def\<close>)
  qed
qed

lemma positive_balances_exact:
  assumes "env_ok env" "finite (dom (protocol_balances bk))"
  shows "distinct (map fst (positive_balances env bk))"
    and "(t, x) \<in> set (positive_balances env bk) \<longleftrightarrow> x = balance_of bk t \<and> x \<noteq> 0"
proof -
  let ?ts = "we_tokens env (dom (protocol_balances bk))"
  have w: "distinct ?ts" "set ?ts = dom (protocol_balances bk)"
    using walksD [OF _ assms(2), of "we_tokens env"] assms(1) by (simp_all add: env_ok_def)
  have "map fst (positive_balances env bk) = filter (\<lambda>t. the (protocol_balances bk t) > 0) ?ts"
    by (simp add: positive_balances_def filter_map comp_def)
  with w(1) show "distinct (map fst (positive_balances env bk))"
    by simp
  show "(t, x) \<in> set (positive_balances env bk) \<longleftrightarrow> x = balance_of bk t \<and> x \<noteq> 0"
    by (cases "protocol_balances bk t")
      (auto simp: positive_balances_def w(2) balance_of_def unwrap_or_default_def word_neq_0_conv)
qed

section \<open>Properties of the engine\<close>

text \<open>
  C26: a run of the engine always returns, keeps the book well-formed and reports its
  work exactly: an order is in the batch if and only if the run filled some of it,
  only priced orders are filled, nothing but remaining amounts changes, and every
  token with a positive protocol balance is listed once with its balance.
\<close>

theorem engine_run_exact:
  assumes "env_ok env" "wf_book (book eng)"
  shows "\<exists>batch bk'. engine_run env eng = Some (batch, eng\<lparr>book := bk'\<rparr>) \<and> wf_book bk'
    \<and> dom (orders bk') = dom (orders (book eng)) \<and> filled_orders batch \<subseteq> dom (orders (book eng))
    \<and> (\<forall>i ord. orders (book eng) i = Some ord \<longrightarrow> (\<exists>r \<le> requested_remaining ord.
         orders bk' i = Some (ord\<lparr>requested_remaining := r\<rparr>)
         \<and> (i \<in> filled_orders batch \<longleftrightarrow> r < requested_remaining ord)
         \<and> (i \<in> filled_orders batch \<longrightarrow>
              feed (book eng) (offered_token ord) \<noteq> None \<and> feed (book eng) (requested_token ord) \<noteq> None)))
    \<and> (finite (dom (protocol_balances bk')) \<longrightarrow> distinct (map fst (batch_balances batch))
         \<and> (\<forall>t x. (t, x) \<in> set (batch_balances batch) \<longleftrightarrow> x = balance_of bk' t \<and> x \<noteq> 0))"
proof -
  obtain batch bk' where r: "engine_run env eng = Some (batch, eng\<lparr>book := bk'\<rparr>)" "wf_book bk'"
      "book_rel {p. priced (feed (book eng)) p} (book eng) {} bk' (filled_orders batch)"
      "batch_balances batch = positive_balances env bk'"
    using engine_run_result [OF assms] by metis
  let ?F = "filled_orders batch"
  have "\<exists>r \<le> requested_remaining ord. orders bk' i = Some (ord\<lparr>requested_remaining := r\<rparr>)
         \<and> (i \<in> ?F \<longleftrightarrow> r < requested_remaining ord)
         \<and> (i \<in> ?F \<longrightarrow> feed (book eng) (offered_token ord) \<noteq> None \<and> feed (book eng) (requested_token ord) \<noteq> None)"
    if "orders (book eng) i = Some ord" for i ord
  proof -
    have "order_rel {p. priced (feed (book eng)) p} {} ?F i ord (orders bk' i)"
      using r(3) that by (simp add: book_rel_def)
    then obtain x where x: "x \<le> requested_remaining ord" "orders bk' i = Some (ord\<lparr>requested_remaining := x\<rparr>)"
        "x \<noteq> requested_remaining ord \<longrightarrow> i \<in> ?F \<and> priced (feed (book eng)) (order_pair ord)"
        "i \<in> ?F \<longrightarrow> x < requested_remaining ord"
      by (auto simp: order_rel_def)
    have "i \<in> ?F \<longleftrightarrow> x < requested_remaining ord"
      using x(1,3,4) by (auto simp: order.strict_iff_order)
    with x show ?thesis
      by (intro exI [of _ x]) (auto simp: priced_def order_pair_def)
  qed
  moreover have "dom (orders bk') = dom (orders (book eng))" "?F \<subseteq> dom (orders (book eng))"
    using r(3) by (simp_all add: book_rel_def)
  moreover have "distinct (map fst (batch_balances batch))"
      "\<forall>t x. (t, x) \<in> set (batch_balances batch) \<longleftrightarrow> x = balance_of bk' t \<and> x \<noteq> 0"
    if "finite (dom (protocol_balances bk'))"
    using positive_balances_exact [OF assms(1) that] r(4) by simp_all
  ultimately show ?thesis
    using r(1,2) by blast
qed

definition sample_engine :: MatchingEngine where
  "sample_engine = with_triangular_enabled (MatchingEngine_new sample_book) False"

lemma sample_engine_book: "book sample_engine = sample_book"
  by (simp add: sample_engine_def with_triangular_enabled_def MatchingEngine_new_def)

theorem engine_run_exact_witness:
  "\<exists>batch bk'. engine_run sample_env sample_engine = Some (batch, sample_engine\<lparr>book := bk'\<rparr>) \<and> wf_book bk'"
proof -
  have "wf_book (book sample_engine)"
    by (simp add: sample_engine_book sample_books_wf)
  from engine_run_exact [OF sample_env_ok this] show ?thesis
    by (elim exE conjE) (intro exI conjI)
qed

end
