(* ===== verification/Select_Notes.thy ===== *)
theory Select_Notes
  imports Order_Book_Props "HOL-Library.Product_Lexorder"
begin

text \<open>
  The note selection of the external pass, \<open>router/select.rs\<close>: per pair, each note
  goes whole to the tightest crossing quote that still has room. The maps are
  walked in the order given by a parameter.
\<close>

section \<open>Data\<close>

record Rate =
  rate_requested :: Amount
  rate_offered :: Amount

record Quote =
  q_dex :: DexId
  q_pair :: Pair
  q_supply :: Amount
  q_demand :: Amount
  q_expires_at :: u64

record Pick =
  p_dex :: DexId
  p_note_id :: OrderId
  p_fill :: Amount
  p_pair :: Pair
  p_price :: Rate

record PairMatch =
  pm_picks :: "Pick list"
  pm_clearing :: "Rate option"

section \<open>Selection\<close>

definition crosses :: "Order \<Rightarrow> Quote \<Rightarrow> bool" where
  "crosses note quote \<longleftrightarrow>
     as_u128 (requested note) * as_u128 (q_demand quote) \<le> as_u128 (q_supply quote) * as_u128 (offered note)"

definition skipped :: "u64 \<Rightarrow> Quote \<Rightarrow> bool" where
  "skipped time q \<longleftrightarrow> q_expires_at q \<le> time \<or> q_supply q = 0 \<or> q_demand q = 0"

text \<open>The inner loop from index \<open>i\<close> on, with its early exit at the first quote that does not cross.\<close>

fun scan_quotes :: "Order \<Rightarrow> u64 \<Rightarrow> u128 list \<Rightarrow> nat \<Rightarrow> Quote list \<Rightarrow> nat option \<Rightarrow> nat option" where
  "scan_quotes note time remaining i [] chosen = chosen"
| "scan_quotes note time remaining i (q # qs) chosen =
     (if skipped time q then scan_quotes note time remaining (Suc i) qs chosen
      else if \<not> crosses note q then chosen
      else scan_quotes note time remaining (Suc i) qs
             (if remaining ! i \<ge> as_u128 (requested note) then Some i else chosen))"

fun match_notes :: "Pair \<Rightarrow> Quote list \<Rightarrow> u64 \<Rightarrow> Order list \<Rightarrow> u128 list \<Rightarrow> Pick list" where
  "match_notes pair quotes time [] remaining = []"
| "match_notes pair quotes time (note # notes) remaining =
     (case scan_quotes note time remaining 0 quotes None of
        None \<Rightarrow> match_notes pair quotes time notes remaining
      | Some i \<Rightarrow>
          \<lparr>p_dex = q_dex (quotes ! i), p_note_id = order_id note, p_fill = requested note, p_pair = pair,
           p_price = \<lparr>rate_requested = requested note, rate_offered = offered note\<rparr>\<rparr>
          # match_notes pair quotes time notes
              (remaining[i := remaining ! i - as_u128 (requested note)]))"

definition match_pair :: "Pair \<Rightarrow> Order list \<Rightarrow> Quote list \<Rightarrow> u64 \<Rightarrow> PairMatch" where
  "match_pair pair notes quotes time =
     \<lparr>pm_picks = match_notes pair quotes time notes (map (\<lambda>q. as_u128 (q_supply q)) quotes),
      pm_clearing = None\<rparr>"

definition select_notes :: "(Pair set \<Rightarrow> Pair list) \<Rightarrow> (Pair \<Rightarrow> Order list option)
    \<Rightarrow> (Pair \<Rightarrow> Quote list option) \<Rightarrow> u64 \<Rightarrow> Pick list" where
  "select_notes order notes_by_pair quotes_by_pair time =
     concat (map (\<lambda>pair. pm_picks (match_pair pair (unwrap_or_default [] (notes_by_pair pair))
                            (the (quotes_by_pair pair)) time))
              (order (dom quotes_by_pair)))"

section \<open>The inner loop\<close>

lemma crosses_nat: "crosses note q \<longleftrightarrow> unat (requested note) * unat (q_demand q) \<le> unat (q_supply q) * unat (offered note)"
  by (simp add: crosses_def word_le_nat_alt unat_widening_mul)

definition fits :: "Order \<Rightarrow> u64 \<Rightarrow> u128 list \<Rightarrow> Quote list \<Rightarrow> nat \<Rightarrow> bool" where
  "fits note time remaining quotes i \<longleftrightarrow> \<not> skipped time (quotes ! i) \<and> crosses note (quotes ! i)
     \<and> remaining ! i \<ge> as_u128 (requested note)"

lemma scan_quotes_fits:
  assumes "scan_quotes nt time rm (length ps) qs c = Some j" "quotes = ps @ qs"
    and "\<forall>k. c = Some k \<longrightarrow> k < length ps \<and> fits nt time rm quotes k"
  shows "j < length quotes \<and> fits nt time rm quotes j"
  using assms
proof (induction qs arbitrary: ps c)
  case (Cons q qs)
  have q: "quotes ! length ps = q"
    using Cons.prems by simp
  show ?case
  proof (cases "\<not> skipped time q \<and> \<not> crosses nt q")
    case True
    with Cons.prems show ?thesis
      by auto
  next
    case False
    let ?c = "if skipped time q \<or> \<not> rm ! length ps \<ge> as_u128 (requested nt) then c else Some (length ps)"
    have "\<forall>k. ?c = Some k \<longrightarrow> k < length (ps @ [q]) \<and> fits nt time rm quotes k"
      using False Cons.prems(3) q by (auto simp: fits_def)
    moreover have "scan_quotes nt time rm (length (ps @ [q])) qs ?c = Some j"
      using Cons.prems(1) False by (auto split: if_splits)
    ultimately show ?thesis
      using Cons.IH [of "ps @ [q]" ?c] Cons.prems(2) by simp
  qed
qed simp

text \<open>The rule the loop implements, without its early exit: the last quote that fits.\<close>

definition tightest_fit :: "Order \<Rightarrow> u64 \<Rightarrow> u128 list \<Rightarrow> Quote list \<Rightarrow> nat option" where
  "tightest_fit nt time remaining quotes =
     (case rev (filter (fits nt time remaining quotes) [0..<length quotes]) of
        [] \<Rightarrow> None
      | i # _ \<Rightarrow> Some i)"

definition generous :: "Quote \<Rightarrow> Quote \<Rightarrow> bool" where
  "generous q r \<longleftrightarrow> unat (q_supply r) * unat (q_demand q) \<le> unat (q_supply q) * unat (q_demand r)"

lemma ratio_trans:
  fixes r d s f s' d' :: nat
  assumes "s * f < r * d" "s' * d \<le> s * d'" "0 < d'"
  shows "s' * f < r * d'"
proof -
  have "d * (s' * f) \<le> s * f * d'"
    using mult_le_mono1 [OF assms(2), of f] by (simp add: ac_simps)
  also have "\<dots> < r * d * d'"
    using assms(1,3) by (rule mult_strict_right_mono)
  also have "\<dots> = d * (r * d')"
    by simp
  finally show ?thesis
    by (rule mult_left_less_imp_less) simp
qed

lemma not_crosses_mono:
  assumes "generous q r" "q_demand r \<noteq> 0" "\<not> crosses nt q"
  shows "\<not> crosses nt r"
proof -
  have "0 < unat (q_demand r)"
    using assms(2) by (simp add: unat_gt_0)
  with assms(1,3) show ?thesis
    using ratio_trans by (simp add: generous_def crosses_nat not_le)
qed

definition last_opt :: "'a list \<Rightarrow> 'a option \<Rightarrow> 'a option" where
  "last_opt xs d = (if xs = [] then d else Some (last xs))"

lemma tightest_fit_last: "tightest_fit nt time rm qs = last_opt (filter (fits nt time rm qs) [0..<length qs]) None"
  by (simp add: tightest_fit_def last_opt_def hd_rev [symmetric] split: list.split)

lemma scan_quotes_last:
  assumes "quotes = ps @ qs" "sorted_wrt generous quotes"
  shows "scan_quotes nt time rm (length ps) qs c
    = last_opt (filter (fits nt time rm quotes) [length ps..<length quotes]) c"
  using assms
proof (induction qs arbitrary: ps c)
  case (Cons q qs)
  have q: "quotes ! length ps = q" and l: "length ps < length quotes"
    using Cons.prems by simp_all
  have up: "[length ps..<length quotes] = length ps # [length (ps @ [q])..<length quotes]"
    using l by (simp add: upt_conv_Cons)
  show ?case
  proof (cases "\<not> skipped time q \<and> \<not> crosses nt q")
    case True
    have "\<not> fits nt time rm quotes j" if "length ps \<le> j" "j < length quotes" for j
    proof (cases "j = length ps")
      case True
      with \<open>\<not> skipped time q \<and> \<not> crosses nt q\<close> q show ?thesis
        by (simp add: fits_def)
    next
      case False
      then have "generous q (quotes ! j)"
        using that Cons.prems q sorted_wrt_nth_less [OF Cons.prems(2), of "length ps" j] by simp
      then show ?thesis
        using True not_crosses_mono [of q "quotes ! j" nt] by (auto simp: fits_def skipped_def)
    qed
    then have "filter (fits nt time rm quotes) [length ps..<length quotes] = []"
      by (auto simp: filter_empty_conv)
    with True show ?thesis
      by (simp add: last_opt_def)
  next
    case False
    have "scan_quotes nt time rm (length (ps @ [q])) qs d
        = last_opt (filter (fits nt time rm quotes) [length (ps @ [q])..<length quotes]) d" for d
      by (rule Cons.IH) (use Cons.prems in simp_all)
    moreover have "fits nt time rm quotes (length ps)
        \<longleftrightarrow> \<not> skipped time q \<and> crosses nt q \<and> rm ! length ps \<ge> as_u128 (requested nt)"
      by (simp add: fits_def q)
    ultimately show ?thesis
      using False unfolding up by (auto simp: last_opt_def)
  qed
qed (simp add: last_opt_def)

section \<open>Capacity\<close>

definition dex_capacity :: "DexId \<Rightarrow> Quote list \<Rightarrow> u128 list \<Rightarrow> nat" where
  "dex_capacity d quotes remaining = (\<Sum>i \<in> {i. i < length quotes \<and> q_dex (quotes ! i) = d}. unat (remaining ! i))"

definition routed_to :: "DexId \<Rightarrow> Pick list \<Rightarrow> nat" where
  "routed_to d ps = (\<Sum>p \<leftarrow> filter (\<lambda>p. p_dex p = d) ps. unat (p_fill p))"

lemma dex_capacity_take:
  assumes "i < length quotes" "length rm = length quotes" "x \<le> rm ! i"
  shows "dex_capacity d quotes (rm[i := rm ! i - x]) + (if q_dex (quotes ! i) = d then unat x else 0)
    = dex_capacity d quotes rm"
proof (cases "q_dex (quotes ! i) = d")
  case True
  let ?S = "{i. i < length quotes \<and> q_dex (quotes ! i) = d}"
  have i: "i \<in> ?S" and fin: "finite ?S"
    using assms True by simp_all
  have "dex_capacity d quotes (rm[i := rm ! i - x]) = unat (rm ! i - x) + (\<Sum>j \<in> ?S - {i}. unat (rm ! j))"
    unfolding dex_capacity_def using assms
    by (subst sum.remove [OF fin i]) (auto intro!: sum.cong simp: nth_list_update)
  moreover have "dex_capacity d quotes rm = unat (rm ! i) + (\<Sum>j \<in> ?S - {i}. unat (rm ! j))"
    unfolding dex_capacity_def by (rule sum.remove [OF fin i])
  moreover have "unat (rm ! i - x) + unat x = unat (rm ! i)"
    using assms(3) by (simp add: unat_sub word_le_nat_alt)
  ultimately show ?thesis
    using True by simp
next
  case False
  then have "dex_capacity d quotes (rm[i := rm ! i - x]) = dex_capacity d quotes rm"
    unfolding dex_capacity_def by (intro sum.cong refl arg_cong [of _ _ unat] nth_list_update_neq) auto
  with False show ?thesis
    by simp
qed

lemma match_notes_capacity:
  assumes "length rm = length quotes"
  shows "routed_to d (match_notes pair quotes time nts rm) \<le> dex_capacity d quotes rm"
  using assms
proof (induction nts arbitrary: rm)
  case (Cons nt nts)
  show ?case
  proof (cases "scan_quotes nt time rm 0 quotes None")
    case (Some i)
    have i: "i < length quotes" "fits nt time rm quotes i"
      using scan_quotes_fits [of nt time rm "[]" quotes None i quotes] Some by simp_all
    have "dex_capacity d quotes (rm[i := rm ! i - as_u128 (requested nt)])
        + (if q_dex (quotes ! i) = d then unat (as_u128 (requested nt)) else 0) = dex_capacity d quotes rm"
      by (rule dex_capacity_take) (use i Cons.prems in \<open>simp_all add: fits_def\<close>)
    moreover have "routed_to d (match_notes pair quotes time nts (rm[i := rm ! i - as_u128 (requested nt)]))
        \<le> dex_capacity d quotes (rm[i := rm ! i - as_u128 (requested nt)])"
      by (rule Cons.IH) (simp add: Cons.prems)
    ultimately show ?thesis
      using Some by (simp add: routed_to_def split: if_splits)
  qed (use Cons in \<open>simp add: routed_to_def\<close>)
qed (simp add: routed_to_def)

lemma match_notes_sound:
  assumes "length rm = length quotes" "p \<in> set (match_notes pair quotes time nts rm)"
  shows "\<exists>nt \<in> set nts. \<exists>q \<in> set quotes. p_note_id p = order_id nt \<and> p_fill p = requested nt
    \<and> p_price p = \<lparr>rate_requested = requested nt, rate_offered = offered nt\<rparr>
    \<and> p_pair p = pair \<and> p_dex p = q_dex q \<and> crosses nt q \<and> \<not> skipped time q"
  using assms
proof (induction nts arbitrary: rm)
  case (Cons nt nts)
  show ?case
  proof (cases "scan_quotes nt time rm 0 quotes None")
    case (Some i)
    have i: "i < length quotes" "fits nt time rm quotes i"
      using scan_quotes_fits [of nt time rm "[]" quotes None i quotes] Some by simp_all
    show ?thesis
    proof (cases "p \<in> set (match_notes pair quotes time nts (rm[i := rm ! i - as_u128 (requested nt)]))")
      case True
      with Cons.IH [OF _ True] Cons.prems show ?thesis
        by (auto simp: Bex_def)
    next
      case False
      with Cons.prems Some have "p = \<lparr>p_dex = q_dex (quotes ! i), p_note_id = order_id nt, p_fill = requested nt,
          p_pair = pair, p_price = \<lparr>rate_requested = requested nt, rate_offered = offered nt\<rparr>\<rparr>"
        by simp
      with i show ?thesis
        by (auto simp: fits_def intro!: bexI [of _ "quotes ! i"])
    qed
  next
    case None
    with Cons.IH [of rm] Cons.prems show ?thesis
      by (auto simp: Bex_def)
  qed
qed simp

lemma match_notes_ids_subset: "p_note_id ` set (match_notes pair quotes time nts rm) \<subseteq> order_id ` set nts"
  by (induction nts arbitrary: rm) (fastforce split: option.splits)+

lemma match_notes_distinct:
  assumes "distinct (map order_id nts)"
  shows "distinct (map p_note_id (match_notes pair quotes time nts rm))"
  using assms
proof (induction nts arbitrary: rm)
  case (Cons nt nts)
  then show ?case
    using match_notes_ids_subset [of pair quotes time nts] by (fastforce split: option.splits)
qed simp

section \<open>Properties of the selection\<close>

lemma initial_capacity: "dex_capacity d qs (map (\<lambda>q. as_u128 (q_supply q)) qs)
    = (\<Sum>q \<leftarrow> filter (\<lambda>q. q_dex q = d) qs. unat (q_supply q))"
proof -
  have "(\<Sum>q \<leftarrow> filter (\<lambda>q. q_dex q = d) qs. unat (q_supply q))
      = (\<Sum>q \<leftarrow> qs. if q_dex q = d then unat (q_supply q) else 0)"
    by (induction qs) simp_all
  also have "\<dots> = (\<Sum>i < length qs. if q_dex (qs ! i) = d then unat (q_supply (qs ! i)) else 0)"
    by (simp add: sum_list_sum_nth atLeast0LessThan)
  also have "\<dots> = (\<Sum>i \<in> {i. i < length qs \<and> q_dex (qs ! i) = d}. unat (q_supply (qs ! i)))"
    by (simp add: sum.If_cases) (rule sum.cong, auto)
  finally show ?thesis
    by (auto simp: dex_capacity_def intro!: sum.cong)
qed

lemma select_notes_result:
  assumes "walks order" "finite (dom quotes_by_pair)"
    and "\<And>p ns. notes_by_pair p = Some ns \<Longrightarrow> distinct (map order_id ns)"
    and "\<And>p p' ns ns' x. notes_by_pair p = Some ns \<Longrightarrow> notes_by_pair p' = Some ns' \<Longrightarrow> p \<noteq> p'
        \<Longrightarrow> x \<in> set ns \<Longrightarrow> order_id x \<notin> order_id ` set ns'"
  shows "distinct (map p_note_id (select_notes order notes_by_pair quotes_by_pair time))
    \<and> (\<forall>p \<in> set (select_notes order notes_by_pair quotes_by_pair time).
         \<exists>ns qs nt q. notes_by_pair (p_pair p) = Some ns \<and> quotes_by_pair (p_pair p) = Some qs
           \<and> nt \<in> set ns \<and> q \<in> set qs \<and> p_note_id p = order_id nt \<and> p_fill p = requested nt \<and> p_dex p = q_dex q
           \<and> unat (requested nt) * unat (q_demand q) \<le> unat (q_supply q) * unat (offered nt)
           \<and> time < q_expires_at q \<and> q_supply q \<noteq> 0 \<and> q_demand q \<noteq> 0)
    \<and> (\<forall>d pair qs. quotes_by_pair pair = Some qs \<longrightarrow>
         routed_to d (filter (\<lambda>p. p_pair p = pair) (select_notes order notes_by_pair quotes_by_pair time))
           \<le> (\<Sum>q \<leftarrow> filter (\<lambda>q. q_dex q = d) qs. unat (q_supply q)))"
proof -
  let ?notes = "\<lambda>p. unwrap_or_default [] (notes_by_pair p)" and ?qs = "\<lambda>p. the (quotes_by_pair p)"
  let ?m = "\<lambda>p. pm_picks (match_pair p (?notes p) (?qs p) time)"
  let ?ps = "order (dom quotes_by_pair)" and ?sel = "select_notes order notes_by_pair quotes_by_pair time"
  have w: "distinct ?ps" "set ?ps = dom quotes_by_pair"
    using walksD [OF assms(1,2)] by auto
  have sel: "?sel = concat (map ?m ?ps)"
    by (simp add: select_notes_def)
  have sound: "\<exists>nt \<in> set (?notes pr). \<exists>q \<in> set (?qs pr). p_note_id p = order_id nt \<and> p_fill p = requested nt
      \<and> p_price p = \<lparr>rate_requested = requested nt, rate_offered = offered nt\<rparr>
      \<and> p_pair p = pr \<and> p_dex p = q_dex q \<and> crosses nt q \<and> \<not> skipped time q" if "p \<in> set (?m pr)" for p pr
    using match_notes_sound [of "map (\<lambda>q. as_u128 (q_supply q)) (?qs pr)" "?qs pr" p pr time "?notes pr"] that
    by (simp add: match_pair_def)
  have dn: "distinct (map order_id (?notes pr))" for pr
    using assms(3) [of pr] by (cases "notes_by_pair pr") (simp_all add: unwrap_or_default_def)
  have dj: "p_note_id ` set (?m pr) \<inter> p_note_id ` set (?m pr') = {}" if "pr \<noteq> pr'" for pr pr'
  proof -
    have "order_id ` set (?notes pr) \<inter> order_id ` set (?notes pr') = {}"
      using assms(4) [of pr _ pr'] that
      by (cases "notes_by_pair pr"; cases "notes_by_pair pr'") (auto simp: unwrap_or_default_def)
    then show ?thesis
      using match_notes_ids_subset [of pr "?qs pr" time "?notes pr"] match_notes_ids_subset [of pr' "?qs pr'" time "?notes pr'"]
      by (fastforce simp: match_pair_def)
  qed
  have "distinct (map p_note_id (concat (map ?m xs)))" if "distinct xs" for xs
    using that
  proof (induction xs)
    case (Cons x xs)
    have "distinct (map p_note_id (?m x))"
      using match_notes_distinct [OF dn] by (simp add: match_pair_def)
    moreover have "p_note_id ` set (?m x) \<inter> p_note_id ` set (concat (map ?m xs)) = {}"
      using dj [of x] Cons.prems by fastforce
    ultimately show ?case
      using Cons by simp
  qed simp
  then have 1: "distinct (map p_note_id ?sel)"
    unfolding sel using w(1) .
  have 2: "\<exists>ns qs nt q. notes_by_pair (p_pair p) = Some ns \<and> quotes_by_pair (p_pair p) = Some qs
           \<and> nt \<in> set ns \<and> q \<in> set qs \<and> p_note_id p = order_id nt \<and> p_fill p = requested nt \<and> p_dex p = q_dex q
           \<and> unat (requested nt) * unat (q_demand q) \<le> unat (q_supply q) * unat (offered nt)
           \<and> time < q_expires_at q \<and> q_supply q \<noteq> 0 \<and> q_demand q \<noteq> 0" if p: "p \<in> set ?sel" for p
  proof -
    obtain pr where pr: "p \<in> set (?m pr)" "pr \<in> dom quotes_by_pair"
      using p w(2) by (auto simp: sel)
    obtain nt q where nq: "nt \<in> set (?notes pr)" "q \<in> set (?qs pr)" "p_note_id p = order_id nt" "p_fill p = requested nt"
        "p_pair p = pr" "p_dex p = q_dex q" "crosses nt q" "\<not> skipped time q"
      using sound [OF pr(1)] by blast
    obtain ns where "notes_by_pair pr = Some ns" "nt \<in> set ns"
      using nq(1) by (cases "notes_by_pair pr") (simp_all add: unwrap_or_default_def)
    moreover obtain qs where "quotes_by_pair pr = Some qs" "q \<in> set qs"
      using nq(2) pr(2) by auto
    ultimately show ?thesis
      using nq(3-8) by (intro exI [of _ ns] exI [of _ qs] exI [of _ nt] exI [of _ q])
        (simp add: crosses_nat skipped_def not_le)
  qed
  have 3: "routed_to d (filter (\<lambda>p. p_pair p = pair) ?sel) \<le> (\<Sum>q \<leftarrow> filter (\<lambda>q. q_dex q = d) qs. unat (q_supply q))"
    if "quotes_by_pair pair = Some qs" for d pair qs
  proof -
    have own: "filter (\<lambda>p. p_pair p = pair) (?m pr) = (if pr = pair then ?m pr else [])" for pr
      using sound [of _ pr] by (fastforce simp: filter_id_conv filter_empty_conv)
    have "filter (\<lambda>p. p_pair p = pair) (concat (map ?m xs)) = (if pair \<in> set xs then ?m pair else [])" if "distinct xs" for xs
      using that by (induction xs) (auto simp: own)
    then have "filter (\<lambda>p. p_pair p = pair) ?sel = ?m pair"
      unfolding sel using w that by auto
    then show ?thesis
      using match_notes_capacity [of "map (\<lambda>q. as_u128 (q_supply q)) qs" qs d pair time "?notes pair"] that
      by (simp add: match_pair_def initial_capacity)
  qed
  from 1 2 3 show ?thesis
    by blast
qed

text \<open>
  C30: the selection is sound. Every pick hands over, whole and at its own rate, a note
  of the pair it names, to a DEX with a fresh non-degenerate quote for that pair
  whose rate accepts the note's; no note is picked twice; and within a pair no DEX
  is handed more than it quoted.
\<close>

theorem select_notes_sound:
  assumes "walks order" "finite (dom quotes_by_pair)"
    and "\<And>p ns. notes_by_pair p = Some ns \<Longrightarrow> distinct (map order_id ns)"
    and "\<And>p p' ns ns' x. notes_by_pair p = Some ns \<Longrightarrow> notes_by_pair p' = Some ns' \<Longrightarrow> p \<noteq> p'
        \<Longrightarrow> x \<in> set ns \<Longrightarrow> order_id x \<notin> order_id ` set ns'"
  shows "distinct (map p_note_id (select_notes order notes_by_pair quotes_by_pair time))
    \<and> (\<forall>p \<in> set (select_notes order notes_by_pair quotes_by_pair time).
         \<exists>ns qs nt q. notes_by_pair (p_pair p) = Some ns \<and> quotes_by_pair (p_pair p) = Some qs
           \<and> nt \<in> set ns \<and> q \<in> set qs \<and> p_note_id p = order_id nt \<and> p_fill p = requested nt \<and> p_dex p = q_dex q
           \<and> unat (requested nt) * unat (q_demand q) \<le> unat (q_supply q) * unat (offered nt)
           \<and> time < q_expires_at q \<and> q_supply q \<noteq> 0 \<and> q_demand q \<noteq> 0)
    \<and> (\<forall>d pair qs. quotes_by_pair pair = Some qs \<longrightarrow>
         routed_to d (filter (\<lambda>p. p_pair p = pair) (select_notes order notes_by_pair quotes_by_pair time))
           \<le> (\<Sum>q \<leftarrow> filter (\<lambda>q. q_dex q = d) qs. unat (q_supply q)))"
  by (rule select_notes_result [OF assms])

text \<open>
  C31: for quotes in descending order of rate, the early exit of the inner loop loses
  nothing: each note is offered to the last, that is the tightest, quote that is
  fresh, crosses it and has room for it.
\<close>

theorem scan_quotes_tightest:
  assumes "sorted_wrt generous quotes"
  shows "scan_quotes nt time remaining 0 quotes None = tightest_fit nt time remaining quotes"
  using scan_quotes_last [of quotes "[]" quotes nt time remaining None] assms by (simp add: tightest_fit_last)

definition sample_quotes :: "Quote list" where
  "sample_quotes = [\<lparr>q_dex = 7, q_pair = (1, 2), q_supply = 500, q_demand = 200, q_expires_at = 50\<rparr>,
     \<lparr>q_dex = 8, q_pair = (1, 2), q_supply = 400, q_demand = 200, q_expires_at = 50\<rparr>]"

theorem scan_quotes_tightest_witness:
  "scan_quotes sample_ask 10 [500, 400] 0 sample_quotes None = tightest_fit sample_ask 10 [500, 400] sample_quotes
   \<and> tightest_fit sample_ask 10 [500, 400] sample_quotes = Some 1"
proof -
  have "sorted_wrt generous sample_quotes"
    by (simp add: sample_quotes_def generous_def)
  moreover have "tightest_fit sample_ask 10 [500, 400] sample_quotes = Some 1"
    by code_simp
  ultimately show ?thesis
    using scan_quotes_tightest [of sample_quotes sample_ask 10 "[500, 400]"] by simp
qed

theorem select_notes_sound_witness:
  "routed_to 8 (filter (\<lambda>p. p_pair p = (1, 2))
      (select_notes sorted_list_of_set [(1, 2) \<mapsto> [sample_ask]] [(1, 2) \<mapsto> sample_quotes] 10)) \<le> 400
   \<and> select_notes sorted_list_of_set [(1, 2) \<mapsto> [sample_ask]] [(1, 2) \<mapsto> sample_quotes] 10 \<noteq> []"
proof -
  have "select_notes sorted_list_of_set [(1, 2) \<mapsto> [sample_ask]] [(1, 2) \<mapsto> sample_quotes] 10 \<noteq> []"
    by (simp add: select_notes_def unwrap_or_default_def) code_simp
  moreover have "(\<Sum>q \<leftarrow> filter (\<lambda>q. q_dex q = 8) sample_quotes. unat (q_supply q)) = 400"
    by (simp add: sample_quotes_def)
  moreover have "routed_to 8 (filter (\<lambda>p. p_pair p = (1, 2))
      (select_notes sorted_list_of_set [(1, 2) \<mapsto> [sample_ask]] [(1, 2) \<mapsto> sample_quotes] 10))
      \<le> (\<Sum>q \<leftarrow> filter (\<lambda>q. q_dex q = 8) sample_quotes. unat (q_supply q))"
    by (rule select_notes_sound [THEN conjunct2, THEN conjunct2, rule_format])
      (auto simp: walks_sorted_list split: if_splits)
  ultimately show ?thesis
    by simp
qed

end
