(* ===== verification/Pipeline_Types.thy ===== *)
theory Pipeline_Types
  imports Solver_Prelude "HOL-Library.Sublist"
begin

text \<open>
  The types that travel between the pipeline's tasks: \<open>types.rs\<close> and \<open>order.rs\<close>.
  A note is the opaque type of the protocol crate; parsing it as a PSWAP note is
  the parameter \<open>parse\<close>, whose result carries the fields the code reads.
\<close>

section \<open>Order status\<close>

datatype OrderStatus = Active | Settling | Executed | OnchainNullified

fun as_str :: "OrderStatus \<Rightarrow> string" where
  "as_str Active = ''active''"
| "as_str Settling = ''settling''"
| "as_str Executed = ''executed''"
| "as_str OnchainNullified = ''onchain_nullified''"

definition status_from_str :: "string \<Rightarrow> OrderStatus option" where
  "status_from_str s =
     (if s = ''active'' then Some Active
      else if s = ''settling'' then Some Settling
      else if s = ''executed'' then Some Executed
      else if s = ''onchain_nullified'' then Some OnchainNullified
      else None)"

lemma status_from_as_str [simp]: "status_from_str (as_str s) = Some s"
  by (cases s) (simp_all add: status_from_str_def)

lemma as_str_inj [simp]: "as_str s = as_str t \<longleftrightarrow> s = t"
  by (metis option.inject status_from_as_str)

section \<open>Orders on the way through the pipeline\<close>

record Pswap =
  ps_offered_faucet :: TokenId
  ps_offered_amount :: u64
  ps_requested_faucet :: TokenId
  ps_requested_amount :: u64
  ps_creator :: nat

record 'n NoteOrder =
  no_note :: 'n
  offered_faucet_id :: TokenId
  offered_amount :: u64
  requested_faucet_id :: TokenId
  requested_amount :: u64
  creator_id :: nat

datatype parse_error = NotPswap | ZeroAmount

definition from_note :: "('n \<Rightarrow> Pswap option) \<Rightarrow> 'n \<Rightarrow> parse_error + 'n NoteOrder" where
  "from_note parse nt =
     (case parse nt of
        None \<Rightarrow> Inl NotPswap
      | Some ps \<Rightarrow>
          if ps_offered_amount ps = 0 \<or> ps_requested_amount ps = 0 then Inl ZeroAmount
          else Inr \<lparr>no_note = nt, offered_faucet_id = ps_offered_faucet ps, offered_amount = ps_offered_amount ps,
                    requested_faucet_id = ps_requested_faucet ps, requested_amount = ps_requested_amount ps,
                    creator_id = ps_creator ps\<rparr>)"

lemma from_note_InrD:
  assumes "from_note parse nt = Inr ord"
  shows "no_note ord = nt" "offered_amount ord \<noteq> 0" "requested_amount ord \<noteq> 0"
  using assms by (auto simp: from_note_def split: option.splits if_splits)

record IngestOrder =
  io_note_id :: OrderId
  io_offered_token :: TokenId
  io_requested_token :: TokenId
  io_offered_amount :: Amount
  io_requested_amount :: Amount
  io_raw_note_data :: bytes

record FilledNote =
  fn_note_id :: OrderId
  fn_requested_filled :: Amount
  fn_raw_note_data :: bytes
  fn_arrival_unix :: u64

record ExecutionBatch =
  filled_notes :: "FilledNote list"

section \<open>Configured pairs\<close>

record AssetPair =
  ap_x :: TokenId
  ap_y :: TokenId

definition AssetPair_new :: "TokenId \<Rightarrow> TokenId \<Rightarrow> AssetPair" where
  "AssetPair_new x y = \<lparr>ap_x = x, ap_y = y\<rparr>"

definition push_new :: "TokenId \<Rightarrow> TokenId set \<times> TokenId list \<Rightarrow> TokenId set \<times> TokenId list" where
  "push_new t s = (let (seen, out) = s in if t \<in> seen then (seen, out) else (insert t seen, out @ [t]))"

definition unique_tokens :: "AssetPair list \<Rightarrow> TokenId list" where
  "unique_tokens pairs = snd (fold (\<lambda>p s. push_new (ap_y p) (push_new (ap_x p) s)) pairs ({}, []))"

lemma push_new_ok:
  assumes "distinct out" "seen = set out" "push_new t (seen, out) = (seen', out')"
  shows "distinct out' \<and> seen' = set out' \<and> seen' = insert t seen \<and> prefix out out'"
  using assms by (auto simp: push_new_def split: if_splits)

lemma fold_push_new:
  assumes "distinct out" "seen = set out"
    and "fold (\<lambda>p s. push_new (ap_y p) (push_new (ap_x p) s)) ps (seen, out) = (seen', out')"
  shows "distinct out' \<and> seen' = set out' \<and> set out' = set out \<union> ap_x ` set ps \<union> ap_y ` set ps \<and> prefix out out'"
  using assms
proof (induction ps arbitrary: seen out)
  case (Cons p ps)
  obtain s1 o1 where 1: "push_new (ap_x p) (seen, out) = (s1, o1)"
    by fastforce
  obtain s2 o2 where 2: "push_new (ap_y p) (s1, o1) = (s2, o2)"
    by fastforce
  note a = push_new_ok [OF Cons.prems(1,2) 1]
  have b: "distinct o2 \<and> s2 = set o2 \<and> s2 = insert (ap_y p) s1 \<and> prefix o1 o2"
    by (rule push_new_ok [OF _ _ 2]) (use a in auto)
  have "distinct out' \<and> seen' = set out' \<and> set out' = set o2 \<union> ap_x ` set ps \<union> ap_y ` set ps \<and> prefix o2 out'"
    by (rule Cons.IH) (use b Cons.prems(3) 1 2 in auto)
  with a b Cons.prems(2) show ?case
    by auto
qed simp

section \<open>Properties\<close>

text \<open>
  A status survives the round trip through its database text, and a text that
  parses as a status is the text of that status.
\<close>

theorem status_roundtrip:
  "status_from_str (as_str s) = Some s \<and> (status_from_str str = Some t \<longleftrightarrow> str = as_str t)"
  by (rule conjI, simp, cases t) (auto simp: status_from_str_def)

text \<open>
  The tokens seeded from the configured pairs are the tokens of the pairs, each
  once, in the order in which they are first seen: the result for a prefix of the
  pairs is a prefix of the result.
\<close>

theorem unique_tokens_exact:
  "distinct (unique_tokens pairs) \<and> set (unique_tokens pairs) = ap_x ` set pairs \<union> ap_y ` set pairs
   \<and> prefix (unique_tokens pairs) (unique_tokens (pairs @ rest))"
proof -
  let ?f = "\<lambda>p s. push_new (ap_y p) (push_new (ap_x p) s)"
  obtain s o1 where 1: "fold ?f pairs ({}, []) = (s, o1)" by fastforce
  obtain s' o2 where 2: "fold ?f rest (s, o1) = (s', o2)" by fastforce
  note a = fold_push_new [OF _ _ 1]
  have "prefix o1 o2"
    using fold_push_new [OF _ _ 2] a by simp
  with a 1 2 show ?thesis
    by (simp add: unique_tokens_def)
qed

end
