(* ===== verification/Db.thy ===== *)
theory Db
  imports Pipeline_Types "HOL-Library.List_Lexorder"
begin

text \<open>
  The persistent store, \<open>db/db.rs\<close> and \<open>db/models.rs\<close>. A table is a partial
  function from its primary key to its row, as the migrations declare it; the
  rows of a query come in an unspecified order, which is a parameter. SQLite's
  statements are modelled as the statements say: insert-or-ignore skips a row
  whose key exists or whose status violates the table's check constraint, a plain
  insert fails on an existing key, a transaction applies all or nothing.
  Identifiers are decoded by the protocol crate, whose readers and writers are
  parameters. The signed columns hold the same 64 bits as the unsigned values
  cast to them.
\<close>

section \<open>Rows and tables\<close>

type_synonym i64 = "64 word"

record SyncState =
  ss_id :: nat
  last_fetched_block :: i64

record NoteRow =
  nr_note_id :: bytes
  nr_account_id :: bytes
  nr_raw_data :: bytes

record OrderRow =
  or_note_id :: bytes
  or_account_id :: bytes
  or_requested_asset :: bytes
  or_requested_amount :: i64
  or_offered_asset :: bytes
  or_offered_amount :: i64
  or_timestamp :: i64
  or_status :: string

definition order_status :: "OrderRow \<Rightarrow> OrderStatus option" where
  "order_status row = status_from_str (or_status row)"

definition with_status :: "OrderRow \<Rightarrow> OrderStatus \<Rightarrow> OrderRow" where
  "with_status row status = row\<lparr>or_status := as_str status\<rparr>"

record GeneratedNoteRow =
  gn_note_id :: bytes
  gn_account_id :: bytes
  gn_source_note_a :: bytes
  gn_source_note_b :: bytes
  gn_data :: bytes
  gn_created_at :: i64

record RegisteredTokenRow =
  rt_token_id :: bytes
  rt_created_at :: i64
  rt_external_symbol :: "string option"
  rt_decimals :: "int option"
  rt_ticker :: "string option"

record Db =
  t_sync_state :: SyncState
  t_notes :: "bytes \<Rightarrow> NoteRow option"
  t_orders :: "bytes \<Rightarrow> OrderRow option"
  t_generated :: "bytes \<Rightarrow> GeneratedNoteRow option"
  t_tokens :: "bytes \<Rightarrow> RegisteredTokenRow option"

definition db_new :: Db where
  "db_new = \<lparr>t_sync_state = \<lparr>ss_id = 1, last_fetched_block = 0\<rparr>, t_notes = Map.empty, t_orders = Map.empty,
     t_generated = Map.empty, t_tokens = Map.empty\<rparr>"

definition status_check :: "string \<Rightarrow> bool" where
  "status_check s \<longleftrightarrow> s \<in> {''active'', ''settling'', ''executed'', ''onchain_nullified''}"

section \<open>Sync state and ingestion\<close>

definition get_last_fetched_block :: "Db \<Rightarrow> u64" where
  "get_last_fetched_block db = last_fetched_block (t_sync_state db)"

definition insert_note :: "NoteRow \<Rightarrow> Db \<Rightarrow> Db" where
  "insert_note row db =
     (if t_notes db (nr_note_id row) \<noteq> None then db
      else db\<lparr>t_notes := (t_notes db)(nr_note_id row \<mapsto> row)\<rparr>)"

definition insert_order :: "OrderRow \<Rightarrow> Db \<times> bytes set \<Rightarrow> Db \<times> bytes set" where
  "insert_order row s =
     (let (db, inserted) = s in
      if t_orders db (or_note_id row) \<noteq> None \<or> \<not> status_check (or_status row) then (db, inserted)
      else (db\<lparr>t_orders := (t_orders db)(or_note_id row \<mapsto> row)\<rparr>, insert (or_note_id row) inserted))"

definition insert_notes_batch :: "NoteRow list \<Rightarrow> OrderRow list \<Rightarrow> u64 \<Rightarrow> Db \<Rightarrow> bytes set \<times> Db" where
  "insert_notes_batch new_notes new_orders block_number db =
     (let db1 = fold insert_note new_notes db;
          (db2, inserted) = fold insert_order new_orders (db1, {})
      in (inserted, db2\<lparr>t_sync_state := (t_sync_state db2)\<lparr>last_fetched_block := block_number\<rparr>\<rparr>))"

section \<open>Orders\<close>

definition get_active_orders :: "(bytes set \<Rightarrow> bytes list) \<Rightarrow> Db \<Rightarrow> OrderRow list" where
  "get_active_orders order db =
     filter (\<lambda>row. or_status row = as_str Active)
       (map (\<lambda>k. the (t_orders db k)) (order (dom (t_orders db))))"

definition update_order_status :: "bytes \<Rightarrow> OrderStatus \<Rightarrow> Db \<Rightarrow> Db" where
  "update_order_status nid status db =
     db\<lparr>t_orders := (t_orders db)(nid := map_option (\<lambda>row. with_status row status) (t_orders db nid))\<rparr>"

definition reset_orders_to_active :: "bytes list \<Rightarrow> Db \<Rightarrow> Db" where
  "reset_orders_to_active nids db = fold (\<lambda>nid. update_order_status nid Active) nids db"

definition update_where :: "(bytes \<Rightarrow> OrderRow \<Rightarrow> bool) \<Rightarrow> OrderStatus \<Rightarrow> Db \<Rightarrow> Db" where
  "update_where P status db =
     db\<lparr>t_orders := (\<lambda>k. case t_orders db k of
          None \<Rightarrow> None
        | Some row \<Rightarrow> Some (if P k row then with_status row status else row))\<rparr>"

text \<open>The number of rows a statement updates, among the keys it lists.\<close>

definition count_where :: "bytes list \<Rightarrow> (OrderRow \<Rightarrow> bool) \<Rightarrow> Db \<Rightarrow> nat" where
  "count_where nids P db =
     length (filter (\<lambda>k. case t_orders db k of None \<Rightarrow> False | Some row \<Rightarrow> P row) (remdups nids))"

definition update_orders_status :: "bytes list \<Rightarrow> OrderStatus \<Rightarrow> Db \<Rightarrow> nat \<times> Db" where
  "update_orders_status nids new_status db =
     (count_where nids (\<lambda>row. True) db, update_where (\<lambda>k row. k \<in> set nids) new_status db)"

definition mark_orders_onchain_nullified :: "bytes list \<Rightarrow> Db \<Rightarrow> nat \<times> Db" where
  "mark_orders_onchain_nullified nids db =
     (let P = (\<lambda>row. or_status row \<in> {as_str Active, as_str Settling})
      in (count_where nids P db, update_where (\<lambda>k row. k \<in> set nids \<and> P row) OnchainNullified db))"

definition reset_all_settling_to_active :: "Db \<Rightarrow> nat \<times> Db" where
  "reset_all_settling_to_active db =
     (card {k \<in> dom (t_orders db). or_status (the (t_orders db k)) = as_str Settling},
      update_where (\<lambda>k row. or_status row = as_str Settling) Active db)"

datatype db_error = InvalidNoteId | InvalidOfferedAsset | InvalidRequestedAsset | InvalidToken | ConstraintViolation

definition decode_order :: "(bytes \<Rightarrow> OrderId option) \<Rightarrow> (bytes \<Rightarrow> TokenId option) \<Rightarrow> OrderRow \<Rightarrow> bytes
    \<Rightarrow> db_error + IngestOrder" where
  "decode_order read_id read_token row raw_data =
     (case read_id (or_note_id row) of
        None \<Rightarrow> Inl InvalidNoteId
      | Some nid \<Rightarrow>
        (case read_token (or_offered_asset row) of
           None \<Rightarrow> Inl InvalidOfferedAsset
         | Some off \<Rightarrow>
           (case read_token (or_requested_asset row) of
              None \<Rightarrow> Inl InvalidRequestedAsset
            | Some req \<Rightarrow>
                Inr \<lparr>io_note_id = nid, io_offered_token = off, io_requested_token = req,
                     io_offered_amount = or_offered_amount row, io_requested_amount = or_requested_amount row,
                     io_raw_note_data = raw_data\<rparr>)))"

fun decode_orders :: "(bytes \<Rightarrow> OrderId option) \<Rightarrow> (bytes \<Rightarrow> TokenId option) \<Rightarrow> (OrderRow \<times> bytes) list
    \<Rightarrow> db_error + IngestOrder list" where
  "decode_orders read_id read_token [] = Inr []"
| "decode_orders read_id read_token ((row, raw) # rows) =
     (case decode_order read_id read_token row raw of
        Inl e \<Rightarrow> Inl e
      | Inr io \<Rightarrow>
        (case decode_orders read_id read_token rows of
           Inl e \<Rightarrow> Inl e
         | Inr out \<Rightarrow> Inr (io # out)))"

definition active_rows_with_notes :: "(bytes set \<Rightarrow> bytes list) \<Rightarrow> Db \<Rightarrow> (OrderRow \<times> bytes) list" where
  "active_rows_with_notes order db =
     List.map_filter (\<lambda>row. map_option (\<lambda>nrow. (row, nr_raw_data nrow)) (t_notes db (or_note_id row)))
       (get_active_orders order db)"

definition load_active_orders_with_notes :: "(bytes set \<Rightarrow> bytes list) \<Rightarrow> (bytes \<Rightarrow> OrderId option)
    \<Rightarrow> (bytes \<Rightarrow> TokenId option) \<Rightarrow> Db \<Rightarrow> db_error + IngestOrder list" where
  "load_active_orders_with_notes order read_id read_token db =
     decode_orders read_id read_token (active_rows_with_notes order db)"

definition execute_trade_atomic :: "GeneratedNoteRow \<Rightarrow> bytes \<Rightarrow> bytes \<Rightarrow> Db \<Rightarrow> (db_error + unit) \<times> Db" where
  "execute_trade_atomic generated_note source_note_a source_note_b db =
     (if t_generated db (gn_note_id generated_note) \<noteq> None then (Inl ConstraintViolation, db)
      else (Inr (),
            update_order_status source_note_b Executed
              (update_order_status source_note_a Executed
                (db\<lparr>t_generated := (t_generated db)(gn_note_id generated_note \<mapsto> generated_note)\<rparr>))))"

section \<open>Registered tokens\<close>

definition get_registered_tokens :: "(bytes set \<Rightarrow> bytes list) \<Rightarrow> Db \<Rightarrow> RegisteredTokenRow list" where
  "get_registered_tokens order db = map (\<lambda>k. the (t_tokens db k)) (order (dom (t_tokens db)))"

definition register_token :: "i64 \<Rightarrow> bytes \<Rightarrow> string option \<Rightarrow> Db \<Rightarrow> bool \<times> Db" where
  "register_token now tok external_symbol db =
     (if t_tokens db tok \<noteq> None then (False, db)
      else (True, db\<lparr>t_tokens := (t_tokens db)(tok \<mapsto>
              \<lparr>rt_token_id = tok, rt_created_at = now, rt_external_symbol = external_symbol,
               rt_decimals = None, rt_ticker = None\<rparr>)\<rparr>))"

definition set_token_metadata :: "bytes \<Rightarrow> int option \<Rightarrow> string option \<Rightarrow> Db \<Rightarrow> bool \<times> Db" where
  "set_token_metadata tok decimals ticker db =
     (case t_tokens db tok of
        None \<Rightarrow> (False, db)
      | Some row \<Rightarrow> (True, db\<lparr>t_tokens := (t_tokens db)(tok \<mapsto> row\<lparr>rt_decimals := decimals, rt_ticker := ticker\<rparr>)\<rparr>))"

definition get_registered_token :: "bytes \<Rightarrow> Db \<Rightarrow> RegisteredTokenRow option" where
  "get_registered_token tok db = t_tokens db tok"

definition update_token_symbol :: "bytes \<Rightarrow> string option \<Rightarrow> Db \<Rightarrow> bool \<times> Db" where
  "update_token_symbol tok symbol db =
     (case t_tokens db tok of
        None \<Rightarrow> (False, db)
      | Some row \<Rightarrow> (True, db\<lparr>t_tokens := (t_tokens db)(tok \<mapsto> row\<lparr>rt_external_symbol := symbol\<rparr>)\<rparr>))"

fun symbols_of :: "(bytes \<Rightarrow> TokenId option) \<Rightarrow> RegisteredTokenRow list \<Rightarrow> (TokenId \<Rightarrow> string option)
    \<Rightarrow> db_error + (TokenId \<Rightarrow> string option)" where
  "symbols_of read_token [] out = Inr out"
| "symbols_of read_token (row # rows) out =
     (case rt_external_symbol row of
        None \<Rightarrow> symbols_of read_token rows out
      | Some symbol \<Rightarrow>
        (case read_token (rt_token_id row) of
           None \<Rightarrow> Inl InvalidToken
         | Some token \<Rightarrow> symbols_of read_token rows (out(token \<mapsto> symbol))))"

definition load_token_symbols :: "(bytes set \<Rightarrow> bytes list) \<Rightarrow> (bytes \<Rightarrow> TokenId option) \<Rightarrow> Db
    \<Rightarrow> db_error + (TokenId \<Rightarrow> string option)" where
  "load_token_symbols order read_token db = symbols_of read_token (get_registered_tokens order db) Map.empty"

definition unregister_token :: "bytes \<Rightarrow> Db \<Rightarrow> bool \<times> Db" where
  "unregister_token tok db =
     (t_tokens db tok \<noteq> None, db\<lparr>t_tokens := (t_tokens db)(tok := None)\<rparr>)"

fun tokens_of :: "(bytes \<Rightarrow> TokenId option) \<Rightarrow> RegisteredTokenRow list \<Rightarrow> db_error + TokenId list" where
  "tokens_of read_token [] = Inr []"
| "tokens_of read_token (row # rows) =
     (case read_token (rt_token_id row) of
        None \<Rightarrow> Inl InvalidToken
      | Some t \<Rightarrow> (case tokens_of read_token rows of Inl e \<Rightarrow> Inl e | Inr ts \<Rightarrow> Inr (t # ts)))"

definition load_registered_tokens :: "(bytes set \<Rightarrow> bytes list) \<Rightarrow> (bytes \<Rightarrow> TokenId option) \<Rightarrow> Db
    \<Rightarrow> db_error + TokenId list" where
  "load_registered_tokens order read_token db = tokens_of read_token (get_registered_tokens order db)"

definition seed_tokens_from_config :: "(TokenId \<Rightarrow> i64) \<Rightarrow> (TokenId \<Rightarrow> bytes) \<Rightarrow> (TokenId \<times> string option) list \<Rightarrow> Db \<Rightarrow> Db" where
  "seed_tokens_from_config now write_token toks db =
     fold (\<lambda>(token, symbol) d. snd (register_token (now token) (write_token token) symbol d)) toks db"

section \<open>Ingestion of a batch\<close>

lemma insert_note_other [simp]:
  "t_orders (insert_note r db) = t_orders db" "t_tokens (insert_note r db) = t_tokens db"
  "t_generated (insert_note r db) = t_generated db" "t_sync_state (insert_note r db) = t_sync_state db"
  by (simp_all add: insert_note_def)

lemma insert_notes_other [simp]:
  "t_orders (fold insert_note rs db) = t_orders db" "t_tokens (fold insert_note rs db) = t_tokens db"
  "t_generated (fold insert_note rs db) = t_generated db" "t_sync_state (fold insert_note rs db) = t_sync_state db"
  by (induction rs arbitrary: db) simp_all

lemma insert_note_keep: "t_notes db k = Some r \<Longrightarrow> t_notes (insert_note x db) k = Some r"
  by (auto simp: insert_note_def)

lemma insert_notes_keep: "t_notes db k = Some r \<Longrightarrow> t_notes (fold insert_note rs db) k = Some r"
  by (induction rs arbitrary: db) (simp_all add: insert_note_keep)

lemma insert_notes_dom: "dom (t_notes (fold insert_note rs db)) = dom (t_notes db) \<union> nr_note_id ` set rs"
  by (induction rs arbitrary: db) (auto simp: insert_note_def)

lemma insert_notes_known: "\<forall>r \<in> set rs. t_notes db (nr_note_id r) \<noteq> None \<Longrightarrow> fold insert_note rs db = db"
  by (induction rs) (simp_all add: insert_note_def)

definition new_ids :: "OrderRow list \<Rightarrow> Db \<Rightarrow> bytes set" where
  "new_ids rows db = {k \<in> or_note_id ` {r \<in> set rows. status_check (or_status r)}. t_orders db k = None}"

lemma insert_order_cases:
  assumes "insert_order r (db, I) = (db', I')"
  obtains "t_orders db (or_note_id r) \<noteq> None \<or> \<not> status_check (or_status r)" "db' = db" "I' = I"
  | "t_orders db (or_note_id r) = None" "status_check (or_status r)"
    "db' = db\<lparr>t_orders := (t_orders db)(or_note_id r \<mapsto> r)\<rparr>" "I' = insert (or_note_id r) I"
proof (cases "t_orders db (or_note_id r) \<noteq> None \<or> \<not> status_check (or_status r)")
  case True
  then show thesis
    using assms by (intro that(1)) (simp_all add: insert_order_def)
next
  case False
  then show thesis
    using assms by (intro that(2)) (simp_all add: insert_order_def)
qed

definition inserts :: "OrderRow list \<Rightarrow> Db \<Rightarrow> Db \<Rightarrow> bool" where
  "inserts rows db db' \<longleftrightarrow> dom (t_orders db') = dom (t_orders db) \<union> new_ids rows db
     \<and> t_orders db \<subseteq>\<^sub>m t_orders db' \<and> (\<exists>f. db' = db\<lparr>t_orders := f\<rparr>)
     \<and> (\<forall>k \<in> new_ids rows db. \<exists>r \<in> set rows. t_orders db' k = Some r \<and> or_note_id r = k \<and> status_check (or_status r))"

lemma inserts_Cons_skip:
  assumes "inserts rows db db'" "t_orders db (or_note_id r) \<noteq> None \<or> \<not> status_check (or_status r)"
  shows "inserts (r # rows) db db'" "new_ids (r # rows) db = new_ids rows db"
proof -
  show "new_ids (r # rows) db = new_ids rows db"
    using assms(2) by (auto simp: new_ids_def)
  with assms(1) show "inserts (r # rows) db db'"
    by (simp add: inserts_def)
qed

lemma inserts_Cons_new:
  assumes "inserts rows (db\<lparr>t_orders := (t_orders db)(or_note_id r \<mapsto> r)\<rparr>) db'"
    and "t_orders db (or_note_id r) = None" "status_check (or_status r)"
  shows "inserts (r # rows) db db'"
    and "new_ids (r # rows) db = insert (or_note_id r) (new_ids rows (db\<lparr>t_orders := (t_orders db)(or_note_id r \<mapsto> r)\<rparr>))"
proof -
  let ?db1 = "db\<lparr>t_orders := (t_orders db)(or_note_id r \<mapsto> r)\<rparr>"
  show n: "new_ids (r # rows) db = insert (or_note_id r) (new_ids rows ?db1)"
    using assms(2,3) by (auto simp: new_ids_def)
  note I = assms(1) [unfolded inserts_def]
  have le: "(t_orders db)(or_note_id r \<mapsto> r) \<subseteq>\<^sub>m t_orders db'"
    using I by simp
  then have "t_orders db' (or_note_id r) = Some r"
    by (simp add: map_le_def)
  moreover have "t_orders db \<subseteq>\<^sub>m t_orders db'"
    using le assms(2) by (auto simp: map_le_def dom_def split: if_splits)
  ultimately show "inserts (r # rows) db db'"
    unfolding inserts_def n using I assms(3) by auto
qed

lemma insert_orders_result:
  "inserts rows db (fst (fold insert_order rows (db, I))) \<and> snd (fold insert_order rows (db, I)) = I \<union> new_ids rows db"
proof (induction rows arbitrary: db I)
  case Nil
  have "\<exists>f. db = db\<lparr>t_orders := f\<rparr>"
    by (rule exI [of _ "t_orders db"]) simp
  then show ?case
    by (simp add: inserts_def new_ids_def)
next
  case (Cons r rows)
  obtain db1 I1 where 1: "insert_order r (db, I) = (db1, I1)" by fastforce
  note IH = Cons.IH [of db1 I1]
  from 1 show ?case
  proof (cases rule: insert_order_cases)
    case c: 1
    then have "inserts rows db (fst (fold insert_order rows (db1, I1)))"
      using IH by simp
    from inserts_Cons_skip [OF this c(1)] IH 1 c(2,3) show ?thesis
      by simp
  next
    case c: 2
    then have "inserts rows (db\<lparr>t_orders := (t_orders db)(or_note_id r \<mapsto> r)\<rparr>) (fst (fold insert_order rows (db1, I1)))"
      using IH by simp
    from inserts_Cons_new [OF this c(1,2)] IH 1 c(3,4) show ?thesis
      by simp
  qed
qed

lemma insert_orders_known: "new_ids rows db = {} \<Longrightarrow> fold insert_order rows (db, I) = (db, I)"
proof (induction rows)
  case (Cons r rows)
  then have "insert_order r (db, I) = (db, I)" "new_ids rows db = {}"
    by (auto simp: insert_order_def new_ids_def)
  with Cons.IH show ?case
    by simp
qed simp

lemma insert_notes_batch_result:
  assumes "\<forall>r \<in> set new_orders. status_check (or_status r)"
    and "insert_notes_batch new_notes new_orders block db = (inserted, db')"
  shows "inserted = or_note_id ` set new_orders - dom (t_orders db)
    \<and> dom (t_orders db') = dom (t_orders db) \<union> inserted
    \<and> (\<forall>k row. t_orders db k = Some row \<longrightarrow> t_orders db' k = Some row)
    \<and> (\<forall>k \<in> inserted. \<exists>row \<in> set new_orders. t_orders db' k = Some row \<and> or_note_id row = k)
    \<and> (\<forall>r \<in> set new_notes. t_notes db' (nr_note_id r) \<noteq> None)
    \<and> (\<forall>k row. t_notes db k = Some row \<longrightarrow> t_notes db' k = Some row)
    \<and> get_last_fetched_block db' = block
    \<and> insert_notes_batch new_notes new_orders block db' = ({}, db')"
proof -
  let ?db1 = "fold insert_note new_notes db"
  define db2 where "db2 = fst (fold insert_order new_orders (?db1, {}))"
  have R: "inserts new_orders ?db1 db2" "snd (fold insert_order new_orders (?db1, {})) = new_ids new_orders ?db1"
    using insert_orders_result [of new_orders ?db1 "{}"] by (simp_all add: db2_def)
  have db': "db' = db2\<lparr>t_sync_state := (t_sync_state db2)\<lparr>last_fetched_block := block\<rparr>\<rparr>"
      and ins: "inserted = new_ids new_orders ?db1"
    using assms(2) R by (auto simp: insert_notes_batch_def db2_def Let_def split: prod.splits)
  have new: "new_ids new_orders ?db1 = or_note_id ` set new_orders - dom (t_orders db)"
    using assms(1) by (auto simp: new_ids_def)
  obtain f where f: "db2 = ?db1\<lparr>t_orders := f\<rparr>"
    using R(1) by (auto simp: inserts_def)
  have nts: "t_notes db' = t_notes ?db1"
    by (simp add: db' f)
  have ord: "t_orders db' = t_orders db2"
    by (simp add: db')
  have "new_ids new_orders db' = {}"
    using R(1) assms(1) by (auto simp: new_ids_def inserts_def ord new)
  then have "fold insert_order new_orders (db', {}) = (db', {})"
    by (rule insert_orders_known)
  moreover have "fold insert_note new_notes db' = db'"
    by (rule insert_notes_known) (use insert_notes_dom [of new_notes db] in \<open>auto simp: nts\<close>)
  ultimately have "insert_notes_batch new_notes new_orders block db' = ({}, db')"
    by (simp add: insert_notes_batch_def Let_def db')
  moreover have "\<forall>k row. t_orders db k = Some row \<longrightarrow> t_orders db' k = Some row"
    using R(1) by (fastforce simp: inserts_def ord map_le_def dom_def)
  moreover have "\<forall>k \<in> inserted. \<exists>row \<in> set new_orders. t_orders db' k = Some row \<and> or_note_id row = k"
    using R(1) by (auto simp: inserts_def ord ins)
  moreover have "\<forall>r \<in> set new_notes. t_notes db' (nr_note_id r) \<noteq> None"
    using insert_notes_dom [of new_notes db] by (auto simp: nts)
  moreover have "\<forall>k row. t_notes db k = Some row \<longrightarrow> t_notes db' k = Some row"
    using insert_notes_keep by (simp add: nts)
  moreover have "dom (t_orders db') = dom (t_orders db) \<union> inserted"
    using R(1) by (simp add: inserts_def ord ins)
  ultimately show ?thesis
    using new ins by (simp add: get_last_fetched_block_def db')
qed

text \<open>
  Ingesting a batch is exact and idempotent. The returned ids are those of the
  batch's orders that were not stored before; a stored row is never overwritten, a
  new row is one of the batch, every note is stored, the cursor is the given block,
  and repeating the call returns nothing and changes nothing.
\<close>

theorem insert_notes_batch_exact:
  assumes "\<forall>r \<in> set new_orders. status_check (or_status r)"
    and "insert_notes_batch new_notes new_orders block db = (inserted, db')"
  shows "inserted = or_note_id ` set new_orders - dom (t_orders db)
    \<and> dom (t_orders db') = dom (t_orders db) \<union> inserted
    \<and> (\<forall>k row. t_orders db k = Some row \<longrightarrow> t_orders db' k = Some row)
    \<and> (\<forall>k \<in> inserted. \<exists>row \<in> set new_orders. t_orders db' k = Some row \<and> or_note_id row = k)
    \<and> (\<forall>r \<in> set new_notes. t_notes db' (nr_note_id r) \<noteq> None)
    \<and> (\<forall>k row. t_notes db k = Some row \<longrightarrow> t_notes db' k = Some row)
    \<and> get_last_fetched_block db' = block
    \<and> insert_notes_batch new_notes new_orders block db' = ({}, db')"
  by (rule insert_notes_batch_result [OF assms])

definition sample_row :: OrderRow where
  "sample_row = \<lparr>or_note_id = [1], or_account_id = [9], or_requested_asset = [2], or_requested_amount = 190,
     or_offered_asset = [1], or_offered_amount = 100, or_timestamp = 5, or_status = as_str Active\<rparr>"

definition sample_note_row :: NoteRow where
  "sample_note_row = \<lparr>nr_note_id = [1], nr_account_id = [9], nr_raw_data = [4, 4]\<rparr>"

definition sample_db :: Db where
  "sample_db = snd (insert_notes_batch [sample_note_row] [sample_row, sample_row] 42 db_new)"

theorem insert_notes_batch_exact_witness:
  "\<exists>db'. insert_notes_batch [sample_note_row] [sample_row, sample_row] 42 db_new = ({[1]}, db')
     \<and> insert_notes_batch [sample_note_row] [sample_row, sample_row] 42 db' = ({}, db')"
proof -
  obtain ins db' where r: "insert_notes_batch [sample_note_row] [sample_row, sample_row] 42 db_new = (ins, db')"
    by fastforce
  have "\<forall>r \<in> set [sample_row, sample_row]. status_check (or_status r)"
    by code_simp
  from insert_notes_batch_exact [OF this r] have h: "ins = or_note_id ` set [sample_row, sample_row] - dom (t_orders db_new)"
      "insert_notes_batch [sample_note_row] [sample_row, sample_row] 42 db' = ({}, db')"
    by blast+
  have "or_note_id ` set [sample_row, sample_row] - dom (t_orders db_new) = {[1]}"
    by (simp add: sample_row_def db_new_def)
  with r h show ?thesis
    by simp
qed

section \<open>Order statuses\<close>

lemma update_where_status:
  "t_orders (update_where P st db) k = (case t_orders db k of None \<Rightarrow> None
     | Some row \<Rightarrow> Some (if P k row then with_status row st else row))"
  by (simp add: update_where_def)

lemma update_order_status_where: "update_order_status nid st db = update_where (\<lambda>k row. k = nid) st db"
  by (auto simp: update_order_status_def update_where_def fun_eq_iff map_option_case split: option.splits)

inductive db_step :: "Db \<Rightarrow> Db \<Rightarrow> bool" where
  step_insert: "db_step db (snd (insert_notes_batch ns os b db))"
| step_status: "db_step db (update_order_status nid st db)"
| step_reset: "db_step db (reset_orders_to_active nids db)"
| step_bulk: "db_step db (snd (update_orders_status nids st db))"
| step_nullify: "db_step db (snd (mark_orders_onchain_nullified nids db))"
| step_recover: "db_step db (snd (reset_all_settling_to_active db))"
| step_trade: "db_step db (snd (execute_trade_atomic g a b db))"
| step_register: "db_step db (snd (register_token now tok smb db))"
| step_metadata: "db_step db (snd (set_token_metadata tok dec tick db))"
| step_symbol: "db_step db (snd (update_token_symbol tok smb db))"
| step_unregister: "db_step db (snd (unregister_token tok db))"

definition db_typed :: "Db \<Rightarrow> bool" where
  "db_typed db \<longleftrightarrow> (\<forall>k row. t_orders db k = Some row \<longrightarrow> or_note_id row = k \<and> order_status row \<noteq> None)
     \<and> (\<forall>k row. t_tokens db k = Some row \<longrightarrow> rt_token_id row = k)"

lemma status_check_order: "status_check (or_status r) \<Longrightarrow> order_status r \<noteq> None"
  by (auto simp: status_check_def order_status_def status_from_str_def)

lemma order_status_with [simp]: "order_status (with_status r st) = Some st"
  by (simp add: order_status_def with_status_def)

lemma db_typed_cong: "t_orders db' = t_orders db \<Longrightarrow> t_tokens db' = t_tokens db \<Longrightarrow> db_typed db' = db_typed db"
  by (simp add: db_typed_def)

lemma db_typed_update_where: "db_typed db \<Longrightarrow> db_typed (update_where P st db)"
  by (auto simp: db_typed_def update_where_status with_status_def [of _ st] update_where_def
      order_status_def split: option.splits if_splits)

lemma db_typed_insert:
  assumes "db_typed db"
  shows "db_typed (snd (insert_notes_batch ns os b db))"
proof -
  let ?db1 = "fold insert_note ns db"
  define db2 where "db2 = fst (fold insert_order os (?db1, {}))"
  have I: "inserts os ?db1 db2"
    using insert_orders_result [of os ?db1 "{}"] by (simp add: db2_def)
  then obtain f where f: "db2 = ?db1\<lparr>t_orders := f\<rparr>"
    by (auto simp: inserts_def)
  have "or_note_id row = k \<and> order_status row \<noteq> None" if k: "t_orders db2 k = Some row" for k row
  proof (cases "t_orders db k")
    case None
    then have "k \<in> new_ids os ?db1"
      using I k by (auto simp: inserts_def)
    then show ?thesis
      using I k status_check_order by (fastforce simp: inserts_def)
  next
    case (Some r)
    then have "t_orders db2 k = Some r"
      using I by (fastforce simp: inserts_def map_le_def dom_def)
    with Some k assms show ?thesis
      by (auto simp: db_typed_def)
  qed
  then have "db_typed db2"
    using assms by (simp add: db_typed_def f)
  moreover have "snd (insert_notes_batch ns os b db) = db2\<lparr>t_sync_state := (t_sync_state db2)\<lparr>last_fetched_block := b\<rparr>\<rparr>"
    by (simp add: insert_notes_batch_def Let_def db2_def split: prod.split)
  ultimately show ?thesis
    using db_typed_cong [of "snd (insert_notes_batch ns os b db)" db2] by simp
qed

lemma db_typed_reset: "db_typed db \<Longrightarrow> db_typed (reset_orders_to_active nids db)"
  unfolding reset_orders_to_active_def
  by (induction nids arbitrary: db) (simp_all add: update_order_status_where db_typed_update_where)

lemma db_typed_tokens:
  assumes "db_typed db" "\<And>k row. f k = Some row \<Longrightarrow> rt_token_id row = k"
  shows "db_typed (db\<lparr>t_tokens := f\<rparr>)"
  using assms by (simp add: db_typed_def)

lemma db_step_typed:
  assumes "db_typed db" "db_step db db'"
  shows "db_typed db'"
  using assms(2,1)
proof cases
  case (step_trade g a b)
  have "db_typed (db\<lparr>t_generated := f\<rparr>)" for f
    using assms(1) by (simp add: db_typed_def)
  then show ?thesis
    unfolding step_trade using assms(1)
    by (simp add: execute_trade_atomic_def update_order_status_where db_typed_update_where)
next
  case (step_register now tok smb)
  show ?thesis
    unfolding step_register using assms(1) by (auto simp: register_token_def db_typed_def)
next
  case (step_metadata tok dec tick)
  show ?thesis
    unfolding step_metadata using assms(1) by (auto simp: set_token_metadata_def db_typed_def split: option.split)
next
  case (step_symbol tok smb)
  show ?thesis
    unfolding step_symbol using assms(1) by (auto simp: update_token_symbol_def db_typed_def split: option.split)
next
  case (step_unregister tok)
  show ?thesis
    unfolding step_unregister using assms(1) by (auto simp: unregister_token_def db_typed_def)
qed (use assms(1) in \<open>simp_all add: db_typed_insert db_typed_reset db_typed_update_where update_order_status_where
      update_orders_status_def mark_orders_onchain_nullified_def reset_all_settling_to_active_def Let_def\<close>)

interpretation db_system: invariant_system "\<lambda>db. db = db_new" db_step db_typed
proof unfold_locales
  show "db_typed s" if "s = db_new" for s
    using that by (simp add: db_typed_def db_new_def)
qed (rule db_step_typed)

text \<open>
  C33: whatever the store's operations have done to it, every order row is stored under
  its own note id with a status that parses, and every token row under its own id.
\<close>

theorem db_rows_typed:
  assumes "db_step\<^sup>*\<^sup>* db_new db" "t_orders db k = Some row"
  shows "or_note_id row = k \<and> (\<exists>s. order_status row = Some s \<and> or_status row = as_str s)"
proof -
  have "db_typed db"
    using db_system.reachable_inv assms(1) by blast
  then obtain s where "or_note_id row = k" "order_status row = Some s"
    using assms(2) unfolding db_typed_def by blast
  moreover from this have "or_status row = as_str s"
    by (cases s) (auto simp: order_status_def status_from_str_def split: if_splits)
  ultimately show ?thesis
    by blast
qed

theorem db_rows_typed_witness:
  "t_orders sample_db [1] = Some sample_row \<and> (\<exists>s. order_status sample_row = Some s)"
proof -
  have r: "t_orders sample_db [1] = Some sample_row"
    by code_simp
  have "db_step\<^sup>*\<^sup>* db_new sample_db"
    unfolding sample_db_def by (rule r_into_rtranclp, rule step_insert)
  from db_rows_typed [OF this r] r show ?thesis
    by blast
qed

text \<open>
  Marking orders as consumed on chain changes exactly the listed rows that are active
  or settling, counts them, and leaves every executed row as it is.
\<close>

theorem nullify_exact:
  assumes "mark_orders_onchain_nullified nids db = (n, db')"
  shows "n = card {k \<in> set nids. \<exists>row. t_orders db k = Some row \<and> order_status row \<in> {Some Active, Some Settling}}
    \<and> (\<forall>k. t_orders db' k = (case t_orders db k of None \<Rightarrow> None
          | Some row \<Rightarrow> Some (if k \<in> set nids \<and> order_status row \<in> {Some Active, Some Settling}
                                then with_status row OnchainNullified else row)))
    \<and> (\<forall>k row. t_orders db k = Some row \<and> order_status row = Some Executed \<longrightarrow> t_orders db' k = Some row)"
proof -
  have st: "or_status row \<in> {as_str Active, as_str Settling} \<longleftrightarrow> order_status row \<in> {Some Active, Some Settling}" for row
    by (auto simp: order_status_def status_from_str_def)
  have n: "n = count_where nids (\<lambda>row. order_status row \<in> {Some Active, Some Settling}) db"
      and o: "t_orders db' k = (case t_orders db k of None \<Rightarrow> None
          | Some row \<Rightarrow> Some (if k \<in> set nids \<and> order_status row \<in> {Some Active, Some Settling}
                                then with_status row OnchainNullified else row))" for k
    using assms unfolding mark_orders_onchain_nullified_def Let_def st
    by (auto simp: update_where_status split: option.split)
  have "n = card {k \<in> set nids. \<exists>row. t_orders db k = Some row \<and> order_status row \<in> {Some Active, Some Settling}}"
    unfolding n count_where_def distinct_card [OF distinct_filter [OF distinct_remdups], symmetric]
    by (rule arg_cong [of _ _ card]) (auto split: option.splits)
  with o show ?thesis
    by (auto split: option.splits)
qed

theorem nullify_exact_witness:
  "fst (mark_orders_onchain_nullified [[1]] (snd (update_orders_status [[1]] Executed sample_db))) = 0
   \<and> t_orders (snd (mark_orders_onchain_nullified [[1]] (snd (update_orders_status [[1]] Executed sample_db)))) [1]
       = Some (with_status sample_row Executed)"
proof -
  let ?db = "snd (update_orders_status [[1]] Executed sample_db)"
  obtain n db' where r: "mark_orders_onchain_nullified [[1]] ?db = (n, db')"
    by fastforce
  have o: "t_orders ?db [1] = Some (with_status sample_row Executed)"
    by code_simp
  from nullify_exact [OF r] o r show ?thesis
    by simp
qed

section \<open>Loading\<close>

lemma decode_orders_Inr_iff:
  "decode_orders rid rtok rows = Inr out \<longleftrightarrow> list_all2 (\<lambda>(row, raw) io. decode_order rid rtok row raw = Inr io) rows out"
  by (induction rid rtok rows arbitrary: out rule: decode_orders.induct)
    (auto simp: list_all2_Cons1 split: sum.splits)

lemma decode_orders_Inl_iff:
  "(\<exists>e. decode_orders rid rtok rows = Inl e) \<longleftrightarrow> (\<exists>x \<in> set rows. \<exists>e. decode_order rid rtok (fst x) (snd x) = Inl e)"
  by (induction rid rtok rows rule: decode_orders.induct) (fastforce split: sum.splits)+

lemma active_rows_set:
  assumes "walks order" "finite (dom (t_orders db))"
  shows "(row, raw) \<in> set (active_rows_with_notes order db) \<longleftrightarrow>
    (\<exists>k nrow. t_orders db k = Some row \<and> or_status row = as_str Active
       \<and> t_notes db (or_note_id row) = Some nrow \<and> raw = nr_raw_data nrow)"
proof -
  have "set (order (dom (t_orders db))) = dom (t_orders db)"
    using walksD [OF assms] by simp
  then show ?thesis
    by (force simp: active_rows_with_notes_def get_active_orders_def List.map_filter_def image_iff)
qed

lemma active_rows_ids:
  assumes "walks order" "finite (dom (t_orders db))" "db_typed db"
  shows "map (or_note_id \<circ> fst) (active_rows_with_notes order db)
    = filter (\<lambda>k. or_status (the (t_orders db k)) = as_str Active \<and> t_notes db k \<noteq> None) (order (dom (t_orders db)))"
proof -
  have "map (or_note_id \<circ> fst)
      (List.map_filter (\<lambda>row. map_option (\<lambda>nrow. (row, nr_raw_data nrow)) (t_notes db (or_note_id row)))
         (filter (\<lambda>row. or_status row = as_str Active) (map (\<lambda>k. the (t_orders db k)) ks)))
    = filter (\<lambda>k. or_status (the (t_orders db k)) = as_str Active \<and> t_notes db k \<noteq> None) ks"
    if "set ks \<subseteq> dom (t_orders db)" for ks
    using that
  proof (induction ks)
    case (Cons k ks)
    then have "or_note_id (the (t_orders db k)) = k"
      using assms(3) by (auto simp: db_typed_def)
    with Cons show ?case
      by (auto simp: List.map_filter_def)
  qed (simp add: List.map_filter_def)
  then show ?thesis
    using walksD(2) [OF assms(1,2)] by (simp add: active_rows_with_notes_def get_active_orders_def)
qed

lemma decode_orders_ids:
  assumes "decode_orders rid rtok rows = Inr out"
  shows "map (\<lambda>io. Some (io_note_id io)) out = map (rid \<circ> or_note_id \<circ> fst) rows"
proof -
  have "rid (or_note_id row) = Some (io_note_id io)" if "decode_order rid rtok row raw = Inr io" for row raw io
    using that by (auto simp: decode_order_def split: option.splits)
  with assms show ?thesis
    by (auto simp: decode_orders_Inr_iff list_eq_iff_nth_eq list_all2_conv_all_nth split_beta)
qed

text \<open>
  One undecodable row fails the whole load: the load of the active orders
  returns an error if and only if some active order with a stored note has an
  identifier that does not decode.
\<close>

theorem load_active_fails_iff:
  assumes "walks order" "finite (dom (t_orders db))"
  shows "(\<exists>e. load_active_orders_with_notes order rid rtok db = Inl e) \<longleftrightarrow>
    (\<exists>k row. t_orders db k = Some row \<and> or_status row = as_str Active \<and> t_notes db (or_note_id row) \<noteq> None
       \<and> (rid (or_note_id row) = None \<or> rtok (or_offered_asset row) = None \<or> rtok (or_requested_asset row) = None))"
proof -
  have d: "(\<exists>e. decode_order rid rtok row raw = Inl e) \<longleftrightarrow>
      rid (or_note_id row) = None \<or> rtok (or_offered_asset row) = None \<or> rtok (or_requested_asset row) = None" for row raw
    by (auto simp: decode_order_def split: option.splits)
  show ?thesis
    unfolding load_active_orders_with_notes_def decode_orders_Inl_iff
    by (auto simp: d active_rows_set [OF assms] Bex_def)
qed


text \<open>Readers of the identifiers used by the samples: the only byte of the identifier.\<close>

definition read_byte :: "bytes \<Rightarrow> nat option" where
  "read_byte bs = (case bs of [b] \<Rightarrow> Some (unat b) | _ \<Rightarrow> None)"

lemma sample_db_orders: "t_orders sample_db = [[1] \<mapsto> sample_row]" "t_notes sample_db = [[1] \<mapsto> sample_note_row]"
  by (simp_all add: sample_db_def insert_notes_batch_def insert_order_def insert_note_def db_new_def Let_def
      status_check_def sample_row_def sample_note_row_def)

theorem load_active_fails_iff_witness:
  "\<exists>e. load_active_orders_with_notes sorted_list_of_set (\<lambda>_. None) read_byte sample_db = Inl e"
  unfolding load_active_fails_iff [OF walks_sorted_list, of sample_db, unfolded sample_db_orders, simplified]
  by (simp add: sample_row_def)


section \<open>The token registry\<close>

text \<open>
  What the admin API, the price API and ingestion rely on: registering adds a row
  once and keeps an existing one, removing deletes it, the updates change the
  field they name of an existing row only, and none of them touches another token.
\<close>

locale token_registry =
  fixes lookup :: "'k \<Rightarrow> 's \<Rightarrow> 'row option"
    and register :: "'k \<Rightarrow> string option \<Rightarrow> 's \<Rightarrow> bool \<times> 's"
    and remove :: "'k \<Rightarrow> 's \<Rightarrow> bool \<times> 's"
    and set_symbol :: "'k \<Rightarrow> string option \<Rightarrow> 's \<Rightarrow> bool \<times> 's"
    and symbol :: "'row \<Rightarrow> string option"
  assumes register_flag: "fst (register k y s) \<longleftrightarrow> lookup k s = None"
    and register_same: "lookup k s = None \<Longrightarrow> \<exists>row. lookup k (snd (register k y s)) = Some row \<and> symbol row = y"
    and register_known: "lookup k s \<noteq> None \<Longrightarrow> snd (register k y s) = s"
    and register_other: "j \<noteq> k \<Longrightarrow> lookup j (snd (register k y s)) = lookup j s"
    and remove_flag: "fst (remove k s) \<longleftrightarrow> lookup k s \<noteq> None"
    and remove_lookup: "lookup j (snd (remove k s)) = (if j = k then None else lookup j s)"
    and set_symbol_flag: "fst (set_symbol k y s) \<longleftrightarrow> lookup k s \<noteq> None"
    and set_symbol_same: "lookup k s \<noteq> None \<Longrightarrow> \<exists>row. lookup k (snd (set_symbol k y s)) = Some row \<and> symbol row = y"
    and set_symbol_none: "lookup k s = None \<Longrightarrow> lookup k (snd (set_symbol k y s)) = None"
    and set_symbol_other: "j \<noteq> k \<Longrightarrow> lookup j (snd (set_symbol k y s)) = lookup j s"
begin

lemma register_lookup: "lookup j (snd (register k y s)) = None \<longleftrightarrow> j \<noteq> k \<and> lookup j s = None"
  using register_same [of k s y] register_known [of k s y] register_other [of j k y s]
  by (cases "j = k"; cases "lookup k s") auto

lemma register_twice: "register k z (snd (register k y s)) = (False, snd (register k y s))"
  using register_known [of k "snd (register k y s)" z] register_flag [of k z "snd (register k y s)"]
  by (auto simp: register_lookup prod_eq_iff)

lemma register_remove: "lookup j (snd (remove k (snd (register k y s)))) = (if j = k then None else lookup j s)"
  using register_other [of j k y s] by (simp add: remove_lookup)

lemma register_after_symbol:
  "lookup k s \<noteq> None \<Longrightarrow> \<exists>row. lookup k (snd (register k z (snd (set_symbol k y s)))) = Some row \<and> symbol row = y"
  using set_symbol_same [of k s y] register_known [of k "snd (set_symbol k y s)" z] by auto

end

interpretation db_tokens: token_registry get_registered_token "register_token now" unregister_token update_token_symbol rt_external_symbol
  by unfold_locales
    (auto simp: get_registered_token_def register_token_def unregister_token_def update_token_symbol_def split: option.splits)

lemma seed_step:
  "seed_tokens_from_config now w ((t, y) # toks) db = seed_tokens_from_config now w toks (snd (register_token (now t) (w t) y db))"
  by (simp add: seed_tokens_from_config_def)

lemma seed_keeps: "t_tokens db k = Some row \<Longrightarrow> t_tokens (seed_tokens_from_config now w toks db) k = Some row"
proof (induction toks arbitrary: db)
  case (Cons x toks)
  obtain t y where x: "x = (t, y)" by fastforce
  have "t_tokens (snd (register_token (now t) (w t) y db)) k = Some row"
    using Cons.prems by (auto simp: register_token_def)
  with Cons.IH show ?case
    by (simp add: x seed_step)
qed (simp add: seed_tokens_from_config_def)

lemma seed_registers: "t \<in> fst ` set toks \<Longrightarrow> t_tokens (seed_tokens_from_config now w toks db) (w t) \<noteq> None"
proof (induction toks arbitrary: db)
  case (Cons x toks)
  obtain u y where x: "x = (u, y)" by fastforce
  show ?case
  proof (cases "t = u")
    case True
    obtain row where "t_tokens (snd (register_token (now u) (w u) y db)) (w u) = Some row"
      by (cases "t_tokens db (w u)") (auto simp: register_token_def)
    with seed_keeps True show ?thesis
      by (simp add: x seed_step)
  next
    case False
    with Cons show ?thesis
      by (simp add: x seed_step)
  qed
qed simp

lemma seed_known: "\<forall>t \<in> fst ` set toks. t_tokens db (w t) \<noteq> None \<Longrightarrow> seed_tokens_from_config now w toks db = db"
proof (induction toks)
  case (Cons x toks)
  obtain u y where x: "x = (u, y)" by fastforce
  have "snd (register_token (now u) (w u) y db) = db"
    using Cons.prems by (simp add: x register_token_def)
  with Cons show ?case
    by (simp add: x seed_step)
qed (simp add: seed_tokens_from_config_def)

text \<open>
  Seeding the configured tokens is idempotent and never overwrites: a token
  that is already registered keeps its row, every configured token is registered
  afterwards, and seeding again changes nothing.
\<close>

theorem seed_tokens_idempotent:
  "t_tokens db \<subseteq>\<^sub>m t_tokens (seed_tokens_from_config now w toks db)
   \<and> w ` fst ` set toks \<subseteq> dom (t_tokens (seed_tokens_from_config now w toks db))
   \<and> seed_tokens_from_config now' w toks (seed_tokens_from_config now w toks db) = seed_tokens_from_config now w toks db"
proof -
  have "t_tokens db \<subseteq>\<^sub>m t_tokens (seed_tokens_from_config now w toks db)"
    using seed_keeps by (fastforce simp: map_le_def)
  moreover have "w ` fst ` set toks \<subseteq> dom (t_tokens (seed_tokens_from_config now w toks db))"
  proof (rule subsetI)
    fix k
    assume "k \<in> w ` fst ` set toks"
    then obtain t where t: "t \<in> fst ` set toks" "k = w t"
      by blast
    from seed_registers [OF t(1), of now w db] show "k \<in> dom (t_tokens (seed_tokens_from_config now w toks db))"
      by (simp add: t(2) domIff)
  qed
  moreover from this have "\<forall>t \<in> fst ` set toks. t_tokens (seed_tokens_from_config now w toks db) (w t) \<noteq> None"
    by auto
  from seed_known [OF this] have "seed_tokens_from_config now' w toks (seed_tokens_from_config now w toks db)
      = seed_tokens_from_config now w toks db" .
  ultimately show ?thesis
    by blast
qed

end
