(* ===== verification/Matcher.thy ===== *)
theory Matcher
  imports Engine Select_Notes Db
begin

text \<open>
  The matcher task, \<open>matcher/matcher.rs\<close>: it owns the book, and each tick it drains
  the consumed notes and the new orders, reactivates parked notes, matches
  internally, hands residual notes to external exchanges, and publishes the top
  of the book. What a tick reads from its channels, clocks and watches is the
  record \<open>tick_input\<close>; what it sends is \<open>tick_output\<close>. The clock reading that stamps
  an order is a function of the order.
\<close>

section \<open>Messages to the router\<close>

type_synonym QuotesSnapshot = "Pair \<Rightarrow> Quote list option"

record RoutedNote =
  rn_dex :: DexId
  rn_note_id :: OrderId
  rn_fill :: Amount
  rn_pair :: Pair
  rn_note_bytes :: bytes

record RouteBatch =
  items :: "RoutedNote list"

datatype send_result = Sent | Full | Closed

section \<open>State\<close>

record RouterHooks =
  inflight_ttl_ms :: u64

record matcher_state =
  m_engine :: MatchingEngine
  raw_notes :: "OrderId \<Rightarrow> bytes option"
  arrivals :: "OrderId \<Rightarrow> UnixSecs option"
  last_now :: u64
  router :: "RouterHooks option"

record tick_input =
  ti_now_millis :: u64
  ti_now_unix :: "OrderId \<Rightarrow> UnixSecs"
  ti_consumed :: "OrderId list"
  ti_orders :: "IngestOrder list"
  ti_prices :: PriceSnapshot
  ti_exec_open :: bool
  ti_quotes :: QuotesSnapshot
  ti_route :: send_result

record tick_output =
  to_batch :: "ExecutionBatch option"
  to_routed :: "RoutedNote list"
  to_snapshot :: "SwapBookSnapshot option"
  to_stop :: bool

section \<open>Startup\<close>

definition add_ingest_order :: "IngestOrder \<Rightarrow> OrderBook \<Rightarrow> OrderBook" where
  "add_ingest_order o1 bk = add_user_order (io_note_id o1) (io_offered_token o1) (io_requested_token o1)
     (io_offered_amount o1) (io_requested_amount o1) bk"

definition on_book :: "(OrderBook \<Rightarrow> OrderBook) \<Rightarrow> matcher_state \<Rightarrow> matcher_state" where
  "on_book f st = st\<lparr>m_engine := (m_engine st)\<lparr>book := f (book (m_engine st))\<rparr>\<rparr>"

definition hydrate_order :: "(OrderId \<Rightarrow> UnixSecs) \<Rightarrow> IngestOrder \<Rightarrow> matcher_state \<Rightarrow> matcher_state" where
  "hydrate_order now_unix o1 st =
     (on_book (add_ingest_order o1) st)\<lparr>arrivals := (arrivals st)(io_note_id o1 \<mapsto> now_unix (io_note_id o1)),
        raw_notes := (raw_notes st)(io_note_id o1 \<mapsto> io_raw_note_data o1)\<rparr>"

text \<open>\<open>loaded\<close>: the result of the hydration query, or of failing to get a connection.\<close>

definition matcher_start :: "PriceSnapshot \<Rightarrow> bool \<Rightarrow> RouterHooks option \<Rightarrow> (OrderId \<Rightarrow> UnixSecs)
    \<Rightarrow> db_error option + IngestOrder list \<Rightarrow> matcher_state" where
  "matcher_start price_rx triangular_enabled_flag hooks now_unix loaded =
     (let feed0 = price_cents (from_watch price_rx);
          engine = with_triangular_enabled (MatchingEngine_new (OrderBook_new feed0)) triangular_enabled_flag;
          st = \<lparr>m_engine = engine, raw_notes = Map.empty, arrivals = Map.empty, last_now = 0, router = hooks\<rparr>
      in case loaded of
           Inl _ \<Rightarrow> st
         | Inr os \<Rightarrow> fold (hydrate_order now_unix) os st)"

section \<open>One tick\<close>

definition drain_consumed :: "OrderId \<Rightarrow> matcher_state \<Rightarrow> matcher_state" where
  "drain_consumed nid st =
     (on_book (remove_order nid) st)\<lparr>raw_notes := (raw_notes st)(nid := None), arrivals := (arrivals st)(nid := None)\<rparr>"

definition drain_order :: "(OrderId \<Rightarrow> UnixSecs) \<Rightarrow> IngestOrder \<Rightarrow> matcher_state \<Rightarrow> matcher_state" where
  "drain_order now_unix o1 st =
     (on_book (add_ingest_order o1) st)\<lparr>
        arrivals := (arrivals st)(io_note_id o1 \<mapsto>
          (case arrivals st (io_note_id o1) of None \<Rightarrow> now_unix (io_note_id o1) | Some t \<Rightarrow> t)),
        raw_notes := (raw_notes st)(io_note_id o1 \<mapsto> io_raw_note_data o1)\<rparr>"

definition filled_note_of :: "(OrderId \<Rightarrow> UnixSecs) \<Rightarrow> matcher_state \<Rightarrow> OrderId \<Rightarrow> FilledNote option" where
  "filled_note_of now_unix st oid =
     (case raw_notes st oid of
        None \<Rightarrow> None
      | Some raw \<Rightarrow>
          Some \<lparr>fn_note_id = oid,
                fn_requested_filled = (case orders (book (m_engine st)) oid of None \<Rightarrow> 0 | Some ord \<Rightarrow> requested_filled ord),
                fn_raw_note_data = raw,
                fn_arrival_unix = (case arrivals st oid of None \<Rightarrow> now_unix oid | Some t \<Rightarrow> t)\<rparr>)"

definition clear_protocol_balances :: "OrderBook \<Rightarrow> OrderBook" where
  "clear_protocol_balances bk = bk\<lparr>protocol_balances := Map.empty\<rparr>"

text \<open>The stop flag, the batch that was sent and the new state; \<open>None\<close>: the engine does not return.\<close>

definition internal_match :: "walk_env \<Rightarrow> (OrderId \<Rightarrow> UnixSecs) \<Rightarrow> PriceSnapshot \<Rightarrow> bool \<Rightarrow> matcher_state
    \<Rightarrow> (bool \<times> ExecutionBatch option \<times> matcher_state) option" where
  "internal_match env now_unix price_rx exec_open st =
     (if dom (orders (book (m_engine st))) = {} then Some (False, None, st)
      else
        let st1 = on_book (\<lambda>bk. bk\<lparr>feed := price_cents (from_watch price_rx)\<rparr>) st
        in case engine_run env (m_engine st1) of
             None \<Rightarrow> None
           | Some (batch, engine') \<Rightarrow>
               let st2 = st1\<lparr>m_engine := engine'\<rparr>
               in if filled_orders batch = {} then Some (False, None, st2)
                  else
                    let ids = we_orders env (filled_orders batch);
                        out = \<lparr>filled_notes = List.map_filter (filled_note_of now_unix st2) ids\<rparr>
                    in if \<not> exec_open then Some (True, None, st2)
                       else Some (False, Some out, on_book clear_protocol_balances (fold drain_consumed ids st2)))"

definition candidates :: "QuotesSnapshot \<Rightarrow> OrderBook \<Rightarrow> Pair \<Rightarrow> Order list option" where
  "candidates quotes bk pair =
     (case quotes pair of
        None \<Rightarrow> None
      | Some _ \<Rightarrow>
          (let ns = filter (\<lambda>ord. requested_remaining ord = requested ord) (notes_for_pair (fst pair) (snd pair) bk)
           in if ns = [] then None else Some ns))"

definition route_pick :: "(OrderId \<Rightarrow> bytes option) \<Rightarrow> u64 \<Rightarrow> Pick \<Rightarrow> RoutedNote list \<times> OrderBook \<Rightarrow> RoutedNote list \<times> OrderBook" where
  "route_pick raws now pick s =
     (let (out, bk) = s in
      case raws (p_note_id pick) of
        None \<Rightarrow> (out, bk)
      | Some raw \<Rightarrow>
          (out @ [\<lparr>rn_dex = p_dex pick, rn_note_id = p_note_id pick, rn_fill = p_fill pick, rn_pair = p_pair pick,
                   rn_note_bytes = raw\<rparr>],
           park (p_note_id pick) (p_dex pick) now bk))"

definition route_external :: "walk_env \<Rightarrow> (OrderId \<Rightarrow> bytes option) \<Rightarrow> QuotesSnapshot \<Rightarrow> u64 \<Rightarrow> OrderBook
    \<Rightarrow> RoutedNote list \<times> OrderBook" where
  "route_external env raws quotes now bk =
     (if dom quotes = {} then ([], bk)
      else
        let notes_by_pair = candidates quotes bk
        in if dom notes_by_pair = {} then ([], bk)
           else fold (route_pick raws now) (select_notes (we_pairs env) notes_by_pair quotes now) ([], bk))"

text \<open>The closed flag, the delivered notes and the new state.\<close>

definition external_pass :: "walk_env \<Rightarrow> QuotesSnapshot \<Rightarrow> send_result \<Rightarrow> u64 \<Rightarrow> matcher_state
    \<Rightarrow> bool \<times> RoutedNote list \<times> matcher_state" where
  "external_pass env quotes route now st =
     (let (ns, bk') = route_external env (raw_notes st) quotes now (book (m_engine st));
          st' = on_book (\<lambda>_. bk') st
      in if ns = [] then (False, [], st')
         else case route of
           Sent \<Rightarrow> (False, ns, st')
         | _ \<Rightarrow> (route = Closed, [], on_book (fold (\<lambda>n bk. snd (unpark (rn_note_id n) bk)) ns) st'))"

definition matcher_sync :: "tick_input \<Rightarrow> matcher_state \<Rightarrow> matcher_state" where
  "matcher_sync inp st =
     fold (drain_order (ti_now_unix inp)) (ti_orders inp) (fold drain_consumed (ti_consumed inp) st)"

definition matcher_reactivate :: "u64 \<Rightarrow> matcher_state \<Rightarrow> matcher_state" where
  "matcher_reactivate now st =
     (case router st of
        None \<Rightarrow> st
      | Some r \<Rightarrow> on_book (\<lambda>bk. snd (reactivate_parked_older_than (inflight_ttl_ms r) now bk)) st)"

definition matcher_tick :: "walk_env \<Rightarrow> tick_input \<Rightarrow> matcher_state \<Rightarrow> (tick_output \<times> matcher_state) option" where
  "matcher_tick env inp st =
     (let now = max (last_now st) (ti_now_millis inp);
          st1 = matcher_sync inp (st\<lparr>last_now := now\<rparr>);
          st2 = matcher_reactivate now st1
      in case internal_match env (ti_now_unix inp) (ti_prices inp) (ti_exec_open inp) st2 of
           None \<Rightarrow> None
         | Some (True, _, st3) \<Rightarrow> Some (\<lparr>to_batch = None, to_routed = [], to_snapshot = None, to_stop = True\<rparr>, st3)
         | Some (False, batch, st3) \<Rightarrow>
             let (routed, st4) =
               (case router st3 of
                  None \<Rightarrow> ([], st3)
                | Some r \<Rightarrow>
                    (let (closed, ns, st') = external_pass env (ti_quotes inp) (ti_route inp) now st3
                     in (ns, if closed then st'\<lparr>router := None\<rparr> else st')))
             in Some (\<lparr>to_batch = batch, to_routed = routed,
                       to_snapshot = Some (snapshot_best_levels (book (m_engine st4))), to_stop = False\<rparr>, st4))"

section \<open>The task\<close>

text \<open>
  The outer loop over a finite prefix of its ticks, each with the walks of its hash
  collections; a closed executor channel ends it.
\<close>

fun run_ticks :: "(walk_env \<times> tick_input) list \<Rightarrow> matcher_state \<Rightarrow> (tick_output list \<times> matcher_state) option" where
  "run_ticks [] st = Some ([], st)"
| "run_ticks ((env, inp) # ts) st =
     (case matcher_tick env inp st of
        None \<Rightarrow> None
      | Some (out, st') \<Rightarrow>
          if to_stop out then Some ([out], st')
          else map_option (\<lambda>(outs, st''). (out # outs, st'')) (run_ticks ts st'))"

definition run_matcher :: "PriceSnapshot \<Rightarrow> bool \<Rightarrow> RouterHooks option \<Rightarrow> (OrderId \<Rightarrow> UnixSecs)
    \<Rightarrow> db_error option + IngestOrder list \<Rightarrow> (walk_env \<times> tick_input) list \<Rightarrow> (tick_output list \<times> matcher_state) option" where
  "run_matcher price_rx triangular_enabled_flag hooks now_unix loaded ts =
     run_ticks ts (matcher_start price_rx triangular_enabled_flag hooks now_unix loaded)"

end
