(* ===== verification/Matcher_Props.thy ===== *)
theory Matcher_Props
  imports Matcher Settlement_Flow
begin

text \<open>
  Correctness of the matcher: between two ticks its book is well-formed and holds
  only untouched orders whose notes it knows; a batch reports exactly what was
  filled; the external pass parks what it hands over and rolls back what it could
  not send.
\<close>

section \<open>Book operations of a tick keep the book fresh\<close>

lemma on_book_sel [simp]:
  "book (m_engine (on_book f st)) = f (book (m_engine st))" "raw_notes (on_book f st) = raw_notes st"
  "arrivals (on_book f st) = arrivals st" "last_now (on_book f st) = last_now st" "router (on_book f st) = router st"
  "triangular_enabled (m_engine (on_book f st)) = triangular_enabled (m_engine st)"
  by (simp_all add: on_book_def)

lemma remove_order_balances [simp]: "protocol_balances (remove_order i bk) = protocol_balances bk"
  by (simp add: remove_order_def Let_def split: option.split)

lemma add_user_order_balances [simp]: "protocol_balances (add_user_order i a b off req bk) = protocol_balances bk"
  by (simp add: add_user_order_def Let_def)

lemma park_balances [simp]: "protocol_balances (park i dex t bk) = protocol_balances bk"
  by (simp add: park_def Let_def split: option.split)

lemma reactivate_frame [simp]:
  "orders (snd (reactivate_parked_older_than ttl t bk)) = orders bk"
  "protocol_balances (snd (reactivate_parked_older_than ttl t bk)) = protocol_balances bk"
  by (simp_all add: reactivate_parked_older_than_def)

lemma fresh_book_cong: "orders bk' = orders bk \<Longrightarrow> protocol_balances bk' = protocol_balances bk \<Longrightarrow> fresh_book bk' = fresh_book bk"
  by (simp add: fresh_book_def balance_of_def)

lemma fresh_book_remove: "fresh_book bk \<Longrightarrow> fresh_book (remove_order i bk)"
  by (auto simp: fresh_book_def balance_of_def)

lemma fresh_book_add: "fresh_book bk \<Longrightarrow> fresh_book (add_user_order i a b off req bk)"
  by (auto simp: fresh_book_def balance_of_def add_user_order_orders split: if_splits)

lemma wf_book_set_feed: "wf_book bk \<Longrightarrow> wf_book (bk\<lparr>feed := f\<rparr>)"
proof -
  assume wf: "wf_book bk"
  have "index_inv (bk\<lparr>feed := f\<rparr>) (live bk)"
    by (rule index_inv_frame [OF wf_bookD(2) [OF wf]]) auto
  moreover have "live (bk\<lparr>feed := f\<rparr>) = live bk"
    by (auto simp: live_def fun_eq_iff)
  moreover have "store_ok (bk\<lparr>feed := f\<rparr>)"
    using wf_bookD(1) [OF wf] by (simp add: store_ok_def)
  ultimately show ?thesis
    by (simp add: wf_book_def)
qed

lemma wf_book_clear_balances: "wf_book bk \<Longrightarrow> wf_book (clear_protocol_balances bk)"
proof -
  assume wf: "wf_book bk"
  have "index_inv (clear_protocol_balances bk) (live bk)"
    by (rule index_inv_frame [OF wf_bookD(2) [OF wf]]) (auto simp: clear_protocol_balances_def)
  moreover have "live (clear_protocol_balances bk) = live bk"
    by (auto simp: live_def fun_eq_iff clear_protocol_balances_def)
  moreover have "store_ok (clear_protocol_balances bk)"
    using wf_bookD(1) [OF wf] by (simp add: store_ok_def clear_protocol_balances_def)
  ultimately show ?thesis
    by (simp add: wf_book_def)
qed

lemma fold_drain_consumed:
  "book (m_engine (fold drain_consumed ids st)) = fold remove_order ids (book (m_engine st))"
  "raw_notes (fold drain_consumed ids st) = (\<lambda>i. if i \<in> set ids then None else raw_notes st i)"
  "router (fold drain_consumed ids st) = router st" "last_now (fold drain_consumed ids st) = last_now st"
  "triangular_enabled (m_engine (fold drain_consumed ids st)) = triangular_enabled (m_engine st)"
  by (induction ids arbitrary: st) (auto simp: drain_consumed_def fun_eq_iff)

lemma fold_remove_order:
  "orders (fold remove_order ids bk) = (\<lambda>i. if i \<in> set ids then None else orders bk i)"
  "protocol_balances (fold remove_order ids bk) = protocol_balances bk"
  "wf_book bk \<Longrightarrow> wf_book (fold remove_order ids bk)"
  by (induction ids arbitrary: bk) (auto simp: fun_eq_iff wf_book_remove_order)

section \<open>The invariant of the matcher\<close>

text \<open>
  \<open>terms i\<close> are the terms the note \<open>i\<close> commits to, \<open>dec i raw\<close> says that the bytes are a
  serialization of it.
\<close>

type_synonym order_terms = "TokenId \<times> TokenId \<times> Amount \<times> Amount"

definition terms_of :: "Order \<Rightarrow> order_terms" where
  "terms_of ord = (offered_token ord, requested_token ord, offered ord, requested ord)"

definition ingest_ok :: "(OrderId \<Rightarrow> order_terms) \<Rightarrow> (OrderId \<Rightarrow> bytes \<Rightarrow> bool) \<Rightarrow> IngestOrder \<Rightarrow> bool" where
  "ingest_ok trm dec o1 \<longleftrightarrow> io_offered_amount o1 \<noteq> 0 \<and> io_requested_amount o1 \<noteq> 0
     \<and> trm (io_note_id o1) = (io_offered_token o1, io_requested_token o1, io_offered_amount o1, io_requested_amount o1)
     \<and> dec (io_note_id o1) (io_raw_note_data o1)"

definition notes_known :: "(OrderId \<Rightarrow> order_terms) \<Rightarrow> (OrderId \<Rightarrow> bytes \<Rightarrow> bool) \<Rightarrow> matcher_state \<Rightarrow> bool" where
  "notes_known trm dec st \<longleftrightarrow>
     (\<forall>i ord. orders (book (m_engine st)) i = Some ord \<longrightarrow> raw_notes st i \<noteq> None \<and> trm i = terms_of ord)
   \<and> (\<forall>i raw. raw_notes st i = Some raw \<longrightarrow> dec i raw)"

definition matcher_inv :: "(OrderId \<Rightarrow> order_terms) \<Rightarrow> (OrderId \<Rightarrow> bytes \<Rightarrow> bool) \<Rightarrow> matcher_state \<Rightarrow> bool" where
  "matcher_inv trm dec st \<longleftrightarrow> wf_book (book (m_engine st)) \<and> fresh_book (book (m_engine st)) \<and> notes_known trm dec st"

lemma notes_known_same_orders:
  "notes_known trm dec st \<Longrightarrow> orders (book (m_engine st')) = orders (book (m_engine st)) \<Longrightarrow> raw_notes st' = raw_notes st
   \<Longrightarrow> notes_known trm dec st'"
  by (simp add: notes_known_def)

lemma matcher_inv_drain_consumed:
  assumes "matcher_inv trm dec st"
  shows "matcher_inv trm dec (drain_consumed i st)"
  using assms by (auto simp: matcher_inv_def notes_known_def drain_consumed_def wf_book_remove_order fresh_book_remove)

lemma matcher_inv_drains: "matcher_inv trm dec st \<Longrightarrow> matcher_inv trm dec (fold drain_consumed ids st)"
  by (induction ids arbitrary: st) (simp_all add: matcher_inv_drain_consumed)

lemma add_ingest_known:
  assumes "matcher_inv trm dec st" "ingest_ok trm dec o1" "card (dom (orders (book (m_engine st)))) + 1 < 2 ^ 32"
    and "book (m_engine st') = add_ingest_order o1 (book (m_engine st))"
    and "raw_notes st' = (raw_notes st)(io_note_id o1 \<mapsto> io_raw_note_data o1)"
  shows "matcher_inv trm dec st'"
    and "card (dom (orders (book (m_engine st')))) \<le> card (dom (orders (book (m_engine st)))) + 1"
proof -
  let ?bk = "book (m_engine st)"
  have ok: "io_offered_amount o1 \<noteq> 0" "io_requested_amount o1 \<noteq> 0"
    using assms(2) by (simp_all add: ingest_ok_def)
  have "wf_book (add_ingest_order o1 ?bk)"
    unfolding add_ingest_order_def
    by (rule wf_book_add_user_order) (use assms ok in \<open>simp_all add: matcher_inv_def\<close>)
  moreover have "fresh_book (add_ingest_order o1 ?bk)"
    using assms(1) by (simp add: add_ingest_order_def matcher_inv_def fresh_book_add)
  moreover have "notes_known trm dec st'"
    using assms(1,2) unfolding notes_known_def assms(4,5)
    by (auto simp: matcher_inv_def notes_known_def ingest_ok_def add_ingest_order_def add_user_order_orders terms_of_def
        split: if_splits)
  ultimately show "matcher_inv trm dec st'"
    by (simp add: matcher_inv_def assms(4))
  have fin: "finite (dom (orders ?bk))"
    using store_okD(1) [OF wf_bookD(1)] assms(1) by (simp add: matcher_inv_def)
  have "dom (orders (add_ingest_order o1 ?bk)) \<subseteq> insert (io_note_id o1) (dom (orders ?bk))"
    by (auto simp: add_ingest_order_def add_user_order_orders split: if_splits)
  then have "card (dom (orders (add_ingest_order o1 ?bk))) \<le> card (insert (io_note_id o1) (dom (orders ?bk)))"
    by (rule card_mono [rotated]) (use fin in simp)
  then show "card (dom (orders (book (m_engine st')))) \<le> card (dom (orders ?bk)) + 1"
    using card_insert_le_m1 [of "Suc (card (dom (orders ?bk)))"] fin by (simp add: assms(4) card_insert_if split: if_splits)
qed

lemma matcher_inv_drain_orders:
  assumes "matcher_inv trm dec st" "\<forall>o1 \<in> set os. ingest_ok trm dec o1"
    and "card (dom (orders (book (m_engine st)))) + length os < 2 ^ 32"
  shows "matcher_inv trm dec (fold (drain_order clock) os st)"
  using assms
proof (induction os arbitrary: st)
  case (Cons o1 os)
  have "matcher_inv trm dec (drain_order clock o1 st)"
      "card (dom (orders (book (m_engine (drain_order clock o1 st))))) \<le> card (dom (orders (book (m_engine st)))) + 1"
    by (rule add_ingest_known [OF Cons.prems(1), of o1]; use Cons.prems in \<open>simp add: drain_order_def\<close>)+
  with Cons show ?case
    by simp
qed simp

section \<open>Internal matching\<close>

lemma map_filter_all:
  assumes "\<forall>i \<in> set ids. f i \<noteq> None"
  shows "List.map_filter f ids = map (\<lambda>i. the (f i)) ids"
  using assms by (induction ids) (auto simp: List.map_filter_def)

lemma internal_match_result:
  assumes env: "env_ok env" and inv: "matcher_inv trm dec st"
  obtains (idle) st' where "internal_match env clock px exec_open st = Some (False, None, st')" "matcher_inv trm dec st'"
      "router st' = router st" "raw_notes st' = raw_notes st" "orders (book (m_engine st')) = orders (book (m_engine st))"
      "triangular_enabled (m_engine st') = triangular_enabled (m_engine st)" "last_now st' = last_now st"
  | (closed) st' where "internal_match env clock px exec_open st = Some (True, None, st')" "\<not> exec_open"
  | (sent) st' bk2 ids where "exec_open"
      "internal_match env clock px exec_open st
         = Some (False, Some \<lparr>filled_notes = map (\<lambda>i. \<lparr>fn_note_id = i, fn_requested_filled = requested_filled (the (orders bk2 i)),
              fn_raw_note_data = the (raw_notes st i),
              fn_arrival_unix = (case arrivals st i of None \<Rightarrow> clock i | Some t \<Rightarrow> t)\<rparr>) ids\<rparr>, st')"
      "matcher_inv trm dec st'" "router st' = router st" "wf_book bk2" "distinct ids" "ids \<noteq> []"
      "triangular_enabled (m_engine st') = triangular_enabled (m_engine st)" "last_now st' = last_now st"
      "book_rel {p. priced px p} ((book (m_engine st))\<lparr>feed := px\<rparr>) {} bk2 (set ids)"
      "\<not> triangular_enabled (m_engine st) \<Longrightarrow> solvent bk2"
      "orders (book (m_engine st')) = (\<lambda>i. if i \<in> set ids then None else orders (book (m_engine st)) i)"
      "raw_notes st' = (\<lambda>i. if i \<in> set ids then None else raw_notes st i)"
proof (cases "dom (orders (book (m_engine st))) = {}")
  case True
  then show thesis
    using inv by (intro idle [of st]) (simp_all add: internal_match_def)
next
  case False
  let ?bk = "book (m_engine st)" and ?bk1 = "(book (m_engine st))\<lparr>feed := px\<rparr>"
  let ?st1 = "on_book (\<lambda>bk. bk\<lparr>feed := price_cents (from_watch px)\<rparr>) st"
  have fd: "price_cents (from_watch px) = px"
    by (simp add: price_cents_def from_watch_def fun_eq_iff)
  have b1: "book (m_engine ?st1) = ?bk1"
    by (simp add: fd)
  have wf1: "wf_book (book (m_engine ?st1))" and sol1: "solvent (book (m_engine ?st1))"
    unfolding b1 using inv fresh_solvent [of ?bk1]
    by (simp_all add: matcher_inv_def wf_book_set_feed fresh_book_def balance_of_def)
  obtain batch bk2 where r: "engine_run env (m_engine ?st1) = Some (batch, (m_engine ?st1)\<lparr>book := bk2\<rparr>)" "wf_book bk2"
      "book_rel {p. priced (feed ?bk1) p} ?bk1 {} bk2 (filled_orders batch)"
      "\<not> triangular_enabled (m_engine ?st1) \<Longrightarrow> solvent (book (m_engine ?st1)) \<Longrightarrow> solvent bk2"
    using engine_run_result [OF env wf1] unfolding b1 by metis
  let ?F = "filled_orders batch" and ?st2 = "?st1\<lparr>m_engine := (m_engine ?st1)\<lparr>book := bk2\<rparr>\<rparr>"
  have domF: "?F \<subseteq> dom (orders ?bk)" "dom (orders bk2) = dom (orders ?bk)"
    using r(3) by (simp_all add: book_rel_def)
  have untouched: "orders bk2 i = orders ?bk i" if "i \<notin> ?F" for i
  proof (cases "orders ?bk i")
    case None
    then show ?thesis
      using domF(2) by (metis domIff)
  next
    case (Some ord)
    then have "order_rel {p. priced (feed ?bk1) p} {} ?F i ord (orders bk2 i)"
      using r(3) by (simp add: book_rel_def)
    with that Some show ?thesis
      by (auto simp: order_rel_def)
  qed
  show thesis
  proof (cases "?F = {}")
    case True
    have o: "orders bk2 = orders ?bk"
      by (rule ext) (simp add: untouched True)
    have "protocol_balances bk2 = protocol_balances ?bk"
      using r(3) True by (simp add: book_rel_def)
    then have "matcher_inv trm dec ?st2"
      using inv r(2) o fresh_book_cong [of bk2 ?bk] by (simp add: matcher_inv_def notes_known_def)
    then show ?thesis
      using False r(1) True o by (intro idle [of ?st2]) (simp_all add: internal_match_def Let_def)
  next
    case ne: False
    let ?ids = "we_orders env ?F"
    have fin: "finite ?F"
      using domF(1) finite_subset store_okD(1) [OF wf_bookD(1)] inv by (auto simp: matcher_inv_def)
    have w: "distinct ?ids" "set ?ids = ?F"
      using walksD [OF _ fin, of "we_orders env"] env by (simp_all add: env_ok_def)
    show ?thesis
    proof (cases exec_open)
      case False
      then show ?thesis
        using \<open>dom (orders ?bk) \<noteq> {}\<close> r(1) ne by (intro closed [of ?st2]) (simp_all add: internal_match_def Let_def)
    next
      case True
      let ?st3 = "on_book clear_protocol_balances (fold drain_consumed ?ids ?st2)"
      let ?fn = "\<lambda>i. \<lparr>fn_note_id = i, fn_requested_filled = requested_filled (the (orders bk2 i)),
              fn_raw_note_data = the (raw_notes st i),
              fn_arrival_unix = (case arrivals st i of None \<Rightarrow> clock i | Some t \<Rightarrow> t)\<rparr>"
      have fn: "filled_note_of clock ?st2 i = Some (?fn i)" if i: "i \<in> ?F" for i
      proof -
        obtain ord where "orders bk2 i = Some ord"
          using i domF by blast
        moreover obtain raw where "raw_notes st i = Some raw"
          using i domF(1) inv by (fastforce simp: matcher_inv_def notes_known_def)
        ultimately show ?thesis
          by (simp add: filled_note_of_def)
      qed
      have mf: "List.map_filter (filled_note_of clock ?st2) ?ids = map ?fn ?ids"
        using map_filter_all [of ?ids "filled_note_of clock ?st2"] fn w(2) by simp
      have res: "internal_match env clock px exec_open st = Some (False, Some \<lparr>filled_notes = map ?fn ?ids\<rparr>, ?st3)"
        using \<open>dom (orders ?bk) \<noteq> {}\<close> r(1) ne True mf by (simp add: internal_match_def Let_def)
      have o3: "orders (book (m_engine ?st3)) = (\<lambda>i. if i \<in> set ?ids then None else orders ?bk i)"
        using untouched w(2) by (auto simp: fold_drain_consumed fold_remove_order clear_protocol_balances_def fun_eq_iff)
      have raw3: "raw_notes ?st3 = (\<lambda>i. if i \<in> set ?ids then None else raw_notes st i)"
        by (simp add: fold_drain_consumed fun_eq_iff)
      have "fresh_book (book (m_engine ?st3))"
        using inv unfolding fresh_book_def balance_of_def o3
        by (auto simp: matcher_inv_def fresh_book_def clear_protocol_balances_def unwrap_or_default_def)
      moreover have "wf_book (book (m_engine ?st3))"
        using r(2) by (simp add: fold_drain_consumed fold_remove_order(3) wf_book_clear_balances)
      moreover have "notes_known trm dec ?st3"
        using inv unfolding notes_known_def o3 raw3 by (auto simp: matcher_inv_def notes_known_def)
      ultimately have inv3: "matcher_inv trm dec ?st3"
        by (simp add: matcher_inv_def)
      show ?thesis
      proof (rule sent [OF True res inv3])
        show "book_rel {p. priced px p} ?bk1 {} bk2 (set ?ids)"
          using r(3) w(2) by simp
        show "\<not> triangular_enabled (m_engine st) \<Longrightarrow> solvent bk2"
          using r(4) [OF _ sol1] by simp
        show "?ids \<noteq> []"
          using w(2) ne by (metis list.set(1))
      qed (use w r(2) o3 raw3 in \<open>simp_all add: fold_drain_consumed\<close>)
    qed
  qed
qed

section \<open>The external pass\<close>

definition routed_of :: "(OrderId \<Rightarrow> bytes option) \<Rightarrow> Pick \<Rightarrow> RoutedNote option" where
  "routed_of raws pick = map_option (\<lambda>raw. \<lparr>rn_dex = p_dex pick, rn_note_id = p_note_id pick, rn_fill = p_fill pick,
     rn_pair = p_pair pick, rn_note_bytes = raw\<rparr>) (raws (p_note_id pick))"

definition park_all :: "u64 \<Rightarrow> RoutedNote list \<Rightarrow> OrderBook \<Rightarrow> OrderBook" where
  "park_all now ns bk = fold (\<lambda>n. park (rn_note_id n) (rn_dex n) now) ns bk"

lemma route_pick_step:
  "route_pick raws now p (out, bk) = (case routed_of raws p of None \<Rightarrow> (out, bk)
     | Some n \<Rightarrow> (out @ [n], park (rn_note_id n) (rn_dex n) now bk))"
  by (simp add: route_pick_def routed_of_def split: option.split)

lemma fold_route_pick:
  "fold (route_pick raws now) picks (out, bk)
     = (out @ List.map_filter (routed_of raws) picks, park_all now (List.map_filter (routed_of raws) picks) bk)"
proof (induction picks arbitrary: out bk)
  case (Cons p picks)
  show ?case
    by (cases "routed_of raws p") (simp_all add: Cons.IH route_pick_step park_all_def List.map_filter_simps)
qed (simp add: park_all_def List.map_filter_simps)

lemma park_all_frame [simp]:
  "orders (park_all now ns bk) = orders bk" "protocol_balances (park_all now ns bk) = protocol_balances bk"
  "wf_book bk \<Longrightarrow> wf_book (park_all now ns bk)"
  by (induction ns arbitrary: bk) (simp_all add: park_all_def wf_book_park)

lemma park_parked:
  "parked (park i dex t bk) = (if parked bk i = None \<and> (\<exists>ord. orders bk i = Some ord \<and> is_active ord)
     then (parked bk)(i \<mapsto> (dex, t)) else parked bk)"
  by (auto simp: park_def Let_def split: option.splits)

lemma park_all_parked:
  assumes "distinct (map rn_note_id ns)" "\<forall>n \<in> set ns. \<exists>p. rn_note_id n \<in> live bk p"
  shows "\<forall>n \<in> set ns. parked (park_all now ns bk) (rn_note_id n) = Some (rn_dex n, now)"
    and "i \<notin> rn_note_id ` set ns \<Longrightarrow> parked (park_all now ns bk) i = parked bk i"
proof -
  have "(\<forall>n \<in> set ns. parked (park_all now ns bk) (rn_note_id n) = Some (rn_dex n, now))
      \<and> (\<forall>i. i \<notin> rn_note_id ` set ns \<longrightarrow> parked (park_all now ns bk) i = parked bk i)"
    using assms
  proof (induction ns arbitrary: bk)
    case (Cons n ns)
    let ?bk = "park (rn_note_id n) (rn_dex n) now bk"
    have n: "parked bk (rn_note_id n) = None" "\<exists>ord. orders bk (rn_note_id n) = Some ord \<and> is_active ord"
      using Cons.prems(2) by (auto simp: live_def)
    have pk: "parked ?bk = (parked bk)(rn_note_id n \<mapsto> (rn_dex n, now))"
      using n by (simp add: park_parked)
    have "\<forall>m \<in> set ns. \<exists>p. rn_note_id m \<in> live ?bk p"
    proof
      fix m
      assume m: "m \<in> set ns"
      then have "rn_note_id m \<noteq> rn_note_id n"
        using Cons.prems(1) by (metis distinct.simps(2) image_eqI list.set_map list.simps(9))
      moreover obtain p where "rn_note_id m \<in> live bk p"
        using Cons.prems(2) m by auto
      ultimately show "\<exists>p. rn_note_id m \<in> live ?bk p"
        by (auto simp: live_def pk)
    qed
    with Cons.IH [of ?bk] Cons.prems(1) show ?case
      by (auto simp: park_all_def pk)
  qed (simp add: park_all_def)
  then show "\<forall>n \<in> set ns. parked (park_all now ns bk) (rn_note_id n) = Some (rn_dex n, now)"
    "i \<notin> rn_note_id ` set ns \<Longrightarrow> parked (park_all now ns bk) i = parked bk i"
    by blast+
qed

definition unpark_all :: "RoutedNote list \<Rightarrow> OrderBook \<Rightarrow> OrderBook" where
  "unpark_all ns bk = fold (\<lambda>n bk. snd (unpark (rn_note_id n) bk)) ns bk"

lemma unpark_all_frame [simp]:
  "orders (unpark_all ns bk) = orders bk" "protocol_balances (unpark_all ns bk) = protocol_balances bk"
  "wf_book bk \<Longrightarrow> wf_book (unpark_all ns bk)"
  "parked (unpark_all ns bk) = (\<lambda>i. if i \<in> rn_note_id ` set ns then None else parked bk i)"
  by (induction ns arbitrary: bk) (auto simp: unpark_all_def wf_book_unpark fun_eq_iff)

lemma candidates_wf:
  assumes "wf_book bk" "candidates quotes bk p = Some ns"
  shows "distinct (map order_id ns)" "x \<in> set ns \<Longrightarrow> order_id x \<in> live bk p \<and> orders bk (order_id x) = Some x"
    "x \<in> set ns \<Longrightarrow> requested_remaining x = requested x"
proof -
  have ns: "ns = filter (\<lambda>ord. requested_remaining ord = requested ord) (abs_book bk p)"
    using assms(2) by (auto simp: candidates_def abs_book_def Let_def split: option.splits if_splits)
  show "distinct (map order_id ns)"
    unfolding ns by (rule distinct_map_filter [OF abs_book_distinct [OF assms(1)]])
  show "x \<in> set ns \<Longrightarrow> order_id x \<in> live bk p \<and> orders bk (order_id x) = Some x"
    "x \<in> set ns \<Longrightarrow> requested_remaining x = requested x"
    unfolding ns using abs_book_set [OF assms(1)] by auto
qed

lemma routed_picks:
  assumes env: "env_ok env" and wf: "wf_book bk" and fin: "finite (dom quotes)"
    and ps: "ps = select_notes (we_pairs env) (candidates quotes bk) quotes now"
  shows "distinct (map p_note_id ps)"
    "p \<in> set ps \<Longrightarrow> \<exists>ord q qs. orders bk (p_note_id p) = Some ord \<and> p_note_id p \<in> live bk (p_pair p)
       \<and> p_fill p = requested ord \<and> requested_remaining ord = requested ord
       \<and> quotes (p_pair p) = Some qs \<and> q \<in> set qs \<and> q_dex q = p_dex p \<and> now < q_expires_at q
       \<and> unat (requested ord) * unat (q_demand q) \<le> unat (q_supply q) * unat (offered ord)"
proof -
  have w: "walks (we_pairs env)"
    using env by (simp add: env_ok_def)
  note C = candidates_wf [OF wf]
  have disj: "order_id x \<notin> order_id ` set ns'" if "candidates quotes bk p = Some ns" "candidates quotes bk p' = Some ns'"
      "p \<noteq> p'" "x \<in> set ns" for p p' ns ns' x
  proof
    assume "order_id x \<in> order_id ` set ns'"
    then obtain y where y: "y \<in> set ns'" "order_id x = order_id y"
      by blast
    have "order_id x \<in> live bk p'"
      using C(2) [OF that(2) y(1)] y(2) by simp
    moreover have "order_id x \<in> live bk p"
      using C(2) [OF that(1,4)] by blast
    moreover note live_disjoint [OF that(3), of bk]
    ultimately show False
      by blast
  qed
  have R: "distinct (map p_note_id ps)
    \<and> (\<forall>p \<in> set ps. \<exists>ns qs nt q. candidates quotes bk (p_pair p) = Some ns \<and> quotes (p_pair p) = Some qs
           \<and> nt \<in> set ns \<and> q \<in> set qs \<and> p_note_id p = order_id nt \<and> p_fill p = requested nt \<and> p_dex p = q_dex q
           \<and> unat (requested nt) * unat (q_demand q) \<le> unat (q_supply q) * unat (offered nt)
           \<and> now < q_expires_at q \<and> q_supply q \<noteq> 0 \<and> q_demand q \<noteq> 0)
    \<and> (\<forall>d pair qs. quotes pair = Some qs \<longrightarrow>
         routed_to d (filter (\<lambda>p. p_pair p = pair) ps)
           \<le> (\<Sum>q \<leftarrow> filter (\<lambda>q. q_dex q = d) qs. unat (q_supply q)))"
    unfolding ps by (rule select_notes_result [OF w fin]) (use C(1) disj in blast)+
  show "distinct (map p_note_id ps)"
    using R by blast
  assume p: "p \<in> set ps"
  obtain ns qs nt q where "candidates quotes bk (p_pair p) = Some ns" "quotes (p_pair p) = Some qs"
      "nt \<in> set ns" "q \<in> set qs" "p_note_id p = order_id nt" "p_fill p = requested nt" "p_dex p = q_dex q"
      "unat (requested nt) * unat (q_demand q) \<le> unat (q_supply q) * unat (offered nt)" "now < q_expires_at q"
    using R p by blast
  with C(2,3) show "\<exists>ord q qs. orders bk (p_note_id p) = Some ord \<and> p_note_id p \<in> live bk (p_pair p)
       \<and> p_fill p = requested ord \<and> requested_remaining ord = requested ord
       \<and> quotes (p_pair p) = Some qs \<and> q \<in> set qs \<and> q_dex q = p_dex p \<and> now < q_expires_at q
       \<and> unat (requested ord) * unat (q_demand q) \<le> unat (q_supply q) * unat (offered ord)"
    by (intro exI [of _ nt] exI [of _ q] exI [of _ qs]) simp
qed

lemma map_filter_in: "n \<in> set (List.map_filter f ps) \<Longrightarrow> \<exists>p \<in> set ps. f p = Some n"
  by (auto simp: List.map_filter_def)

lemma routed_ids_distinct:
  assumes "distinct (map p_note_id ps)"
  shows "distinct (map rn_note_id (List.map_filter (routed_of raws) ps))"
  using assms
proof (induction ps)
  case (Cons p ps)
  show ?case
  proof (cases "routed_of raws p")
    case (Some n)
    have "rn_note_id n = p_note_id p"
      using Some by (auto simp: routed_of_def)
    moreover have "rn_note_id ` set (List.map_filter (routed_of raws) ps) \<subseteq> p_note_id ` set ps"
      by (auto simp: routed_of_def dest!: map_filter_in)
    ultimately show ?thesis
      using Cons Some by (auto simp: List.map_filter_simps)
  qed (use Cons in \<open>simp add: List.map_filter_simps\<close>)
qed (simp add: List.map_filter_simps)

definition handed_over :: "QuotesSnapshot \<Rightarrow> u64 \<Rightarrow> matcher_state \<Rightarrow> RoutedNote \<Rightarrow> bool" where
  "handed_over quotes now st n \<longleftrightarrow>
     (\<exists>ord q qs. orders (book (m_engine st)) (rn_note_id n) = Some ord \<and> rn_note_id n \<in> live (book (m_engine st)) (rn_pair n)
       \<and> rn_fill n = requested ord \<and> requested_remaining ord = requested ord
       \<and> raw_notes st (rn_note_id n) = Some (rn_note_bytes n)
       \<and> quotes (rn_pair n) = Some qs \<and> q \<in> set qs \<and> q_dex q = rn_dex n \<and> now < q_expires_at q
       \<and> unat (requested ord) * unat (q_demand q) \<le> unat (q_supply q) * unat (offered ord))"

lemma route_external_result:
  assumes "env_ok env" "wf_book (book (m_engine st))" "finite (dom quotes)"
  obtains ns where "route_external env (raw_notes st) quotes now (book (m_engine st)) = (ns, park_all now ns (book (m_engine st)))"
    "distinct (map rn_note_id ns)" "\<forall>n \<in> set ns. handed_over quotes now st n"
proof (cases "dom quotes = {} \<or> dom (candidates quotes (book (m_engine st))) = {}")
  case True
  then show thesis
    by (intro that [of "[]"]) (auto simp: route_external_def park_all_def)
next
  case False
  define ps where "ps = select_notes (we_pairs env) (candidates quotes (book (m_engine st))) quotes now"
  note R = routed_picks [OF assms ps_def]
  let ?ns = "List.map_filter (routed_of (raw_notes st)) ps"
  have "handed_over quotes now st n" if n: "n \<in> set ?ns" for n
  proof -
    obtain p where p: "p \<in> set ps" "routed_of (raw_notes st) p = Some n"
      using map_filter_in [OF n] by blast
    from p(2) have "rn_note_id n = p_note_id p" "rn_fill n = p_fill p" "rn_pair n = p_pair p" "rn_dex n = p_dex p"
        "raw_notes st (p_note_id p) = Some (rn_note_bytes n)"
      by (auto simp: routed_of_def)
    with R(2) [OF p(1)] show ?thesis
      by (simp add: handed_over_def)
  qed
  then show thesis
    using False routed_ids_distinct [OF R(1)]
    by (intro that [of ?ns]) (simp_all add: route_external_def fold_route_pick Let_def ps_def)
qed

lemma external_pass_result:
  assumes "env_ok env" "wf_book (book (m_engine st))" "finite (dom quotes)"
    and "external_pass env quotes route now st = (cl, out, st')"
  shows "orders (book (m_engine st')) = orders (book (m_engine st))"
    "protocol_balances (book (m_engine st')) = protocol_balances (book (m_engine st))"
    "wf_book (book (m_engine st'))" "raw_notes st' = raw_notes st" "router st' = router st"
    "triangular_enabled (m_engine st') = triangular_enabled (m_engine st)"
    "distinct (map rn_note_id out)" "\<forall>n \<in> set out. handed_over quotes now st n"
    "\<forall>n \<in> set out. parked (book (m_engine st')) (rn_note_id n) = Some (rn_dex n, now)"
    "i \<notin> rn_note_id ` set out \<Longrightarrow> parked (book (m_engine st')) i = parked (book (m_engine st)) i"
    "cl \<Longrightarrow> route = Closed" "route \<noteq> Sent \<Longrightarrow> out = []"
proof -
  let ?bk = "book (m_engine st)"
  obtain ns where r: "route_external env (raw_notes st) quotes now ?bk = (ns, park_all now ns ?bk)"
      "distinct (map rn_note_id ns)" "\<forall>n \<in> set ns. handed_over quotes now st n"
    by (rule route_external_result [OF assms(1-3)])
  have lv: "\<forall>n \<in> set ns. \<exists>p. rn_note_id n \<in> live ?bk p"
    using r(3) unfolding handed_over_def by blast
  note pk = park_all_parked [where now = now, OF r(2) lv]
  have np: "parked ?bk i = None" if "i \<in> rn_note_id ` set ns" for i
    using that lv by (auto simp: live_def)
  define bk' where "bk' = book (m_engine st')"
  have cases: "(ns \<noteq> [] \<and> route = Sent \<and> out = ns \<and> \<not> cl \<and> bk' = park_all now ns ?bk)
      \<or> (out = [] \<and> (cl \<longrightarrow> route = Closed) \<and> bk' = unpark_all ns (park_all now ns ?bk))"
    "raw_notes st' = raw_notes st" "router st' = router st"
    "triangular_enabled (m_engine st') = triangular_enabled (m_engine st)"
    using assms(4) r(1)
    by (cases "ns = []"; cases route; auto simp: external_pass_def Let_def bk'_def unpark_all_def park_all_def)+
  show "raw_notes st' = raw_notes st" "router st' = router st"
    "triangular_enabled (m_engine st') = triangular_enabled (m_engine st)"
    using cases by simp_all
  show "orders (book (m_engine st')) = orders ?bk" "protocol_balances (book (m_engine st')) = protocol_balances ?bk"
    "wf_book (book (m_engine st'))"
    using cases(1) assms(2) unfolding bk'_def [symmetric] by auto
  show "distinct (map rn_note_id out)" "\<forall>n \<in> set out. handed_over quotes now st n" "cl \<Longrightarrow> route = Closed" "route \<noteq> Sent \<Longrightarrow> out = []"
    using cases(1) r(2,3) by auto
  show "\<forall>n \<in> set out. parked (book (m_engine st')) (rn_note_id n) = Some (rn_dex n, now)"
    using cases(1) pk(1) unfolding bk'_def [symmetric] by auto
  show "i \<notin> rn_note_id ` set out \<Longrightarrow> parked (book (m_engine st')) i = parked ?bk i"
    using cases(1) pk(2) np unfolding bk'_def [symmetric] by (cases "i \<in> rn_note_id ` set ns") auto
qed

text \<open>
  C29: the external pass parks what it delivers and nothing else. Every delivered note
  is a live, untouched order with its stored bytes, handed over whole to an exchange
  with a fresh quote that accepts its rate, and is parked for it at the current
  time; no note is delivered twice; if the send fails nothing is delivered and the
  parked notes are the same as before.
\<close>

theorem external_pass_exact:
  assumes "env_ok env" "wf_book (book (m_engine st))" "finite (dom quotes)"
    and "external_pass env quotes route now st = (cl, out, st')"
  shows "wf_book (book (m_engine st')) \<and> orders (book (m_engine st')) = orders (book (m_engine st))
    \<and> distinct (map rn_note_id out) \<and> (\<forall>n \<in> set out. handed_over quotes now st n)
    \<and> (\<forall>n \<in> set out. parked (book (m_engine st')) (rn_note_id n) = Some (rn_dex n, now))
    \<and> (\<forall>i. i \<notin> rn_note_id ` set out \<longrightarrow> parked (book (m_engine st')) i = parked (book (m_engine st)) i)
    \<and> (route \<noteq> Sent \<longrightarrow> out = [])"
  using external_pass_result [OF assms] by blast

section \<open>Whole ticks\<close>

definition tick_ok :: "(OrderId \<Rightarrow> order_terms) \<Rightarrow> (OrderId \<Rightarrow> bytes \<Rightarrow> bool) \<Rightarrow> tick_input \<Rightarrow> matcher_state \<Rightarrow> bool" where
  "tick_ok trm dec inp st \<longleftrightarrow> (\<forall>o1 \<in> set (ti_orders inp). ingest_ok trm dec o1) \<and> finite (dom (ti_quotes inp))
     \<and> card (dom (orders (book (m_engine st)))) + length (ti_orders inp) < 2 ^ 32"

lemma drains_card:
  assumes "finite (dom (orders (book (m_engine st))))"
  shows "card (dom (orders (book (m_engine (fold drain_consumed ids st))))) \<le> card (dom (orders (book (m_engine st))))"
  by (rule card_mono [OF assms]) (auto simp: fold_drain_consumed fold_remove_order split: if_splits)

lemma matcher_inv_sync:
  assumes "matcher_inv trm dec st" "tick_ok trm dec inp st"
  shows "matcher_inv trm dec (matcher_sync inp st)"
proof -
  have "finite (dom (orders (book (m_engine st))))"
    using assms(1) store_okD(1) [OF wf_bookD(1)] by (simp add: matcher_inv_def)
  then have "card (dom (orders (book (m_engine (fold drain_consumed (ti_consumed inp) st))))) + length (ti_orders inp) < 2 ^ 32"
    using drains_card [of st "ti_consumed inp"] assms(2) by (simp add: tick_ok_def)
  then show ?thesis
    unfolding matcher_sync_def
    by (intro matcher_inv_drain_orders matcher_inv_drains assms(1)) (use assms(2) in \<open>simp_all add: tick_ok_def\<close>)
qed

lemma matcher_inv_reactivate: "matcher_inv trm dec st \<Longrightarrow> matcher_inv trm dec (matcher_reactivate now st)"
  by (auto simp: matcher_inv_def matcher_reactivate_def wf_book_reactivate notes_known_def fresh_book_def balance_of_def
      split: option.split)

lemma matcher_inv_external:
  assumes "env_ok env" "matcher_inv trm dec st" "finite (dom quotes)"
    and "external_pass env quotes route now st = (cl, out, st')"
  shows "matcher_inv trm dec st'"
  using assms(2) external_pass_result(1-4) [OF assms(1) _ assms(3,4)]
  by (simp add: matcher_inv_def notes_known_def fresh_book_def balance_of_def)

lemma matcher_inv_cong: "m_engine st' = m_engine st \<Longrightarrow> raw_notes st' = raw_notes st \<Longrightarrow> matcher_inv trm dec st' = matcher_inv trm dec st"
  by (simp add: matcher_inv_def notes_known_def)

lemma matcher_tick_unfold:
  assumes "internal_match env (ti_now_unix inp) (ti_prices inp) (ti_exec_open inp)
      (matcher_reactivate (max (last_now st) (ti_now_millis inp)) (matcher_sync inp (st\<lparr>last_now := max (last_now st) (ti_now_millis inp)\<rparr>)))
    = Some (False, batch, st3)"
  shows "\<exists>out st'. matcher_tick env inp st = Some (out, st') \<and> to_batch out = batch \<and> \<not> to_stop out
    \<and> to_snapshot out = Some (snapshot_best_levels (book (m_engine st')))
    \<and> ((st' = st3 \<and> to_routed out = []) \<or> (\<exists>cl st4. external_pass env (ti_quotes inp) (ti_route inp) (max (last_now st) (ti_now_millis inp)) st3
          = (cl, to_routed out, st4) \<and> m_engine st' = m_engine st4 \<and> raw_notes st' = raw_notes st4))"
proof (cases "router st3")
  case None
  then show ?thesis
    using assms by (simp add: matcher_tick_def Let_def)
next
  case (Some r)
  obtain cl ns st4 where "external_pass env (ti_quotes inp) (ti_route inp) (max (last_now st) (ti_now_millis inp)) st3 = (cl, ns, st4)"
    by (metis prod_cases3)
  with Some show ?thesis
    using assms by (simp add: matcher_tick_def Let_def)
qed

definition synced :: "tick_input \<Rightarrow> matcher_state \<Rightarrow> matcher_state" where
  "synced inp st = matcher_reactivate (max (last_now st) (ti_now_millis inp))
     (matcher_sync inp (st\<lparr>last_now := max (last_now st) (ti_now_millis inp)\<rparr>))"

lemma matcher_inv_synced:
  assumes "matcher_inv trm dec st" "tick_ok trm dec inp st"
  shows "matcher_inv trm dec (synced inp st)"
  unfolding synced_def
  by (intro matcher_inv_reactivate matcher_inv_sync) (use assms in \<open>simp_all add: matcher_inv_def notes_known_def tick_ok_def\<close>)

lemma drain_orders_frame:
  "dom (orders (book (m_engine (fold (drain_order clock) os st)))) \<subseteq> dom (orders (book (m_engine st))) \<union> io_note_id ` set os"
  "triangular_enabled (m_engine (fold (drain_order clock) os st)) = triangular_enabled (m_engine st)"
proof -
  have "dom (orders (book (m_engine (fold (drain_order clock) os st)))) \<subseteq> dom (orders (book (m_engine st))) \<union> io_note_id ` set os
      \<and> triangular_enabled (m_engine (fold (drain_order clock) os st)) = triangular_enabled (m_engine st)"
  proof (induction os arbitrary: st)
    case (Cons o1 os)
    have "dom (orders (book (m_engine (drain_order clock o1 st)))) \<subseteq> insert (io_note_id o1) (dom (orders (book (m_engine st))))"
      by (auto simp: drain_order_def add_ingest_order_def add_user_order_orders split: if_splits)
    moreover have "triangular_enabled (m_engine (drain_order clock o1 st)) = triangular_enabled (m_engine st)"
      by (simp add: drain_order_def)
    ultimately show ?case
      using Cons.IH [of "drain_order clock o1 st"] by simp blast
  qed simp
  then show "dom (orders (book (m_engine (fold (drain_order clock) os st)))) \<subseteq> dom (orders (book (m_engine st))) \<union> io_note_id ` set os"
    "triangular_enabled (m_engine (fold (drain_order clock) os st)) = triangular_enabled (m_engine st)"
    by blast+
qed

lemma synced_frame:
  "dom (orders (book (m_engine (synced inp st)))) \<subseteq> dom (orders (book (m_engine st))) \<union> io_note_id ` set (ti_orders inp)"
  "triangular_enabled (m_engine (synced inp st)) = triangular_enabled (m_engine st)"
proof -
  let ?st = "fold drain_consumed (ti_consumed inp) (st\<lparr>last_now := max (last_now st) (ti_now_millis inp)\<rparr>)"
  have "dom (orders (book (m_engine ?st))) \<subseteq> dom (orders (book (m_engine st)))"
    by (auto simp: fold_drain_consumed fold_remove_order split: if_splits)
  moreover have "orders (book (m_engine (synced inp st)))
      = orders (book (m_engine (fold (drain_order (ti_now_unix inp)) (ti_orders inp) ?st)))"
    by (simp add: synced_def matcher_reactivate_def matcher_sync_def split: option.split)
  ultimately show "dom (orders (book (m_engine (synced inp st)))) \<subseteq> dom (orders (book (m_engine st))) \<union> io_note_id ` set (ti_orders inp)"
    using drain_orders_frame(1) [of "ti_now_unix inp" "ti_orders inp" ?st] by simp blast
  show "triangular_enabled (m_engine (synced inp st)) = triangular_enabled (m_engine st)"
    by (simp add: synced_def matcher_reactivate_def matcher_sync_def drain_orders_frame fold_drain_consumed split: option.split)
qed

lemma matcher_tick_result:
  assumes env: "env_ok env" and inv: "matcher_inv trm dec st" and ok: "tick_ok trm dec inp st"
  obtains (stop) out st' where "matcher_tick env inp st = Some (out, st')" "to_stop out" "to_batch out = None" "\<not> ti_exec_open inp"
  | (cont) out st' st3 where "matcher_tick env inp st = Some (out, st')" "\<not> to_stop out" "matcher_inv trm dec st'"
      "to_snapshot out = Some (snapshot_best_levels (book (m_engine st')))"
      "internal_match env (ti_now_unix inp) (ti_prices inp) (ti_exec_open inp) (synced inp st) = Some (False, to_batch out, st3)"
      "dom (orders (book (m_engine st'))) \<subseteq> dom (orders (book (m_engine (synced inp st))))"
      "triangular_enabled (m_engine st') = triangular_enabled (m_engine st)"
proof -
  let ?now = "max (last_now st) (ti_now_millis inp)"
  have i2: "matcher_inv trm dec (synced inp st)"
    by (rule matcher_inv_synced [OF inv ok])
  have finq: "finite (dom (ti_quotes inp))"
    using ok by (simp add: tick_ok_def)
  have *: thesis if b: "internal_match env (ti_now_unix inp) (ti_prices inp) (ti_exec_open inp) (synced inp st) = Some (False, batch, st3)"
      and i3: "matcher_inv trm dec st3" "dom (orders (book (m_engine st3))) \<subseteq> dom (orders (book (m_engine (synced inp st))))"
        "triangular_enabled (m_engine st3) = triangular_enabled (m_engine st)" for batch st3
  proof -
    obtain out st' where o: "matcher_tick env inp st = Some (out, st')" "\<not> to_stop out" "to_batch out = batch"
        "to_snapshot out = Some (snapshot_best_levels (book (m_engine st')))"
        "(st' = st3 \<and> to_routed out = []) \<or> (\<exists>cl st4. external_pass env (ti_quotes inp) (ti_route inp) ?now st3
            = (cl, to_routed out, st4) \<and> m_engine st' = m_engine st4 \<and> raw_notes st' = raw_notes st4)"
      using matcher_tick_unfold [OF b [unfolded synced_def]] by blast
    have wf3: "wf_book (book (m_engine st3))"
      using i3(1) by (simp add: matcher_inv_def)
    have st': "matcher_inv trm dec st' \<and> orders (book (m_engine st')) = orders (book (m_engine st3))
        \<and> triangular_enabled (m_engine st') = triangular_enabled (m_engine st3)"
      using o(5)
    proof (elim disjE exE conjE)
      fix cl st4
      assume e: "external_pass env (ti_quotes inp) (ti_route inp) ?now st3 = (cl, to_routed out, st4)"
        and m: "m_engine st' = m_engine st4" "raw_notes st' = raw_notes st4"
      show ?thesis
        using matcher_inv_external [OF env i3(1) finq e] matcher_inv_cong [OF m]
          external_pass_result(1,6) [OF env wf3 finq e] m(1) by simp
    qed (use i3(1) in simp)
    show thesis
      by (rule cont [OF o(1,2)]) (use st' o(3,4) b i3 in simp_all)
  qed
  show thesis
  proof (cases rule: internal_match_result [OF env i2, of "ti_now_unix inp" "ti_prices inp" "ti_exec_open inp"])
    case (1 st')
    then show ?thesis
      by (intro * [of None st']) (simp_all add: synced_frame)
  next
    case (2 st')
    then show ?thesis
      by (intro stop) (auto simp: matcher_tick_def Let_def synced_def)
  next
    case (3 st' bk2 ids)
    then show ?thesis
      by (intro * [of _ st']) (auto simp: synced_frame split: if_splits)
  qed
qed

text \<open>
  C5: every tick returns, and between ticks the book holds only untouched orders. If
  the invariant holds and the new orders carry the terms their ids commit to, then
  after the tick, unless the executor is gone, the book is well-formed, no order in
  it is partially filled, no surplus is booked, and every order's note is known; the
  snapshot published is that of the new book.
\<close>

theorem matcher_tick_invariant:
  assumes "env_ok env" "matcher_inv trm dec st" "tick_ok trm dec inp st"
  shows "\<exists>out st'. matcher_tick env inp st = Some (out, st')
    \<and> (to_stop out \<longrightarrow> \<not> ti_exec_open inp)
    \<and> (\<not> to_stop out \<longrightarrow> matcher_inv trm dec st'
         \<and> to_snapshot out = Some (snapshot_best_levels (book (m_engine st'))))"
  by (rule matcher_tick_result [OF assms]) auto

section \<open>Startup\<close>

lemma matcher_inv_empty:
  "matcher_inv trm dec \<lparr>m_engine = \<lparr>book = OrderBook_new f, triangular_enabled = b\<rparr>, raw_notes = Map.empty,
     arrivals = Map.empty, last_now = 0, router = r\<rparr>"
proof -
  have "wf_book (OrderBook_new f)" by (rule wf_book_new)
  moreover have "orders (OrderBook_new f) = Map.empty" "protocol_balances (OrderBook_new f) = Map.empty"
    by (simp_all add: OrderBook_new_def)
  ultimately show ?thesis
    by (simp add: matcher_inv_def notes_known_def fresh_book_def balance_of_def unwrap_or_default_def)
qed

lemma matcher_inv_hydrate:
  assumes "matcher_inv trm dec st" "\<forall>o1 \<in> set os. ingest_ok trm dec o1"
    and "card (dom (orders (book (m_engine st)))) + length os < 2 ^ 32"
  shows "matcher_inv trm dec (fold (hydrate_order clock) os st)
    \<and> dom (orders (book (m_engine (fold (hydrate_order clock) os st)))) \<subseteq> dom (orders (book (m_engine st))) \<union> io_note_id ` set os
    \<and> triangular_enabled (m_engine (fold (hydrate_order clock) os st)) = triangular_enabled (m_engine st)"
  using assms
proof (induction os arbitrary: st)
  case (Cons o1 os)
  have *: "matcher_inv trm dec (hydrate_order clock o1 st)"
      "card (dom (orders (book (m_engine (hydrate_order clock o1 st))))) \<le> card (dom (orders (book (m_engine st)))) + 1"
    by (rule add_ingest_known [OF Cons.prems(1), of o1]; use Cons.prems in \<open>simp add: hydrate_order_def\<close>)+
  have "dom (orders (book (m_engine (hydrate_order clock o1 st)))) \<subseteq> insert (io_note_id o1) (dom (orders (book (m_engine st))))"
    by (auto simp: hydrate_order_def add_ingest_order_def add_user_order_orders split: if_splits)
  moreover have "triangular_enabled (m_engine (hydrate_order clock o1 st)) = triangular_enabled (m_engine st)"
    by (simp add: hydrate_order_def)
  ultimately show ?case
    using Cons.IH [OF *(1)] *(2) Cons.prems by simp blast
qed simp

lemma matcher_start_result:
  assumes "\<forall>os. loaded = Inr os \<longrightarrow> (\<forall>o1 \<in> set os. ingest_ok trm dec o1) \<and> length os < 2 ^ 32"
  shows "matcher_inv trm dec (matcher_start px tri hooks clock loaded)"
    "dom (orders (book (m_engine (matcher_start px tri hooks clock loaded))))
      \<subseteq> (case loaded of Inl _ \<Rightarrow> {} | Inr os \<Rightarrow> io_note_id ` set os)"
    "triangular_enabled (m_engine (matcher_start px tri hooks clock loaded)) = tri"
proof -
  let ?st = "\<lparr>m_engine = \<lparr>book = OrderBook_new (price_cents (from_watch px)), triangular_enabled = tri\<rparr>, raw_notes = Map.empty,
     arrivals = Map.empty, last_now = 0, router = hooks\<rparr>"
  have start: "matcher_start px tri hooks clock loaded = (case loaded of Inl _ \<Rightarrow> ?st | Inr os \<Rightarrow> fold (hydrate_order clock) os ?st)"
    by (simp add: matcher_start_def with_triangular_enabled_def MatchingEngine_new_def Let_def)
  have e: "orders (OrderBook_new f) = Map.empty" for f
    by (simp add: OrderBook_new_def)
  have "matcher_inv trm dec (matcher_start px tri hooks clock loaded)
      \<and> dom (orders (book (m_engine (matcher_start px tri hooks clock loaded))))
          \<subseteq> (case loaded of Inl _ \<Rightarrow> {} | Inr os \<Rightarrow> io_note_id ` set os)
      \<and> triangular_enabled (m_engine (matcher_start px tri hooks clock loaded)) = tri"
  proof (cases loaded)
    case (Inl x)
    then show ?thesis
      unfolding start by (simp add: matcher_inv_empty e)
  next
    case (Inr os)
    with assms matcher_inv_hydrate [OF matcher_inv_empty, of os trm dec "price_cents (from_watch px)" tri hooks clock]
    show ?thesis
      unfolding start by (simp add: e)
  qed
  then show "matcher_inv trm dec (matcher_start px tri hooks clock loaded)"
    "dom (orders (book (m_engine (matcher_start px tri hooks clock loaded))))
      \<subseteq> (case loaded of Inl _ \<Rightarrow> {} | Inr os \<Rightarrow> io_note_id ` set os)"
    "triangular_enabled (m_engine (matcher_start px tri hooks clock loaded)) = tri"
    by blast+
qed

section \<open>Concrete instances\<close>

definition sample_ingest :: "IngestOrder list" where
  "sample_ingest =
     [\<lparr>io_note_id = 0, io_offered_token = 1, io_requested_token = 2, io_offered_amount = 200, io_requested_amount = 100,
       io_raw_note_data = [1, 200, 2, 100]\<rparr>,
      \<lparr>io_note_id = 1, io_offered_token = 2, io_requested_token = 1, io_offered_amount = 150, io_requested_amount = 100,
       io_raw_note_data = [2, 150, 1, 100]\<rparr>]"

definition sample_terms :: "OrderId \<Rightarrow> order_terms" where
  "sample_terms i = (if i = 0 then (1, 2, 200, 100) else (2, 1, 150, 100))"

definition sample_hooks :: RouterHooks where
  "sample_hooks = \<lparr>inflight_ttl_ms = 30000\<rparr>"

definition sample_prices :: PriceSnapshot where
  "sample_prices = [1 \<mapsto> 100, 2 \<mapsto> 100]"

definition sample_matcher :: matcher_state where
  "sample_matcher = matcher_start sample_prices False (Some sample_hooks) (\<lambda>_. 0) (Inr [hd sample_ingest])"

definition sample_tick :: tick_input where
  "sample_tick = \<lparr>ti_now_millis = 7, ti_now_unix = (\<lambda>_. 1), ti_consumed = [], ti_orders = tl sample_ingest,
     ti_prices = sample_prices, ti_exec_open = True, ti_quotes = Map.empty, ti_route = Sent\<rparr>"

lemma sample_ingest_ok:
  assumes "\<And>o1. o1 \<in> set sample_ingest \<Longrightarrow> dec (io_note_id o1) (io_raw_note_data o1)"
  shows "\<forall>o1 \<in> set sample_ingest. ingest_ok sample_terms dec o1"
  using assms by (auto simp: ingest_ok_def sample_ingest_def sample_terms_def)

lemma sample_matcher_inv: "matcher_inv sample_terms (\<lambda>_ _. True) sample_matcher"
  unfolding sample_matcher_def
  by (rule matcher_start_result(1)) (use sample_ingest_ok [of "\<lambda>_ _. True"] in \<open>auto simp: sample_ingest_def\<close>)

theorem matcher_tick_invariant_witness:
  "\<exists>out st'. matcher_tick sample_env sample_tick sample_matcher = Some (out, st')
    \<and> matcher_inv sample_terms (\<lambda>_ _. True) st'"
proof -
  have d: "dom (orders (book (m_engine sample_matcher))) \<subseteq> {0}"
    using matcher_start_result(2) [of "Inr [hd sample_ingest]" sample_terms "\<lambda>_ _. True"] sample_ingest_ok [of "\<lambda>_ _. True"]
    by (simp add: sample_matcher_def sample_ingest_def)
  have "card (dom (orders (book (m_engine sample_matcher)))) \<le> card {0 :: nat}"
    by (rule card_mono [OF _ d]) simp
  then have "tick_ok sample_terms (\<lambda>_ _. True) sample_tick sample_matcher"
    using sample_ingest_ok [of "\<lambda>_ _. True"] by (auto simp: tick_ok_def sample_tick_def sample_ingest_def)
  from matcher_tick_invariant [OF sample_env_ok sample_matcher_inv this] show ?thesis
    by (auto simp: sample_tick_def)
qed

definition sample_quote_map :: QuotesSnapshot where
  "sample_quote_map = [(1, 2) \<mapsto> sample_quotes]"

theorem external_pass_exact_witness:
  "\<exists>cl out st'. external_pass sample_env sample_quote_map Sent 7 sample_matcher = (cl, out, st')
    \<and> wf_book (book (m_engine st')) \<and> list_all (\<lambda>n. parked (book (m_engine st')) (rn_note_id n) = Some (rn_dex n, 7)) out"
proof -
  obtain cl out st' where e: "external_pass sample_env sample_quote_map Sent 7 sample_matcher = (cl, out, st')"
    by (metis prod_cases3)
  have "wf_book (book (m_engine sample_matcher))"
    using sample_matcher_inv by (simp add: matcher_inv_def)
  from external_pass_exact [OF sample_env_ok this _ e] e show ?thesis
    by (auto simp: sample_quote_map_def list_all_iff)
qed

end
