(* ===== verification/Swap_Eta.thy ===== *)
theory Swap_Eta
  imports Order_Book_Props Pipeline_Types
begin

text \<open>
  The support of the swap-time endpoint, \<open>swap_eta.rs\<close>: the rolling window of
  settlement durations, the median, and the two predicates of the endpoint. USD
  prices are 64-bit floats in the source; the operations the code applies to them
  (positivity, rounding to cents, the printed ratio) are the parameter \<open>F\<close> of
  \<open>eval_off_market\<close>.
\<close>

section \<open>Settlement window\<close>

definition WINDOW_SECS :: u64 where
  "WINDOW_SECS = 24 * 60 * 60"

definition MAX_SAMPLES_PER_PAIR :: nat where
  "MAX_SAMPLES_PER_PAIR = 1000"

record Sample =
  at_unix :: UnixSecs
  duration_secs :: u64

record SettlementStats =
  by_pair :: "Pair \<Rightarrow> Sample list option"

definition SettlementStats_new :: SettlementStats where
  "SettlementStats_new = \<lparr>by_pair = Map.empty\<rparr>"

text \<open>The two loops pop from the front while their conditions hold.\<close>

fun pop_stale :: "u64 \<Rightarrow> Sample list \<Rightarrow> Sample list" where
  "pop_stale cutoff [] = []"
| "pop_stale cutoff (s # q) = (if at_unix s < cutoff then pop_stale cutoff q else s # q)"

fun pop_excess :: "nat \<Rightarrow> Sample list \<Rightarrow> Sample list" where
  "pop_excess cap [] = []"
| "pop_excess cap (s # q) = (if length (s # q) > cap then pop_excess cap q else s # q)"

definition record_sample :: "Pair \<Rightarrow> UnixSecs \<Rightarrow> u64 \<Rightarrow> SettlementStats \<Rightarrow> SettlementStats" where
  "record_sample pair now duration st =
     (let q = unwrap_or_default [] (by_pair st pair) @ [\<lparr>at_unix = now, duration_secs = duration\<rparr>];
          cutoff = saturating_sub now WINDOW_SECS
      in st\<lparr>by_pair := (by_pair st)(pair \<mapsto> pop_excess MAX_SAMPLES_PER_PAIR (pop_stale cutoff q))\<rparr>)"

definition median_of :: "u64 list \<Rightarrow> u64 option" where
  "median_of v =
     (if v = [] then None
      else
        let w = sort v; n = length w
        in Some (if n mod 2 = 1 then w ! (n div 2)
                 else as_u64 ((as_u128 (w ! (n div 2 - 1)) + as_u128 (w ! (n div 2))) div 2)))"

definition median_secs :: "SettlementStats \<Rightarrow> Pair \<Rightarrow> UnixSecs \<Rightarrow> u64 option" where
  "median_secs st pair now =
     (case by_pair st pair of
        None \<Rightarrow> None
      | Some q \<Rightarrow>
          let cutoff = saturating_sub now WINDOW_SECS
          in median_of (map duration_secs (filter (\<lambda>s. at_unix s \<ge> cutoff) q)))"

section \<open>Predicates of the endpoint\<close>

definition eval_can_fill :: "u64 \<Rightarrow> u64 \<Rightarrow> BestLevel option \<Rightarrow> bool" where
  "eval_can_fill offered_a requested_b best =
     (case best of
        None \<Rightarrow> False
      | Some b \<Rightarrow>
          let cross = as_u128 offered_a * as_u128 (rk_offered (bl_rate b))
                      > as_u128 requested_b * as_u128 (rk_requested (bl_rate b))
          in cross \<and> bl_volume b \<ge> requested_b)"

record 'f float_ops =
  f_positive :: "'f \<Rightarrow> bool"
  f_cents :: "'f \<Rightarrow> u128"
  f_ratio_text :: "'f \<Rightarrow> 'f \<Rightarrow> string"

definition checked_pow10 :: "u8 \<Rightarrow> u128 option" where
  "checked_pow10 e = (if (10 :: int) ^ unat e < 2 ^ 128 then Some (10 ^ unat e) else None)"

definition checked_add :: "'a::len word \<Rightarrow> 'a word \<Rightarrow> 'a word option" where
  "checked_add a b = (if uint a + uint b < 2 ^ LENGTH('a) then Some (a + b) else None)"

definition scaled_usd :: "u64 \<Rightarrow> u128 \<Rightarrow> u8 \<Rightarrow> u128 option" where
  "scaled_usd amount cents e =
     Option.bind (checked_mul (as_u128 amount) cents) (\<lambda>x. Option.bind (checked_pow10 e) (\<lambda>p. checked_mul x p))"

definition off_market_flag :: "u64 \<Rightarrow> u8 \<Rightarrow> u128 \<Rightarrow> u64 \<Rightarrow> u8 \<Rightarrow> u128 \<Rightarrow> u64 \<Rightarrow> bool option" where
  "off_market_flag offered_a d_a cents_a requested_b d_b cents_b tol_bps =
     (let m = min d_a d_b
      in Option.bind (scaled_usd offered_a cents_a (d_b - m)) (\<lambda>offered_usd.
         Option.bind (scaled_usd requested_b cents_b (d_a - m)) (\<lambda>requested_usd.
         Option.bind (checked_mul requested_usd 10000) (\<lambda>lhs.
         Option.bind (checked_add 10000 (as_u128 tol_bps)) (\<lambda>k.
         Option.bind (checked_mul offered_usd k) (\<lambda>rhs.
         Some (lhs > rhs)))))))"

definition eval_off_market :: "'f float_ops \<Rightarrow> u64 \<Rightarrow> u8 option \<Rightarrow> 'f option \<Rightarrow> u64 \<Rightarrow> u8 option \<Rightarrow> 'f option \<Rightarrow> u64
    \<Rightarrow> bool option \<times> string option" where
  "eval_off_market F offered_a d_a usd_a requested_b d_b usd_b tol_bps =
     (case (usd_a, usd_b) of
        (Some ua, Some ub) \<Rightarrow>
          if \<not> f_positive F ua \<or> \<not> f_positive F ub then (None, None)
          else
            let market_price = Some (f_ratio_text F ua ub)
            in (case (d_a, d_b) of
                  (Some da, Some db) \<Rightarrow>
                    if f_cents F ua = 0 \<or> f_cents F ub = 0 then (None, market_price)
                    else (off_market_flag offered_a da (f_cents F ua) requested_b db (f_cents F ub) tol_bps, market_price)
                | _ \<Rightarrow> (None, market_price))
      | _ \<Rightarrow> (None, None))"

section \<open>The window\<close>

lemma pop_stale_dropWhile: "pop_stale c q = dropWhile (\<lambda>s. at_unix s < c) q"
  by (induction q) simp_all

lemma pop_excess_drop: "pop_excess cap q = drop (length q - cap) q"
  by (induction q) (auto simp: Suc_diff_le not_less)

lemma drop_keeps_last:
  assumes "xs \<noteq> []" "0 < cap"
  shows "drop (length xs - cap) xs \<noteq> []" "last (drop (length xs - cap) xs) = last xs"
proof -
  have "length xs - cap < length xs"
    using assms by simp
  then show "drop (length xs - cap) xs \<noteq> []" "last (drop (length xs - cap) xs) = last xs"
    by (auto simp: last_drop)
qed

definition window_ok :: "UnixSecs \<Rightarrow> Sample list \<Rightarrow> bool" where
  "window_ok now q \<longleftrightarrow> length q \<le> MAX_SAMPLES_PER_PAIR \<and> sorted (map at_unix q) \<and> (\<forall>s \<in> set q. at_unix s \<le> now)"

lemma sorted_map_dropWhile: "sorted (map f xs) \<Longrightarrow> sorted (map f (dropWhile P xs))"
  by (induction xs) auto

lemma sorted_dropWhile_stale:
  assumes "sorted (map at_unix q)" "s \<in> set (dropWhile (\<lambda>s. at_unix s < c) q)"
  shows "c \<le> at_unix s"
  using assms
proof (induction q)
  case (Cons x q)
  then show ?case
    by (cases "at_unix x < c") auto
qed simp

text \<open>
  The settlement window is bounded and fresh. As long as the clock does not go
  back, recording a sample keeps at most a thousand samples of the pair in time
  order, all of them from the last day, the newest being the recorded one, and
  leaves the other pairs alone.
\<close>

theorem record_sample_window:
  assumes "\<And>q. by_pair st pair = Some q \<Longrightarrow> window_ok now q"
  shows "\<exists>q. by_pair (record_sample pair now duration st) pair = Some q \<and> window_ok now q
    \<and> q \<noteq> [] \<and> last q = \<lparr>at_unix = now, duration_secs = duration\<rparr>
    \<and> (\<forall>s \<in> set q. unat now - 86400 \<le> unat (at_unix s))
    \<and> (\<forall>p. p \<noteq> pair \<longrightarrow> by_pair (record_sample pair now duration st) p = by_pair st p)"
proof -
  let ?s = "\<lparr>at_unix = now, duration_secs = duration\<rparr>" and ?c = "saturating_sub now WINDOW_SECS"
  let ?old = "unwrap_or_default [] (by_pair st pair)"
  let ?pruned = "dropWhile (\<lambda>s. at_unix s < ?c) (?old @ [?s])"
  let ?kept = "drop (length ?pruned - MAX_SAMPLES_PER_PAIR) ?pruned"
  have q0: "window_ok now ?old"
    using assms by (cases "by_pair st pair") (simp_all add: unwrap_or_default_def window_ok_def)
  have c: "unat ?c = unat now - 86400"
    by (simp add: unat_saturating_sub WINDOW_SECS_def)
  then have cn: "\<not> now < ?c"
    by (simp add: word_less_nat_alt)
  have s0: "sorted (map at_unix (?old @ [?s]))"
    using q0 by (auto simp: window_ok_def sorted_append)
  have q1: "?pruned \<noteq> []" "last ?pruned = ?s"
    using cn by (simp_all add: dropWhile_append)
  have q: "?kept \<noteq> []" "last ?kept = ?s"
    using drop_keeps_last [OF q1(1), of MAX_SAMPLES_PER_PAIR] q1(2) by (simp_all add: MAX_SAMPLES_PER_PAIR_def)
  have sub: "set ?pruned \<subseteq> set (?old @ [?s])" "set ?kept \<subseteq> set ?pruned"
    by (auto dest: set_dropWhileD in_set_dropD)
  have "sorted (map at_unix ?pruned)"
    by (rule sorted_map_dropWhile [OF s0])
  then have "sorted (map at_unix ?kept)"
    using sorted_wrt_drop by (simp add: drop_map [symmetric])
  moreover have "\<forall>s \<in> set ?kept. at_unix s \<le> now"
    using sub q0 by (fastforce simp: window_ok_def)
  ultimately have w: "window_ok now ?kept"
    by (simp add: window_ok_def)
  have fresh: "unat now - 86400 \<le> unat (at_unix s)" if "s \<in> set ?kept" for s
    using sorted_dropWhile_stale [OF s0, of s ?c] that sub(2) c by (auto simp: word_le_nat_alt)
  have "by_pair (record_sample pair now duration st) pair = Some ?kept"
    by (simp add: record_sample_def Let_def pop_stale_dropWhile pop_excess_drop)
  moreover have "\<forall>p. p \<noteq> pair \<longrightarrow> by_pair (record_sample pair now duration st) p = by_pair st p"
    by (simp add: record_sample_def Let_def)
  ultimately show ?thesis
    using w q fresh by blast
qed

theorem record_sample_window_witness:
  "\<exists>q. by_pair (record_sample (1, 2) 90000 7 SettlementStats_new) (1, 2) = Some q \<and> window_ok 90000 q
     \<and> last q = \<lparr>at_unix = 90000, duration_secs = 7\<rparr>"
  using record_sample_window [of SettlementStats_new "(1, 2)" 90000 7] by (auto simp: SettlementStats_new_def)

section \<open>The median\<close>

lemma median_mean:
  "unat (as_u64 ((as_u128 a + as_u128 b) div 2)) = (unat a + unat b) div 2"
proof -
  have s: "unat (as_u128 a + as_u128 b) = unat a + unat b"
    using unat_u64_lt [of a] unat_u64_lt [of b] by (subst unat_add_no_wrap) simp_all
  then show ?thesis
    using unat_u64_lt [of a] unat_u64_lt [of b] by (simp add: unat_as_u64 unat_div)
qed

lemma sorted_count_le:
  assumes "sorted w" "k < length w" "w ! k \<le> m"
  shows "Suc k \<le> length (filter (\<lambda>x. x \<le> m) w)"
proof -
  have "\<forall>x \<in> set (take (Suc k) w). x \<le> m"
    using assms sorted_nth_mono [OF assms(1)] by (fastforce simp: in_set_conv_nth less_Suc_eq_le)
  then have "filter (\<lambda>x. x \<le> m) (take (Suc k) w) = take (Suc k) w"
    by (simp add: filter_id_conv)
  then have "length (filter (\<lambda>x. x \<le> m) (take (Suc k) w @ drop (Suc k) w)) \<ge> Suc k"
    using assms(2) by (simp only: filter_append length_append) simp
  then show ?thesis
    by simp
qed

lemma sorted_count_ge:
  assumes "sorted w" "k < length w" "m \<le> w ! k"
  shows "length w - k \<le> length (filter (\<lambda>x. m \<le> x) w)"
proof -
  have "m \<le> drop k w ! i" if "i < length w - k" for i
    using that assms order_trans [OF assms(3) sorted_nth_mono [OF assms(1), of k "k + i"]] by simp
  then have "\<forall>x \<in> set (drop k w). m \<le> x"
    by (auto simp: in_set_conv_nth)
  then have "filter (\<lambda>x. m \<le> x) (drop k w) = drop k w"
    by (simp add: filter_id_conv)
  then have "length (filter (\<lambda>x. m \<le> x) (take k w @ drop k w)) \<ge> length w - k"
    by (simp only: filter_append length_append) simp
  then show ?thesis
    by simp
qed

lemma length_filter_sort: "length (filter P (sort v)) = length (filter P v)"
  by (metis mset_filter mset_sort size_mset)

text \<open>
  The median is a median. It exists exactly for a non-empty sample, at least half
  of the sample is not above it and at least half is not below it; the sum of the
  two middle values never wraps.
\<close>

theorem median_of_splits:
  "(median_of v = None \<longleftrightarrow> v = [])
   \<and> (case median_of v of None \<Rightarrow> True
      | Some m \<Rightarrow> length v \<le> 2 * length (filter (\<lambda>x. x \<le> m) v) \<and> length v \<le> 2 * length (filter (\<lambda>x. m \<le> x) v))"
proof (cases "v = []")
  case False
  define w where "w = sort v"
  have w: "sorted w" "length w = length v" "w \<noteq> []"
    using False by (simp_all add: w_def) (metis length_0_conv length_sort)
  have cnt: "length (filter P v) = length (filter P w)" for P
    by (simp add: w_def length_filter_sort)
  let ?n = "length w"
  show ?thesis
  proof (cases "?n mod 2 = 1")
    case True
    then have "median_of v = Some (w ! (?n div 2))"
      using False by (simp add: median_of_def Let_def w_def)
    moreover have "Suc (?n div 2) \<le> length (filter (\<lambda>x. x \<le> w ! (?n div 2)) w)"
        "?n - ?n div 2 \<le> length (filter (\<lambda>x. w ! (?n div 2) \<le> x) w)"
      using sorted_count_le [OF w(1), of "?n div 2"] sorted_count_ge [OF w(1), of "?n div 2"] w(3) by simp_all
    ultimately show ?thesis
      using False w(2) by (simp add: cnt) linarith
  next
    case odd: False
    define a b where "a = w ! (?n div 2 - 1)" and "b = w ! (?n div 2)"
    define m where "m = as_u64 ((as_u128 a + as_u128 b) div 2)"
    have n: "2 \<le> ?n"
      using odd w(3) by (cases ?n) (auto simp: le_less_Suc_eq, presburger)
    have m: "median_of v = Some m"
      using False odd by (simp add: median_of_def Let_def w_def m_def a_def b_def)
    have "a \<le> b"
      unfolding a_def b_def by (rule sorted_nth_mono [OF w(1)]) (use n in auto)
    then have am: "a \<le> m" "m \<le> b"
      by (simp_all add: word_le_nat_alt m_def median_mean)
    have "Suc (?n div 2 - 1) \<le> length (filter (\<lambda>x. x \<le> m) w)"
      by (rule sorted_count_le [OF w(1)]) (use n am(1) in \<open>auto simp: a_def\<close>)
    moreover have "?n - ?n div 2 \<le> length (filter (\<lambda>x. m \<le> x) w)"
      by (rule sorted_count_ge [OF w(1)]) (use n am(2) in \<open>auto simp: b_def\<close>)
    ultimately show ?thesis
      using False m w(2) odd n by (simp add: cnt) presburger
  qed
qed (simp add: median_of_def)

section \<open>The predicates\<close>

lemma best_level_best_order:
  assumes "wf_book bk" "best_level a b bk = Some (k, v)"
  shows "\<exists>ord. fst (best_order a b bk) = Some ord \<and> RateKey_eq (rate_key ord) k
    \<and> offered ord \<noteq> 0 \<and> rk_offered k \<noteq> 0"
proof (cases "levels_of bk (a, b)")
  case Nil
  then have "pair_index bk (a, b) = None"
    using index_invD(4) [OF wf_bookD(2) [OF assms(1)], of "(a, b)"]
    by (auto simp: levels_of_def unwrap_or_default_def split: option.splits)
  with assms(2) show ?thesis
    by (simp add: best_level_def)
next
  case (Cons e L)
  obtain k' ids where e: "e = (k', ids)" by (cases e)
  have idx: "pair_index bk (a, b) = Some ((k', ids) # L)"
    using Cons e by (auto simp: levels_of_def unwrap_or_default_def split: option.splits)
  have ids: "ids \<noteq> []" "\<forall>i \<in> set ids. \<exists>ord. orders bk i = Some ord \<and> is_active ord"
    using wf_book_levels_active [OF assms(1), of k' ids "(a, b)"] Cons e by (auto simp: live_def)
  obtain v' where "level_volume (orders bk) ids False 0 = (True, v')"
    using level_volume_live(1) [OF ids(2), of False 0] ids(1) by (cases "level_volume (orders bk) ids False 0") auto
  then have k: "k' = k"
    using assms(2) by (simp add: best_level_def idx)
  have ok: "levels_ok (keyed (orders bk)) ((k', ids) # L)"
    using index_invD(1) [OF wf_bookD(2) [OF assms(1)], of "(a, b)"] Cons e by simp
  have "rate_valid k" "keyed (orders bk) (hd ids) k"
    using ok ids(1) by (auto simp: levels_ok_def k)
  then obtain ord where ord: "orders bk (hd ids) = Some ord" and "offered ord \<noteq> 0"
      "RateKey_eq (rate_key ord) k" "rk_offered k \<noteq> 0"
    by (auto simp: keyed_def rate_valid_def)
  then show ?thesis
    using best_order_wf [OF assms(1), of a b] Cons e ord by simp
qed

lemma profitable_same_rate:
  assumes "RateKey_eq (rate_key y) k" "offered y \<noteq> 0" "rk_offered k \<noteq> 0"
    and "unat (requested x) * unat (rk_requested k) < unat (offered x) * unat (rk_offered k)"
  shows "is_profitable_with x y"
proof -
  have eq: "unat (requested y) * unat (rk_offered k) = unat (rk_requested k) * unat (offered y)"
    using assms(1) by (simp add: RateKey_eq_def rate_key_def RateKey_new_def widening_mul_eq)
  have pos: "0 < unat (offered y)" "0 < unat (rk_offered k)"
    using assms(2,3) by (simp_all add: unat_gt_0)
  have "unat (requested x) * unat (requested y) * unat (rk_offered k)
      = unat (requested x) * unat (rk_requested k) * unat (offered y)"
    using eq by (simp add: mult.assoc)
  also have "\<dots> < unat (offered x) * unat (rk_offered k) * unat (offered y)"
    using assms(4) pos(1) by simp
  finally have "unat (requested x) * unat (requested y) < unat (offered x) * unat (offered y)"
    using pos(2) by (simp add: ac_simps)
  then show ?thesis
    by (simp add: is_profitable_with_def widening_mul_less)
qed

text \<open>
  What the endpoint calls fillable, direct matching calls profitable. If the
  published top level of the opposite pair makes \<open>eval_can_fill\<close> true for an order,
  then the best resting order of that pair is profitable to match with it.
\<close>

theorem can_fill_is_profitable:
  assumes "wf_book bk" "eval_can_fill (offered x) (requested x) (snapshot_best_levels bk (b, a))"
  shows "\<exists>y. fst (best_order b a bk) = Some y \<and> is_profitable_with x y"
proof -
  obtain k v where l: "best_level b a bk = Some (k, v)"
      and c: "unat (requested x) * unat (rk_requested k) < unat (offered x) * unat (rk_offered k)"
    using assms(2) by (auto simp: eval_can_fill_def snapshot_best_levels_def Let_def widening_mul_less split: option.splits)
  obtain y where "fst (best_order b a bk) = Some y" "RateKey_eq (rate_key y) k" "offered y \<noteq> 0" "rk_offered k \<noteq> 0"
    using best_level_best_order [OF assms(1) l] by blast
  with profitable_same_rate [OF _ _ _ c] show ?thesis
    by blast
qed

theorem can_fill_is_profitable_witness:
  "\<exists>y. fst (best_order 2 1 sample_book) = Some y \<and> is_profitable_with sample_ask y"
proof -
  have "eval_can_fill (offered sample_ask) (requested sample_ask) (snapshot_best_levels sample_book (2, 1))"
    by code_simp
  from can_fill_is_profitable [OF sample_books_wf(3) this] show ?thesis .
qed

lemma scaled_usd_Some:
  assumes "scaled_usd amount cents e = Some u"
  shows "unat u = unat amount * unat cents * 10 ^ unat e"
proof -
  obtain x p where x: "checked_mul (as_u128 amount) cents = Some x" and p: "checked_pow10 e = Some p"
      and u: "checked_mul x p = Some u"
    using assms by (auto simp: scaled_usd_def bind_eq_Some_conv)
  have p10: "(10 :: int) ^ unat e < 2 ^ 128" "p = 10 ^ unat e"
    using p by (auto simp: checked_pow10_def split: if_splits)
  have "int (10 ^ unat e) < int (2 ^ 128)"
    using p10(1) by simp
  then have "(10 :: nat) ^ unat e < 2 ^ LENGTH(128)"
    by (simp only: of_nat_less_iff len_num0 len_num1 len_bit0 len_bit1) simp
  moreover have "word_of_nat (10 ^ unat e) = p"
    by (simp add: p10(2))
  ultimately have "unat p = 10 ^ unat e"
    by (rule of_nat_inverse [rotated])
  with x u show ?thesis
    by (simp add: checked_mul_Some_iff)
qed

lemma checked_add_Some:
  fixes a b :: "'a::len word"
  assumes "checked_add a b = Some c"
  shows "unat c = unat a + unat b"
proof -
  have "int (unat a + unat b) < int (2 ^ LENGTH('a))"
    using assms by (simp add: checked_add_def of_nat_unat split: if_splits)
  then show ?thesis
    using assms unat_add_no_wrap [of a b] by (simp only: of_nat_less_iff) (auto simp: checked_add_def split: if_splits)
qed

text \<open>
  The off-market flag compares USD values exactly. Whenever the checked arithmetic
  yields an answer, it is the comparison of the two amounts scaled by their prices in
  cents and by each other's full decimals, with the tolerance in basis points.
\<close>

theorem off_market_exact:
  assumes "off_market_flag offered_a d_a cents_a requested_b d_b cents_b tol_bps = Some off"
  shows "off \<longleftrightarrow> unat offered_a * unat cents_a * 10 ^ unat d_b * (10000 + unat tol_bps)
      < unat requested_b * unat cents_b * 10 ^ unat d_a * 10000"
proof -
  let ?m = "min d_a d_b"
  obtain ou ru lhs k rhs where s: "scaled_usd offered_a cents_a (d_b - ?m) = Some ou"
      "scaled_usd requested_b cents_b (d_a - ?m) = Some ru" "checked_mul ru 10000 = Some lhs"
      "checked_add 10000 (as_u128 tol_bps) = Some k" "checked_mul ou k = Some rhs" "off = (rhs < lhs)"
    using assms by (auto simp: off_market_flag_def Let_def bind_eq_Some_conv)
  have d: "unat (d_b - ?m) = unat d_b - unat ?m" "unat (d_a - ?m) = unat d_a - unat ?m"
    by (simp_all add: unat_sub_le)
  have le: "unat ?m \<le> unat d_a" "unat ?m \<le> unat d_b"
    by (simp_all add: unat_min)
  have p: "(10::nat) ^ unat d_b = 10 ^ (unat d_b - unat ?m) * 10 ^ unat ?m"
      "(10::nat) ^ unat d_a = 10 ^ (unat d_a - unat ?m) * 10 ^ unat ?m"
    using le by (simp_all add: power_add [symmetric])
  have "off \<longleftrightarrow> unat offered_a * unat cents_a * 10 ^ (unat d_b - unat ?m) * (10000 + unat tol_bps)
      < unat requested_b * unat cents_b * 10 ^ (unat d_a - unat ?m) * 10000"
    using s(3,5,6) scaled_usd_Some [OF s(1)] scaled_usd_Some [OF s(2)] checked_add_Some [OF s(4)]
    by (simp add: checked_mul_Some_iff word_less_nat_alt d)
  also have "\<dots> \<longleftrightarrow> (unat offered_a * unat cents_a * 10 ^ (unat d_b - unat ?m) * (10000 + unat tol_bps)) * 10 ^ unat ?m
      < (unat requested_b * unat cents_b * 10 ^ (unat d_a - unat ?m) * 10000) * 10 ^ unat ?m"
    unfolding mult_less_cancel2 by simp
  finally show ?thesis
    unfolding p by (simp only: ac_simps)
qed

theorem off_market_exact_witness:
  "off_market_flag 1000 6 100 2000 8 300 50 = Some False
   \<and> \<not> 1000 * 100 * 10 ^ 8 * (10000 + 50) < (2000 * 300 * 10 ^ 6 * 10000 :: nat)"
proof -
  have f: "off_market_flag 1000 6 100 2000 8 300 50 = Some False"
    by code_simp
  from off_market_exact [OF f] f show ?thesis
    by simp
qed

end
