(* ===== verification/Executor.thy ===== *)
theory Executor
  imports Swap_Eta Db Settlement_Flow
begin

text \<open>
  The executor, \<open>executor/executor.rs\<close>: it turns a batch into one transaction,
  submits it with bounded retries and moves the source orders through their
  statuses. Notes, PSWAP semantics and the transaction builder belong to the
  protocol crates and are the parameter \<open>protocol\<close>. What the outside world answers
  during one batch (submissions, cancellation, database writes, the nullifier
  query, the channel to the matcher) is the record \<open>exec_env\<close>. The diagnostics
  dump only logs and is left out.
\<close>

section \<open>The protocol\<close>

record 'n BatchComponents =
  input_notes :: "('n \<times> bytes option) list"
  expected_output_recipients :: "nat list"
  surplus_assets :: "(TokenId \<times> u64) list"

record 'n TxRequest =
  tr_inputs :: "('n \<times> bytes option) list"
  tr_recipients :: "nat list"
  tr_consume_script :: "(TokenId \<times> u64) list option"

text \<open>
  Per field: reading a note from its bytes, parsing it as a PSWAP note, whether a
  fungible asset of an amount can be made, the arguments of a fill, executing a
  fill (the payback note and, for a partial fill, the remainder note), the
  fungible amounts of a note, its recipient, its id as bytes, and whether the
  builder accepts a request.
\<close>

record 'n protocol =
  pr_read :: "bytes \<Rightarrow> 'n option"
  pr_parse :: "'n \<Rightarrow> Pswap option"
  pr_asset :: "TokenId \<Rightarrow> u64 \<Rightarrow> bool"
  pr_args :: "u64 \<Rightarrow> u64 \<Rightarrow> bytes option"
  pr_execute :: "'n \<Rightarrow> nat \<Rightarrow> u64 \<Rightarrow> ('n \<times> 'n option) option"
  pr_fungible :: "'n \<Rightarrow> u64 list"
  pr_recipient :: "'n \<Rightarrow> nat"
  pr_id_bytes :: "OrderId \<Rightarrow> bytes"
  pr_build :: "'n TxRequest \<Rightarrow> bool"

section \<open>Submission\<close>

definition MAX_RPC_RETRIES :: nat where
  "MAX_RPC_RETRIES = 5"

definition INITIAL_RPC_BACKOFF :: nat where
  "INITIAL_RPC_BACKOFF = 500"

definition MAX_RPC_BACKOFF :: nat where
  "MAX_RPC_BACKOFF = 30000"

datatype ClientError = RpcError | OtherError

datatype SubmitOutcome =
    Success
  | RpcExhausted ClientError
  | TxError ClientError
  | BuildFailed
  | Cancelled

definition is_transient_rpc_error :: "ClientError \<Rightarrow> bool" where
  "is_transient_rpc_error err = (case err of RpcError \<Rightarrow> True | _ \<Rightarrow> False)"

definition build_tx_request :: "'n protocol \<Rightarrow> 'n BatchComponents \<Rightarrow> 'n TxRequest option" where
  "build_tx_request proto components =
     (let request = \<lparr>tr_inputs = input_notes components, tr_recipients = expected_output_recipients components,
                     tr_consume_script = (if surplus_assets components = [] then None else Some (surplus_assets components))\<rparr>
      in if pr_build proto request then Some request else None)"

text \<open>
  The attempts in order; \<open>submit i\<close> is the error of the \<open>i\<close>th submission, \<open>None\<close> on success,
  and \<open>cancelled i\<close> tells whether the token fires during the sleep after it. The
  result carries the sleeps in milliseconds; \<open>None\<close> is the unreachable end of the loop.
\<close>

fun submit_attempts :: "'n protocol \<Rightarrow> 'n BatchComponents \<Rightarrow> (nat \<Rightarrow> ClientError option) \<Rightarrow> (nat \<Rightarrow> bool)
    \<Rightarrow> nat list \<Rightarrow> nat \<Rightarrow> (SubmitOutcome \<times> nat list) option" where
  "submit_attempts proto components submit cancelled [] backoff = None"
| "submit_attempts proto components submit cancelled (attempt # attempts) backoff =
     (case build_tx_request proto components of
        None \<Rightarrow> Some (BuildFailed, [])
      | Some request \<Rightarrow>
        (case submit attempt of
           None \<Rightarrow> Some (Success, [])
         | Some e \<Rightarrow>
             if is_transient_rpc_error e then
               (if attempt = MAX_RPC_RETRIES then Some (RpcExhausted e, [])
                else if cancelled attempt then Some (Cancelled, [])
                else map_option (\<lambda>(out, sleeps). (out, backoff # sleeps))
                       (submit_attempts proto components submit cancelled attempts
                          (min (backoff * 2) MAX_RPC_BACKOFF)))
             else Some (TxError e, [])))"

definition submit_with_rpc_backoff :: "'n protocol \<Rightarrow> 'n BatchComponents \<Rightarrow> (nat \<Rightarrow> ClientError option) \<Rightarrow> (nat \<Rightarrow> bool)
    \<Rightarrow> (SubmitOutcome \<times> nat list) option" where
  "submit_with_rpc_backoff proto components submit cancelled =
     submit_attempts proto components submit cancelled [0..<MAX_RPC_RETRIES + 1] INITIAL_RPC_BACKOFF"

section \<open>Preparing a batch\<close>

datatype prep_error =
    NoteUnreadable
  | PswapUnparsable
  | FillAssetInvalid
  | ArgsInvalid
  | ExecuteFailed
  | InsolventBatch TokenId
  | SurplusOutOfRange TokenId
  | SurplusAssetInvalid TokenId

definition note_asset_amount :: "'n protocol \<Rightarrow> 'n \<Rightarrow> u64" where
  "note_asset_amount proto nt = (case pr_fungible proto nt of [] \<Rightarrow> 0 | a # _ \<Rightarrow> a)"

type_synonym flow_map = "TokenId \<Rightarrow> int option"

definition flow_add :: "TokenId \<Rightarrow> int \<Rightarrow> flow_map \<Rightarrow> flow_map" where
  "flow_add t d flow = flow(t \<mapsto> unwrap_or_default 0 (flow t) + d)"

record 'n prep_state =
  ps_inputs :: "('n \<times> bytes option) list"
  ps_recipients :: "nat list"
  ps_notes :: "'n list"
  ps_flow :: flow_map

definition prepare_note :: "'n protocol \<Rightarrow> nat \<Rightarrow> FilledNote \<Rightarrow> 'n prep_state \<Rightarrow> prep_error + 'n prep_state" where
  "prepare_note proto solver_id filled st =
     (case pr_read proto (fn_raw_note_data filled) of
        None \<Rightarrow> Inl NoteUnreadable
      | Some nt \<Rightarrow>
        (case pr_parse proto nt of
           None \<Rightarrow> Inl PswapUnparsable
         | Some pswap \<Rightarrow>
           let offered_token = ps_offered_faucet pswap;
               requested_token = ps_requested_faucet pswap;
               flow1 = flow_add offered_token (int (unat (ps_offered_amount pswap))) (ps_flow st)
           in if \<not> pr_asset proto requested_token (fn_requested_filled filled) then Inl FillAssetInvalid
              else case pr_args proto 0 (fn_requested_filled filled) of
                None \<Rightarrow> Inl ArgsInvalid
              | Some args \<Rightarrow>
                (case pr_execute proto nt solver_id (fn_requested_filled filled) of
                   None \<Rightarrow> Inl ExecuteFailed
                 | Some (p2id, remainder) \<Rightarrow>
                   let flow2 = flow_add requested_token (- int (unat (note_asset_amount proto p2id))) flow1;
                       recipients2 = ps_recipients st @ [pr_recipient proto p2id]
                   in Inr (case remainder of
                        None \<Rightarrow> \<lparr>ps_inputs = ps_inputs st @ [(nt, Some args)], ps_recipients = recipients2,
                                  ps_notes = ps_notes st @ [nt], ps_flow = flow2\<rparr>
                      | Some rem_note \<Rightarrow>
                          \<lparr>ps_inputs = ps_inputs st @ [(nt, Some args)],
                           ps_recipients = recipients2 @ [pr_recipient proto rem_note],
                           ps_notes = ps_notes st @ [nt],
                           ps_flow = flow_add offered_token (- int (unat (note_asset_amount proto rem_note))) flow2\<rparr>))))"

fun prepare_notes :: "'n protocol \<Rightarrow> nat \<Rightarrow> FilledNote list \<Rightarrow> 'n prep_state \<Rightarrow> prep_error + 'n prep_state" where
  "prepare_notes proto solver_id [] st = Inr st"
| "prepare_notes proto solver_id (filled # fs) st =
     (case prepare_note proto solver_id filled st of
        Inl e \<Rightarrow> Inl e
      | Inr st' \<Rightarrow> prepare_notes proto solver_id fs st')"

fun collect_surplus :: "'n protocol \<Rightarrow> (TokenId \<times> int) list \<Rightarrow> prep_error + (TokenId \<times> u64) list" where
  "collect_surplus proto [] = Inr []"
| "collect_surplus proto ((token, net) # ts) =
     (if net < 0 then Inl (InsolventBatch token)
      else if net > 0 then
        (if net \<ge> 2 ^ 64 then Inl (SurplusOutOfRange token)
         else if \<not> pr_asset proto token (word_of_int net) then Inl (SurplusAssetInvalid token)
         else map_sum id (Cons (token, word_of_int net)) (collect_surplus proto ts))
      else collect_surplus proto ts)"

definition prepare_batch_components :: "'n protocol \<Rightarrow> (TokenId set \<Rightarrow> TokenId list) \<Rightarrow> nat \<Rightarrow> ExecutionBatch
    \<Rightarrow> prep_error + 'n BatchComponents \<times> 'n list" where
  "prepare_batch_components proto order solver_id batch =
     (case prepare_notes proto solver_id (filled_notes batch)
             \<lparr>ps_inputs = [], ps_recipients = [], ps_notes = [], ps_flow = Map.empty\<rparr> of
        Inl e \<Rightarrow> Inl e
      | Inr st \<Rightarrow>
        (case collect_surplus proto (map (\<lambda>t. (t, the (ps_flow st t))) (order (dom (ps_flow st)))) of
           Inl e \<Rightarrow> Inl e
         | Inr surplus \<Rightarrow>
             Inr (\<lparr>input_notes = ps_inputs st, expected_output_recipients = ps_recipients st,
                   surplus_assets = surplus\<rparr>, ps_notes st)))"

section \<open>Re-feeding the matcher\<close>

definition rebuild_ingest_order :: "'n protocol \<Rightarrow> FilledNote \<Rightarrow> 'n \<Rightarrow> parse_error + IngestOrder" where
  "rebuild_ingest_order proto filled nt =
     (case from_note (pr_parse proto) nt of
        Inl e \<Rightarrow> Inl e
      | Inr parsed \<Rightarrow>
          Inr \<lparr>io_note_id = fn_note_id filled, io_offered_token = offered_faucet_id parsed,
               io_requested_token = requested_faucet_id parsed, io_offered_amount = offered_amount parsed,
               io_requested_amount = requested_amount parsed, io_raw_note_data = fn_raw_note_data filled\<rparr>)"

fun rebuild_pairs :: "'n protocol \<Rightarrow> (FilledNote \<times> 'n) list \<Rightarrow> parse_error + IngestOrder list" where
  "rebuild_pairs proto [] = Inr []"
| "rebuild_pairs proto ((filled, nt) # ps) =
     (case rebuild_ingest_order proto filled nt of
        Inl e \<Rightarrow> Inl e
      | Inr io \<Rightarrow> map_sum id (Cons io) (rebuild_pairs proto ps))"

definition rebuild_all_orders :: "'n protocol \<Rightarrow> ExecutionBatch \<Rightarrow> 'n list \<Rightarrow> parse_error + IngestOrder list" where
  "rebuild_all_orders proto batch nts = rebuild_pairs proto (zip (filled_notes batch) nts)"

text \<open>\<open>closes_after\<close>: the number of sends after which the matcher's channel is closed, if it closes.\<close>

definition refeed_orders :: "nat option \<Rightarrow> IngestOrder list \<Rightarrow> IngestOrder list" where
  "refeed_orders closes_after os = (case closes_after of None \<Rightarrow> os | Some k \<Rightarrow> take k os)"

fun classify_pairs :: "'n protocol \<Rightarrow> OrderId set \<Rightarrow> (FilledNote \<times> 'n) list
    \<Rightarrow> parse_error + (bytes list \<times> bytes list \<times> IngestOrder list)" where
  "classify_pairs proto consumed [] = Inr ([], [], [])"
| "classify_pairs proto consumed ((filled, nt) # ps) =
     (if fn_note_id filled \<in> consumed
      then map_sum id (\<lambda>(cb, ab, os). (pr_id_bytes proto (fn_note_id filled) # cb, ab, os)) (classify_pairs proto consumed ps)
      else case rebuild_ingest_order proto filled nt of
        Inl e \<Rightarrow> Inl e
      | Inr io \<Rightarrow> map_sum id (\<lambda>(cb, ab, os). (cb, pr_id_bytes proto (fn_note_id filled) # ab, io # os))
                    (classify_pairs proto consumed ps))"

definition classify_input_notes :: "'n protocol \<Rightarrow> OrderId set option \<Rightarrow> ExecutionBatch \<Rightarrow> 'n list
    \<Rightarrow> parse_error option + (bytes list \<times> bytes list \<times> IngestOrder list)" where
  "classify_input_notes proto check batch nts =
     (case check of
        None \<Rightarrow> Inl None
      | Some consumed_ids \<Rightarrow> map_sum Some id (classify_pairs proto consumed_ids (zip (filled_notes batch) nts)))"

section \<open>One batch\<close>

record exec_env =
  e_submit :: "nat \<Rightarrow> ClientError option"
  e_cancelled :: "nat \<Rightarrow> bool"
  e_settling_write :: bool
  e_executed_write :: bool
  e_revert_write :: bool
  e_classify_conn :: bool
  e_nullify_write :: bool
  e_reactivate_write :: bool
  e_consumed :: "OrderId set option"
  e_order_tx :: "nat option"

datatype exec_error =
    PrepareFailed prep_error
  | SettlingMarkFailed
  | ExecutedMarkFailed
  | SubmitRpcFailed
  | TxBuildFailed
  | SubmitCancelled
  | ClassifyFailed
  | ClassifyWriteFailed
  | SubmitTxFailed

definition revert_to_active :: "bool \<Rightarrow> bytes list \<Rightarrow> Db \<Rightarrow> Db" where
  "revert_to_active write_ok ids db = (if write_ok then snd (update_orders_status ids OrderStatus.Active db) else db)"

definition revert_and_refeed :: "'n protocol \<Rightarrow> exec_env \<Rightarrow> ExecutionBatch \<Rightarrow> 'n list \<Rightarrow> bytes list \<Rightarrow> Db \<Rightarrow> Db \<times> IngestOrder list" where
  "revert_and_refeed proto env batch nts ids db =
     (revert_to_active (e_revert_write env) ids db,
      case rebuild_all_orders proto batch nts of
        Inl _ \<Rightarrow> []
      | Inr os \<Rightarrow> refeed_orders (e_order_tx env) os)"

definition settle_tx_error :: "'n protocol \<Rightarrow> exec_env \<Rightarrow> ExecutionBatch \<Rightarrow> 'n list \<Rightarrow> Db
    \<Rightarrow> exec_error \<times> Db \<times> IngestOrder list" where
  "settle_tx_error proto env batch nts db =
     (case classify_input_notes proto (e_consumed env) batch nts of
        Inl _ \<Rightarrow> (ClassifyFailed, db, [])
      | Inr (consumed_bytes, active_bytes, active_orders) \<Rightarrow>
          if \<not> e_classify_conn env then (ClassifyWriteFailed, db, [])
          else if consumed_bytes \<noteq> [] \<and> \<not> e_nullify_write env then (ClassifyWriteFailed, db, [])
          else
            let db1 = (if consumed_bytes \<noteq> [] then snd (mark_orders_onchain_nullified consumed_bytes db) else db)
            in if active_bytes \<noteq> [] \<and> \<not> e_reactivate_write env then (ClassifyWriteFailed, db1, [])
               else
                 let db2 = (if active_bytes \<noteq> [] then snd (update_orders_status active_bytes OrderStatus.Active db1) else db1)
                 in (SubmitTxFailed, db2, refeed_orders (e_order_tx env) active_orders))"

text \<open>\<open>None\<close>: the executor panics.\<close>

definition execute_batch :: "'n protocol \<Rightarrow> (TokenId set \<Rightarrow> TokenId list) \<Rightarrow> nat \<Rightarrow> exec_env \<Rightarrow> ExecutionBatch \<Rightarrow> Db
    \<Rightarrow> ((exec_error + unit) \<times> Db \<times> IngestOrder list) option" where
  "execute_batch proto order solver_id env batch db =
     (case prepare_batch_components proto order solver_id batch of
        Inl e \<Rightarrow> Some (Inl (PrepareFailed e), db, [])
      | Inr (components, input_notes_only) \<Rightarrow>
        let source_note_ids = map (\<lambda>f. pr_id_bytes proto (fn_note_id f)) (filled_notes batch)
        in if \<not> e_settling_write env then Some (Inl SettlingMarkFailed, db, [])
           else
             let db1 = snd (update_orders_status source_note_ids Settling db)
             in (case submit_with_rpc_backoff proto components (e_submit env) (e_cancelled env) of
                   None \<Rightarrow> None
                 | Some (outcome, _) \<Rightarrow> Some
                   (case outcome of
                      Success \<Rightarrow>
                        if \<not> e_executed_write env then (Inl ExecutedMarkFailed, db1, [])
                        else (Inr (), snd (update_orders_status source_note_ids Executed db1), [])
                    | RpcExhausted _ \<Rightarrow>
                        (let (db2, os) = revert_and_refeed proto env batch input_notes_only source_note_ids db1
                         in (Inl SubmitRpcFailed, db2, os))
                    | BuildFailed \<Rightarrow>
                        (let (db2, os) = revert_and_refeed proto env batch input_notes_only source_note_ids db1
                         in (Inl TxBuildFailed, db2, os))
                    | Cancelled \<Rightarrow> (Inl SubmitCancelled, db1, [])
                    | TxError _ \<Rightarrow>
                        (let (e, db2, os) = settle_tx_error proto env batch input_notes_only db1
                         in (Inl e, db2, os)))))"

section \<open>The loop\<close>

fun record_notes :: "'n protocol \<Rightarrow> u64 \<Rightarrow> FilledNote list \<Rightarrow> bool \<times> SettlementStats \<Rightarrow> bool \<times> SettlementStats" where
  "record_notes proto now [] s = s"
| "record_notes proto now (filled # fs) (changed, st) =
     (case pr_read proto (fn_raw_note_data filled) of
        None \<Rightarrow> record_notes proto now fs (changed, st)
      | Some nt \<Rightarrow>
        (case from_note (pr_parse proto) nt of
           Inl _ \<Rightarrow> record_notes proto now fs (changed, st)
         | Inr parsed \<Rightarrow>
             record_notes proto now fs
               (True, record_sample (offered_faucet_id parsed, requested_faucet_id parsed) now
                        (saturating_sub now (fn_arrival_unix filled)) st)))"

text \<open>The updated window and what is published, if anything changed.\<close>

definition record_settlement :: "'n protocol \<Rightarrow> u64 \<Rightarrow> ExecutionBatch \<Rightarrow> SettlementStats \<Rightarrow> SettlementStats \<times> SettlementStats option" where
  "record_settlement proto now batch st =
     (let (changed, st') = record_notes proto now (filled_notes batch) (False, st)
      in (st', if changed then Some st' else None))"

record exec_state =
  x_db :: Db
  x_stats :: SettlementStats
  x_published :: "SettlementStats option"
  x_refed :: "IngestOrder list"

datatype exec_event = BatchEvent ExecutionBatch exec_env u64 | CancelEvent | ClosedEvent

definition executor_step :: "'n protocol \<Rightarrow> (TokenId set \<Rightarrow> TokenId list) \<Rightarrow> nat \<Rightarrow> ExecutionBatch \<Rightarrow> exec_env \<Rightarrow> u64
    \<Rightarrow> exec_state \<Rightarrow> exec_state option" where
  "executor_step proto order solver_id batch env now st =
     (if filled_notes batch = [] then Some st
      else case execute_batch proto order solver_id env batch (x_db st) of
        None \<Rightarrow> None
      | Some (Inl _, db', os) \<Rightarrow> Some (st\<lparr>x_db := db', x_refed := x_refed st @ os\<rparr>)
      | Some (Inr _, db', os) \<Rightarrow>
          (let (stats', published) = record_settlement proto now batch (x_stats st)
           in Some (st\<lparr>x_db := db', x_refed := x_refed st @ os, x_stats := stats',
                       x_published := (case published of None \<Rightarrow> x_published st | Some p \<Rightarrow> Some p)\<rparr>)))"

fun run_executor :: "'n protocol \<Rightarrow> (TokenId set \<Rightarrow> TokenId list) \<Rightarrow> nat \<Rightarrow> exec_event list \<Rightarrow> exec_state \<Rightarrow> exec_state option" where
  "run_executor proto order solver_id [] st = Some st"
| "run_executor proto order solver_id (CancelEvent # es) st = Some st"
| "run_executor proto order solver_id (ClosedEvent # es) st = Some st"
| "run_executor proto order solver_id (BatchEvent batch env now # es) st =
     (case executor_step proto order solver_id batch env now st of
        None \<Rightarrow> None
      | Some st' \<Rightarrow> run_executor proto order solver_id es st')"

end
