(* ===== verification/Executor_Props.thy ===== *)
theory Executor_Props
  imports Executor
begin

text \<open>
  Correctness of the executor: bounded retries, exactness of the prepared batch
  and of its solvency check, and the fate of every order of a batch.
\<close>

section \<open>Retries\<close>

lemma submit_attempts_bounded:
  assumes "attempts = [k..<MAX_RPC_RETRIES + 1]" "k \<le> MAX_RPC_RETRIES"
  shows "\<exists>out sleeps. submit_attempts proto comps submit cancelled attempts (min (500 * 2 ^ k) 30000) = Some (out, sleeps)
    \<and> prefix sleeps (map (\<lambda>i. min (500 * 2 ^ i) 30000) [k..<MAX_RPC_RETRIES])
    \<and> (case out of
         RpcExhausted e \<Rightarrow> \<forall>i \<in> {k..MAX_RPC_RETRIES}. submit i = Some RpcError
       | Success \<Rightarrow> submit (k + length sleeps) = None
       | TxError e \<Rightarrow> submit (k + length sleeps) = Some e \<and> e = OtherError
       | BuildFailed \<Rightarrow> build_tx_request proto comps = None
       | Cancelled \<Rightarrow> cancelled (k + length sleeps))"
  using assms
proof (induction attempts arbitrary: k)
  case (Cons a as)
  have "[k..<MAX_RPC_RETRIES + 1] = k # [Suc k..<MAX_RPC_RETRIES + 1]"
    by (rule upt_conv_Cons) (use Cons.prems(2) in simp)
  with Cons.prems(1) have a: "a = k" "as = [Suc k..<MAX_RPC_RETRIES + 1]"
    by (simp_all only: list.inject)
  show ?case
  proof (cases "\<exists>req. build_tx_request proto comps = Some req \<and> submit k = Some RpcError \<and> k \<noteq> MAX_RPC_RETRIES \<and> \<not> cancelled k")
    case False
    then show ?thesis
    proof (cases "submit k")
      case (Some e)
      with False a(1) Cons.prems(2) show ?thesis
        by (cases "build_tx_request proto comps"; cases e) (auto simp: is_transient_rpc_error_def)
    qed (auto simp: a split: option.split)
  next
    case True
    then have k: "Suc k \<le> MAX_RPC_RETRIES"
      using Cons.prems(2) by simp
    have next_backoff: "min (min (500 * 2 ^ k) 30000 * 2) MAX_RPC_BACKOFF = min (500 * 2 ^ Suc k) (30000 :: nat)"
      by (auto simp: MAX_RPC_BACKOFF_def min_def)
    obtain out sl where r: "submit_attempts proto comps submit cancelled as (min (500 * 2 ^ Suc k) 30000) = Some (out, sl)"
        "prefix sl (map (\<lambda>i. min (500 * 2 ^ i) 30000) [Suc k..<MAX_RPC_RETRIES])"
        "case out of
         RpcExhausted e \<Rightarrow> \<forall>i \<in> {Suc k..MAX_RPC_RETRIES}. submit i = Some RpcError
       | Success \<Rightarrow> submit (Suc k + length sl) = None
       | TxError e \<Rightarrow> submit (Suc k + length sl) = Some e \<and> e = OtherError
       | BuildFailed \<Rightarrow> build_tx_request proto comps = None
       | Cancelled \<Rightarrow> cancelled (Suc k + length sl)"
      using Cons.IH [OF a(2) k] by blast
    have res: "submit_attempts proto comps submit cancelled (a # as) (min (500 * 2 ^ k) 30000)
        = Some (out, min (500 * 2 ^ k) 30000 # sl)"
      using True r(1) by (auto simp: a is_transient_rpc_error_def next_backoff simp del: power_Suc)
    have pre: "prefix (min (500 * 2 ^ k) 30000 # sl) (map (\<lambda>i. min (500 * 2 ^ i) 30000) [k..<MAX_RPC_RETRIES])"
      using r(2) k by (simp add: upt_conv_Cons)
    have all: "\<forall>i \<in> {k..MAX_RPC_RETRIES}. submit i = Some RpcError" if "\<forall>i \<in> {Suc k..MAX_RPC_RETRIES}. submit i = Some RpcError"
    proof
      fix i
      assume "i \<in> {k..MAX_RPC_RETRIES}"
      then show "submit i = Some RpcError"
        using that True by (cases "i = k") auto
    qed
    show ?thesis
      by (intro exI [of _ out] exI [of _ "min (500 * 2 ^ k) 30000 # sl"] conjI res pre)
        (use all r(3) in \<open>cases out; simp\<close>)
  qed
qed simp

text \<open>
  Submission terminates within six attempts. Between them it sleeps at most 500,
  1000, 2000, 4000 and 8000 milliseconds in this order; it reports exhausted retries
  only after six transient errors, a transaction error only for a permanent one,
  and success only if the last submission succeeded.
\<close>

theorem submit_backoff_bounded:
  "\<exists>out sleeps. submit_with_rpc_backoff proto comps submit cancelled = Some (out, sleeps)
    \<and> prefix sleeps [500, 1000, 2000, 4000, 8000]
    \<and> (case out of
         RpcExhausted e \<Rightarrow> map submit [0..<6] = replicate 6 (Some RpcError)
       | Success \<Rightarrow> submit (length sleeps) = None
       | TxError e \<Rightarrow> submit (length sleeps) = Some e \<and> e = OtherError
       | BuildFailed \<Rightarrow> build_tx_request proto comps = None
       | Cancelled \<Rightarrow> cancelled (length sleeps))"
proof -
  have sl: "map (\<lambda>i. min (500 * 2 ^ i) 30000) [0..<MAX_RPC_RETRIES] = [500, 1000, 2000, 4000, 8000 :: nat]"
    by (simp add: MAX_RPC_RETRIES_def upt_rec)
  have six: "map submit [0..<6] = replicate 6 (Some RpcError)" if "\<forall>i \<in> {0..MAX_RPC_RETRIES}. submit i = Some RpcError"
    using that by (simp add: MAX_RPC_RETRIES_def upt_rec numeral_eq_Suc)
  obtain out sleeps where r: "submit_with_rpc_backoff proto comps submit cancelled = Some (out, sleeps)"
      "prefix sleeps [500, 1000, 2000, 4000, 8000]"
      "case out of
         RpcExhausted e \<Rightarrow> \<forall>i \<in> {0..MAX_RPC_RETRIES}. submit i = Some RpcError
       | Success \<Rightarrow> submit (length sleeps) = None
       | TxError e \<Rightarrow> submit (length sleeps) = Some e \<and> e = OtherError
       | BuildFailed \<Rightarrow> build_tx_request proto comps = None
       | Cancelled \<Rightarrow> cancelled (length sleeps)"
    using submit_attempts_bounded [OF refl, of 0 proto comps submit cancelled]
    unfolding submit_with_rpc_backoff_def sl add_0 by (auto simp: INITIAL_RPC_BACKOFF_def)
  then show ?thesis
    using six by (cases out) auto
qed

section \<open>The prepared batch\<close>

text \<open>What one filled note adds to the flow of a token: its offer, less the payback, less the remainder.\<close>

definition note_delta :: "'n protocol \<Rightarrow> nat \<Rightarrow> FilledNote \<Rightarrow> TokenId \<Rightarrow> int" where
  "note_delta proto solver f t =
     (case pr_read proto (fn_raw_note_data f) of None \<Rightarrow> 0 | Some nt \<Rightarrow>
       (case pr_parse proto nt of None \<Rightarrow> 0 | Some ps \<Rightarrow>
         (case pr_execute proto nt solver (fn_requested_filled f) of None \<Rightarrow> 0 | Some (p2id, rest) \<Rightarrow>
            (if ps_offered_faucet ps = t
             then int (unat (ps_offered_amount ps))
                  - (case rest of None \<Rightarrow> 0 | Some r \<Rightarrow> int (unat (note_asset_amount proto r))) else 0)
            - (if ps_requested_faucet ps = t then int (unat (note_asset_amount proto p2id)) else 0))))"

definition note_ready :: "'n protocol \<Rightarrow> nat \<Rightarrow> FilledNote \<Rightarrow> bool" where
  "note_ready proto solver f \<longleftrightarrow>
     (case pr_read proto (fn_raw_note_data f) of None \<Rightarrow> False | Some nt \<Rightarrow>
       (case pr_parse proto nt of None \<Rightarrow> False | Some ps \<Rightarrow>
          pr_asset proto (ps_requested_faucet ps) (fn_requested_filled f)
          \<and> pr_args proto 0 (fn_requested_filled f) \<noteq> None
          \<and> pr_execute proto nt solver (fn_requested_filled f) \<noteq> None))"

definition batch_flow :: "'n protocol \<Rightarrow> nat \<Rightarrow> FilledNote list \<Rightarrow> TokenId \<Rightarrow> int" where
  "batch_flow proto solver fs t = (\<Sum>f \<leftarrow> fs. note_delta proto solver f t)"

definition flow_at :: "flow_map \<Rightarrow> TokenId \<Rightarrow> int" where
  "flow_at m t = unwrap_or_default 0 (m t)"

lemma flow_at_add [simp]: "flow_at (flow_add s d m) t = flow_at m t + (if s = t then d else 0)"
  by (simp add: flow_at_def flow_add_def unwrap_or_default_def)

lemma flow_add_dom [simp]: "dom (flow_add s d m) = insert s (dom m)"
  by (simp add: flow_add_def)

lemma prepare_note_ready: "(\<exists>st'. prepare_note proto solver f st = Inr st') \<longleftrightarrow> note_ready proto solver f"
  by (auto simp: prepare_note_def note_ready_def Let_def split: option.splits prod.splits)

lemma prepare_note_Inr:
  assumes "prepare_note proto solver f st = Inr st'"
  shows "flow_at (ps_flow st') t = flow_at (ps_flow st) t + note_delta proto solver f t"
    and "finite (dom (ps_flow st)) \<Longrightarrow> finite (dom (ps_flow st'))"
    and "\<exists>nt. pr_read proto (fn_raw_note_data f) = Some nt \<and> ps_notes st' = ps_notes st @ [nt]"
  using assms
  by (auto simp: prepare_note_def note_delta_def Let_def split: option.splits prod.splits if_splits)

lemma prepare_notes_Inr:
  assumes "prepare_notes proto solver fs st = Inr st'"
  shows "flow_at (ps_flow st') t = flow_at (ps_flow st) t + batch_flow proto solver fs t"
    and "finite (dom (ps_flow st)) \<Longrightarrow> finite (dom (ps_flow st'))"
    and "\<exists>ns. ps_notes st' = ps_notes st @ ns \<and> list_all2 (\<lambda>f n. pr_read proto (fn_raw_note_data f) = Some n) fs ns"
proof -
  have "flow_at (ps_flow st') t = flow_at (ps_flow st) t + batch_flow proto solver fs t
      \<and> (finite (dom (ps_flow st)) \<longrightarrow> finite (dom (ps_flow st')))
      \<and> (\<exists>ns. ps_notes st' = ps_notes st @ ns \<and> list_all2 (\<lambda>f n. pr_read proto (fn_raw_note_data f) = Some n) fs ns)"
    using assms
  proof (induction fs arbitrary: st)
    case (Cons f fs)
    then obtain st1 where 1: "prepare_note proto solver f st = Inr st1" "prepare_notes proto solver fs st1 = Inr st'"
      by (auto split: sum.splits)
    obtain n where n: "pr_read proto (fn_raw_note_data f) = Some n" "ps_notes st1 = ps_notes st @ [n]"
      using prepare_note_Inr(3) [OF 1(1)] by blast
    obtain ns where ns: "ps_notes st' = ps_notes st1 @ ns" "list_all2 (\<lambda>f n. pr_read proto (fn_raw_note_data f) = Some n) fs ns"
      using Cons.IH [OF 1(2)] by blast
    then have "ps_notes st' = ps_notes st @ (n # ns) \<and> list_all2 (\<lambda>f n. pr_read proto (fn_raw_note_data f) = Some n) (f # fs) (n # ns)"
      using n by simp
    then show ?case
      using Cons.IH [OF 1(2)] prepare_note_Inr(1,2) [OF 1(1)] by (auto simp: batch_flow_def)
  qed (simp add: batch_flow_def)
  then show "flow_at (ps_flow st') t = flow_at (ps_flow st) t + batch_flow proto solver fs t"
    "finite (dom (ps_flow st)) \<Longrightarrow> finite (dom (ps_flow st'))"
    "\<exists>ns. ps_notes st' = ps_notes st @ ns \<and> list_all2 (\<lambda>f n. pr_read proto (fn_raw_note_data f) = Some n) fs ns"
    by blast+
qed

lemma prepare_notes_ready: "(\<exists>st'. prepare_notes proto solver fs st = Inr st') \<longleftrightarrow> (\<forall>f \<in> set fs. note_ready proto solver f)"
proof (induction fs arbitrary: st)
  case (Cons f fs)
  show ?case
  proof (cases "prepare_note proto solver f st")
    case (Inl e)
    then show ?thesis
      using prepare_note_ready [of proto solver f st] by auto
  next
    case (Inr st1)
    then show ?thesis
      using prepare_note_ready [of proto solver f st] Cons.IH [of st1] by auto
  qed
qed simp

definition surplus_ok :: "'n protocol \<Rightarrow> TokenId \<Rightarrow> int \<Rightarrow> bool" where
  "surplus_ok proto t net \<longleftrightarrow> 0 \<le> net \<and> (0 < net \<longrightarrow> net < 2 ^ 64 \<and> pr_asset proto t (word_of_int net))"

lemma collect_surplus_Inr_iff:
  "collect_surplus proto ts = Inr out \<longleftrightarrow> (\<forall>(t, net) \<in> set ts. surplus_ok proto t net)
     \<and> out = map (\<lambda>(t, net). (t, word_of_int net)) (filter (\<lambda>(t, net). 0 < net) ts)"
proof (induction proto ts arbitrary: out rule: collect_surplus.induct)
  case (2 proto token net ts)
  then show ?case
    by (cases "collect_surplus proto ts") (auto simp: surplus_ok_def)
qed (auto simp: surplus_ok_def)

definition empty_prep :: "'n prep_state" where
  "empty_prep = \<lparr>ps_inputs = [], ps_recipients = [], ps_notes = [], ps_flow = Map.empty\<rparr>"

lemma flow_pairs_ok:
  assumes "walks order" "finite (dom m)"
  shows "(\<forall>(t, net) \<in> set (map (\<lambda>t. (t, the (m t))) (order (dom m))). surplus_ok proto t net)
      \<longleftrightarrow> (\<forall>t. surplus_ok proto t (flow_at m t))"
proof -
  have out: "surplus_ok proto t (flow_at m t)" if "t \<notin> dom m" for t
    using that by (simp add: flow_at_def surplus_ok_def unwrap_or_default_def domIff)
  have "flow_at m t = the (m t)" if "t \<in> dom m" for t
    using that by (auto simp: flow_at_def unwrap_or_default_def)
  then have "(\<forall>(t, net) \<in> set (map (\<lambda>t. (t, the (m t))) (order (dom m))). surplus_ok proto t net)
      \<longleftrightarrow> (\<forall>t \<in> dom m. surplus_ok proto t (flow_at m t))"
    using walksD(2) [OF assms] by simp
  with out show ?thesis
    by blast
qed

lemma prepare_batch_cases:
  assumes "walks order"
  obtains e where "prepare_batch_components proto order solver batch = Inl e"
      "\<not> (\<forall>f \<in> set (filled_notes batch). note_ready proto solver f)"
  | e st where "prepare_batch_components proto order solver batch = Inl e"
      "prepare_notes proto solver (filled_notes batch) empty_prep = Inr st"
      "\<not> (\<forall>t. surplus_ok proto t (flow_at (ps_flow st) t))"
  | comps st where "prepare_batch_components proto order solver batch = Inr (comps, ps_notes st)"
      "prepare_notes proto solver (filled_notes batch) empty_prep = Inr st"
      "\<forall>t. surplus_ok proto t (flow_at (ps_flow st) t)"
      "surplus_assets comps = map (\<lambda>(t, net). (t, word_of_int net))
         (filter (\<lambda>(t, net). 0 < net) (map (\<lambda>t. (t, the (ps_flow st t))) (order (dom (ps_flow st)))))"
proof (cases "prepare_notes proto solver (filled_notes batch) empty_prep")
  case (Inl e)
  then show thesis
    using that(1) [of e] prepare_notes_ready [of proto solver "filled_notes batch" empty_prep]
    by (auto simp: prepare_batch_components_def empty_prep_def)
next
  case (Inr st)
  let ?ts = "map (\<lambda>t. (t, the (ps_flow st t))) (order (dom (ps_flow st)))"
  have fin: "finite (dom (ps_flow st))"
    using prepare_notes_Inr(2) [OF Inr] by (simp add: empty_prep_def)
  note ok = flow_pairs_ok [OF assms fin, of proto]
  show thesis
  proof (cases "collect_surplus proto ?ts")
    case (Inl e)
    then have "\<not> (\<forall>(t, net) \<in> set ?ts. surplus_ok proto t net)"
      using collect_surplus_Inr_iff [of proto ?ts] by auto
    then show ?thesis
      using that(2) [OF _ Inr, of e] Inl Inr unfolding ok by (simp add: prepare_batch_components_def empty_prep_def)
  next
    case out: (Inr out)
    then have "\<forall>(t, net) \<in> set ?ts. surplus_ok proto t net"
        "out = map (\<lambda>(t, net). (t, word_of_int net)) (filter (\<lambda>(t, net). 0 < net) ?ts)"
      unfolding collect_surplus_Inr_iff by blast+
    then show ?thesis
      using that(3) [OF _ Inr] out Inr unfolding ok by (simp add: prepare_batch_components_def empty_prep_def)
  qed
qed

lemma prepared_flow:
  "prepare_notes proto solver fs empty_prep = Inr st \<Longrightarrow> flow_at (ps_flow st) t = batch_flow proto solver fs t"
  using prepare_notes_Inr(1) [of proto solver fs empty_prep st t] by (simp add: empty_prep_def flow_at_def unwrap_or_default_def)

lemma prepare_batch_iff:
  assumes "walks order"
  shows "(\<exists>r. prepare_batch_components proto order solver batch = Inr r) \<longleftrightarrow>
      (\<forall>f \<in> set (filled_notes batch). note_ready proto solver f)
      \<and> (\<forall>t. surplus_ok proto t (batch_flow proto solver (filled_notes batch) t))"
proof (cases rule: prepare_batch_cases [OF assms, of proto solver batch])
  case (2 e st)
  then show ?thesis
    by (simp add: prepared_flow)
next
  case (3 comps st)
  then have "\<forall>f \<in> set (filled_notes batch). note_ready proto solver f"
    using prepare_notes_ready [of proto solver "filled_notes batch" empty_prep] by blast
  with 3 show ?thesis
    by (simp add: prepared_flow)
qed auto

lemma prepare_batch_Inr:
  assumes "walks order" "prepare_batch_components proto order solver batch = Inr (comps, nts)"
  shows "(\<forall>t x. (t, x) \<in> set (surplus_assets comps) \<longleftrightarrow>
          0 < batch_flow proto solver (filled_notes batch) t \<and> x = word_of_int (batch_flow proto solver (filled_notes batch) t))
      \<and> list_all2 (\<lambda>f n. pr_read proto (fn_raw_note_data f) = Some n) (filled_notes batch) nts"
proof (cases rule: prepare_batch_cases [OF assms(1), of proto solver batch])
  case (3 comps' st)
  then have c: "comps' = comps" "nts = ps_notes st"
    using assms(2) by simp_all
  have fin: "finite (dom (ps_flow st))"
    using prepare_notes_Inr(2) [OF 3(2)] by (simp add: empty_prep_def)
  have fl: "flow_at (ps_flow st) t = batch_flow proto solver (filled_notes batch) t" for t
    by (rule prepared_flow [OF 3(2)])
  have "(t, x) \<in> set (surplus_assets comps) \<longleftrightarrow> 0 < flow_at (ps_flow st) t \<and> x = word_of_int (flow_at (ps_flow st) t)" for t x
    using 3(4) walksD(2) [OF assms(1) fin] unfolding c
    by (cases "ps_flow st t") (auto simp: flow_at_def unwrap_or_default_def image_iff)
  moreover have "list_all2 (\<lambda>f n. pr_read proto (fn_raw_note_data f) = Some n) (filled_notes batch) nts"
    using prepare_notes_Inr(3) [OF 3(2)] by (simp add: c empty_prep_def)
  ultimately show ?thesis
    by (simp add: fl)
qed (use assms(2) in auto)

text \<open>
  C14: the executor accepts a batch exactly when it can settle it. Preparing succeeds if
  and only if every note can be filled as asked and every token's flow is
  non-negative and, when positive, an amount that an asset can hold; then the surplus
  assets are the tokens with positive flow with that amount, and the input notes are
  the batch's notes in order.
\<close>

theorem prepare_batch_exact:
  assumes "walks order"
  shows "((\<exists>r. prepare_batch_components proto order solver batch = Inr r) \<longleftrightarrow>
      (\<forall>f \<in> set (filled_notes batch). note_ready proto solver f)
      \<and> (\<forall>t. surplus_ok proto t (batch_flow proto solver (filled_notes batch) t)))
    \<and> (\<forall>comps nts. prepare_batch_components proto order solver batch = Inr (comps, nts) \<longrightarrow>
      (\<forall>t x. (t, x) \<in> set (surplus_assets comps) \<longleftrightarrow>
          0 < batch_flow proto solver (filled_notes batch) t \<and> x = word_of_int (batch_flow proto solver (filled_notes batch) t))
      \<and> list_all2 (\<lambda>f n. pr_read proto (fn_raw_note_data f) = Some n) (filled_notes batch) nts)"
  using prepare_batch_iff [OF assms] prepare_batch_Inr [OF assms] by blast

section \<open>The fate of an order\<close>

definition status_of :: "Db \<Rightarrow> bytes \<Rightarrow> OrderStatus option" where
  "status_of db k = Option.bind (t_orders db k) order_status"

lemma status_of_update [simp]:
  "status_of (snd (update_orders_status ids st db)) k =
     (if k \<in> set ids \<and> t_orders db k \<noteq> None then Some st else status_of db k)"
  by (cases "t_orders db k") (simp_all add: status_of_def update_orders_status_def update_where_status)

lemma status_of_nullify:
  "status_of db k = Some Settling \<Longrightarrow>
   status_of (snd (mark_orders_onchain_nullified ids db)) k = (if k \<in> set ids then Some OnchainNullified else Some Settling)"
  by (cases "t_orders db k")
    (auto simp: status_of_def mark_orders_onchain_nullified_def update_where_status with_status_def order_status_def status_from_str_def split: if_splits)

lemma update_keeps_row [simp]: "t_orders (snd (update_orders_status ids st db)) k = None \<longleftrightarrow> t_orders db k = None"
  by (cases "t_orders db k") (simp_all add: update_orders_status_def update_where_status)

lemma nullify_keeps_row [simp]: "t_orders (snd (mark_orders_onchain_nullified ids db)) k = None \<longleftrightarrow> t_orders db k = None"
  by (cases "t_orders db k") (simp_all add: mark_orders_onchain_nullified_def update_where_status)

lemma keeps_row_ex [simp]:
  "(\<exists>y. t_orders (snd (update_orders_status ids st db)) k = Some y) \<longleftrightarrow> (\<exists>y. t_orders db k = Some y)"
  "(\<exists>y. t_orders (snd (mark_orders_onchain_nullified ids db)) k = Some y) \<longleftrightarrow> (\<exists>y. t_orders db k = Some y)"
  using update_keeps_row [of ids st db k] nullify_keeps_row [of ids db k] unfolding not_None_eq [symmetric] by simp_all

definition rebuildable :: "'n protocol \<Rightarrow> FilledNote \<times> 'n \<Rightarrow> bool" where
  "rebuildable proto p \<longleftrightarrow> (\<exists>io. rebuild_ingest_order proto (fst p) (snd p) = Inr io)"

lemma rebuild_id: "rebuild_ingest_order proto f n = Inr io \<Longrightarrow> io_note_id io = fn_note_id f"
  by (auto simp: rebuild_ingest_order_def split: sum.splits)

lemma rebuild_pairs_ids:
  "\<forall>p \<in> set ps. rebuildable proto p \<Longrightarrow>
   \<exists>os. rebuild_pairs proto ps = Inr os \<and> map io_note_id os = map (fn_note_id \<circ> fst) ps"
proof (induction ps)
  case (Cons p ps)
  obtain f n where p: "p = (f, n)" by fastforce
  obtain io where io: "rebuild_ingest_order proto f n = Inr io"
    using Cons.prems by (auto simp: rebuildable_def p)
  obtain os where "rebuild_pairs proto ps = Inr os" "map io_note_id os = map (fn_note_id \<circ> fst) ps"
    using Cons by auto
  with io rebuild_id [OF io] show ?case
    by (simp add: p)
qed simp

lemma classify_pairs_ids:
  "\<forall>p \<in> set ps. rebuildable proto p \<Longrightarrow>
   \<exists>os. classify_pairs proto C ps =
       Inr (map (pr_id_bytes proto \<circ> fn_note_id \<circ> fst) (filter (\<lambda>p. fn_note_id (fst p) \<in> C) ps),
            map (pr_id_bytes proto \<circ> fn_note_id \<circ> fst) (filter (\<lambda>p. fn_note_id (fst p) \<notin> C) ps), os)
     \<and> map io_note_id os = map (fn_note_id \<circ> fst) (filter (\<lambda>p. fn_note_id (fst p) \<notin> C) ps)"
proof (induction ps)
  case (Cons p ps)
  obtain f n where p: "p = (f, n)" by fastforce
  obtain io where io: "rebuild_ingest_order proto f n = Inr io"
    using Cons.prems by (auto simp: rebuildable_def p)
  obtain os where "classify_pairs proto C ps =
       Inr (map (pr_id_bytes proto \<circ> fn_note_id \<circ> fst) (filter (\<lambda>p. fn_note_id (fst p) \<in> C) ps),
            map (pr_id_bytes proto \<circ> fn_note_id \<circ> fst) (filter (\<lambda>p. fn_note_id (fst p) \<notin> C) ps), os)"
      "map io_note_id os = map (fn_note_id \<circ> fst) (filter (\<lambda>p. fn_note_id (fst p) \<notin> C) ps)"
    using Cons by auto
  with io rebuild_id [OF io] show ?case
    by (simp add: p)
qed simp

text \<open>
  The environments in which the store accepts its writes, the nullifier query
  answers and the matcher is alive.
\<close>

definition env_healthy :: "exec_env \<Rightarrow> bool" where
  "env_healthy env \<longleftrightarrow> e_settling_write env \<and> e_executed_write env \<and> e_revert_write env \<and> e_classify_conn env
     \<and> e_nullify_write env \<and> e_reactivate_write env \<and> e_consumed env \<noteq> None \<and> e_order_tx env = None"

definition order_fate :: "exec_env \<Rightarrow> exec_error + unit \<Rightarrow> OrderId \<Rightarrow> OrderStatus option \<Rightarrow> OrderStatus option
    \<Rightarrow> OrderId set \<Rightarrow> bool" where
  "order_fate env res i old new refed \<longleftrightarrow>
     (case res of
        Inr _ \<Rightarrow> new = Some Executed \<and> i \<notin> refed
      | Inl (PrepareFailed _) \<Rightarrow> new = old \<and> i \<notin> refed
      | Inl SubmitCancelled \<Rightarrow> new = Some Settling \<and> i \<notin> refed
      | Inl SubmitRpcFailed \<Rightarrow> new = Some OrderStatus.Active \<and> i \<in> refed
      | Inl TxBuildFailed \<Rightarrow> new = Some OrderStatus.Active \<and> i \<in> refed
      | Inl SubmitTxFailed \<Rightarrow>
          if i \<in> the (e_consumed env) then new = Some OnchainNullified \<and> i \<notin> refed
          else new = Some OrderStatus.Active \<and> i \<in> refed
      | Inl _ \<Rightarrow> False)"

lemma revert_and_refeed_healthy:
  assumes "env_healthy env" "\<forall>p \<in> set (zip (filled_notes batch) nts). rebuildable proto p"
    and "length nts = length (filled_notes batch)"
  shows "\<exists>os. revert_and_refeed proto env batch nts ids db = (snd (update_orders_status ids OrderStatus.Active db), os)
    \<and> io_note_id ` set os = fn_note_id ` set (filled_notes batch)"
proof -
  obtain os where os: "rebuild_all_orders proto batch nts = Inr os"
      "map io_note_id os = map (fn_note_id \<circ> fst) (zip (filled_notes batch) nts)"
    using rebuild_pairs_ids [OF assms(2)] by (auto simp: rebuild_all_orders_def)
  have "io_note_id ` set os = set (map io_note_id os)"
    by simp
  also have "\<dots> = fn_note_id ` set (map fst (zip (filled_notes batch) nts))"
    unfolding os(2) by (simp add: image_comp comp_assoc)
  also have "\<dots> = fn_note_id ` set (filled_notes batch)"
    using assms(3) by simp
  finally show ?thesis
    using assms(1) os by (simp add: revert_and_refeed_def revert_to_active_def refeed_orders_def env_healthy_def)
qed

lemma settle_tx_error_healthy:
  assumes h: "env_healthy env" and re: "\<forall>p \<in> set (zip (filled_notes batch) nts). rebuildable proto p"
    and len: "length nts = length (filled_notes batch)" and inj: "inj (pr_id_bytes proto)"
    and f: "f \<in> set (filled_notes batch)" "status_of db (pr_id_bytes proto (fn_note_id f)) = Some Settling"
  shows "\<exists>db' os. settle_tx_error proto env batch nts db = (SubmitTxFailed, db', os)
    \<and> order_fate env (Inl SubmitTxFailed) (fn_note_id f) old (status_of db' (pr_id_bytes proto (fn_note_id f))) (io_note_id ` set os)"
proof -
  obtain C where C: "e_consumed env = Some C"
    using h by (auto simp: env_healthy_def)
  let ?ps = "zip (filled_notes batch) nts" and ?k = "pr_id_bytes proto (fn_note_id f)"
  let ?cb = "map (pr_id_bytes proto \<circ> fn_note_id \<circ> fst) (filter (\<lambda>p. fn_note_id (fst p) \<in> C) ?ps)"
  let ?ab = "map (pr_id_bytes proto \<circ> fn_note_id \<circ> fst) (filter (\<lambda>p. fn_note_id (fst p) \<notin> C) ?ps)"
  obtain os where os: "classify_pairs proto C ?ps = Inr (?cb, ?ab, os)"
      "map io_note_id os = map (fn_note_id \<circ> fst) (filter (\<lambda>p. fn_note_id (fst p) \<notin> C) ?ps)"
    using classify_pairs_ids [OF re] by blast
  have fz: "f \<in> fst ` set ?ps"
    using f(1) len by (metis list.set_map map_fst_zip)
  have k: "?k \<in> set ?cb \<longleftrightarrow> fn_note_id f \<in> C" "?k \<in> set ?ab \<longleftrightarrow> fn_note_id f \<notin> C"
    using fz inj by (auto simp: inj_eq image_iff)
  have ids: "io_note_id ` set os = set (map io_note_id os)"
    by simp
  have o: "fn_note_id f \<in> io_note_id ` set os \<longleftrightarrow> fn_note_id f \<notin> C"
    unfolding ids os(2) using fz by (auto simp: image_iff)
  let ?db1 = "if ?cb \<noteq> [] then snd (mark_orders_onchain_nullified ?cb db) else db"
  let ?db2 = "if ?ab \<noteq> [] then snd (update_orders_status ?ab OrderStatus.Active ?db1) else ?db1"
  have res: "settle_tx_error proto env batch nts db = (SubmitTxFailed, ?db2, os)"
    using h os(1) C by (simp add: settle_tx_error_def classify_input_notes_def env_healthy_def refeed_orders_def Let_def)
  have row: "t_orders db ?k \<noteq> None"
    using f(2) by (auto simp: status_of_def bind_eq_Some_conv)
  have s1: "status_of ?db1 ?k = (if fn_note_id f \<in> C then Some OnchainNullified else Some Settling)"
    using status_of_nullify [OF f(2), of ?cb] k(1) f(2) by (cases "?cb = []") auto
  have r1: "t_orders ?db1 ?k \<noteq> None"
    using row by simp
  have s2: "status_of ?db2 ?k = (if fn_note_id f \<in> C then Some OnchainNullified else Some OrderStatus.Active)"
    using s1 k(2) r1 by (cases "?ab = []") auto
  show ?thesis
    using res s2 o C by (auto simp: order_fate_def)
qed


section \<open>A concrete protocol\<close>

text \<open>
  A small protocol with the documented PSWAP behaviour, for the concrete instances: a
  note of four bytes offers and requests small amounts; filling it pays the fill
  back to the creator and leaves a remainder note unless the fill is complete.
\<close>

datatype tiny_note = TinySwap Pswap | TinyPay u64

fun tiny_read :: "bytes \<Rightarrow> tiny_note option" where
  "tiny_read [ot, oa, rt, ra] = Some (TinySwap \<lparr>ps_offered_faucet = unat ot, ps_offered_amount = ucast oa,
     ps_requested_faucet = unat rt, ps_requested_amount = ucast ra, ps_creator = 0\<rparr>)"
| "tiny_read _ = None"

fun tiny_parse :: "tiny_note \<Rightarrow> Pswap option" where
  "tiny_parse (TinySwap ps) = Some ps"
| "tiny_parse (TinyPay _) = None"

fun tiny_execute :: "tiny_note \<Rightarrow> nat \<Rightarrow> u64 \<Rightarrow> (tiny_note \<times> tiny_note option) option" where
  "tiny_execute (TinySwap ps) solver x =
     (if x = 0 \<or> ps_requested_amount ps < x then None
      else Some (TinyPay x,
        if x = ps_requested_amount ps then None
        else Some (TinySwap (ps\<lparr>ps_offered_amount :=
                     ps_offered_amount ps - calculate_output_amount (ps_offered_amount ps) (ps_requested_amount ps) x,
                   ps_requested_amount := ps_requested_amount ps - x\<rparr>))))"
| "tiny_execute (TinyPay _) solver x = None"

fun tiny_fungible :: "tiny_note \<Rightarrow> u64 list" where
  "tiny_fungible (TinySwap ps) = [ps_offered_amount ps]"
| "tiny_fungible (TinyPay x) = [x]"

definition tiny_proto :: "tiny_note protocol" where
  "tiny_proto = \<lparr>pr_read = tiny_read, pr_parse = tiny_parse, pr_asset = (\<lambda>_ _. True), pr_args = (\<lambda>_ x. Some [ucast x]),
     pr_execute = tiny_execute, pr_fungible = tiny_fungible, pr_recipient = (\<lambda>_. 0),
     pr_id_bytes = (\<lambda>i. replicate i 0 @ [1]), pr_build = (\<lambda>_. True)\<rparr>"

lemma tiny_proto_sel [simp]:
  "pr_read tiny_proto = tiny_read" "pr_parse tiny_proto = tiny_parse" "pr_asset tiny_proto t x"
  "pr_args tiny_proto y x = Some [ucast x]" "pr_execute tiny_proto = tiny_execute" "pr_fungible tiny_proto = tiny_fungible"
  "pr_id_bytes tiny_proto i = replicate i 0 @ [1]" "pr_build tiny_proto r"
  by (simp_all add: tiny_proto_def)

lemma tiny_ids_inj: "inj (pr_id_bytes tiny_proto)"
  by (auto simp: inj_def dest: arg_cong [of _ _ length])

lemma unat_u8_u64: "unat (ucast (x :: u8) :: u64) = unat x"
  using unat_lt_exp [of x] by (simp add: unsigned_ucast_eq take_bit_nat_eq_self)

lemma tiny_rebuildable:
  assumes "tiny_read raw = Some n" "\<exists>a b c d. raw = [a, b, c, d] \<and> b \<noteq> 0 \<and> d \<noteq> 0"
  shows "rebuildable tiny_proto (f, n)"
proof -
  have "ucast x \<noteq> (0 :: u64)" if "x \<noteq> 0" for x :: u8
    using that by (metis unat_u8_u64 unsigned_0 word_unat_eq_iff)
  with assms show ?thesis
    by (auto simp: rebuildable_def rebuild_ingest_order_def from_note_def)
qed

definition tiny_fill :: FilledNote where
  "tiny_fill = \<lparr>fn_note_id = 0, fn_requested_filled = 100, fn_raw_note_data = [1, 200, 2, 100], fn_arrival_unix = 0\<rparr>"

definition tiny_counter :: FilledNote where
  "tiny_counter = \<lparr>fn_note_id = 1, fn_requested_filled = 100, fn_raw_note_data = [2, 150, 1, 100], fn_arrival_unix = 1\<rparr>"

definition tiny_batch :: ExecutionBatch where
  "tiny_batch = \<lparr>filled_notes = [tiny_fill, tiny_counter]\<rparr>"

definition rpc_down_env :: exec_env where
  "rpc_down_env = \<lparr>e_submit = (\<lambda>_. Some RpcError), e_cancelled = (\<lambda>_. False), e_settling_write = True,
     e_executed_write = True, e_revert_write = True, e_classify_conn = True, e_nullify_write = True,
     e_reactivate_write = True, e_consumed = Some {}, e_order_tx = None\<rparr>"

lemma tiny_batch_flow: "batch_flow tiny_proto 9 (filled_notes tiny_batch) t = (if t = 1 then 100 else if t = 2 then 50 else 0)"
  by (simp add: batch_flow_def note_delta_def tiny_batch_def tiny_fill_def tiny_counter_def note_asset_amount_def
      split: if_splits)

theorem prepare_batch_exact_witness:
  "list_all (note_ready tiny_proto 9) (filled_notes tiny_batch)
   \<and> (\<exists>r. prepare_batch_components tiny_proto sorted_list_of_set 9 tiny_batch = Inr r)"
proof -
  have r: "\<forall>f \<in> set (filled_notes tiny_batch). note_ready tiny_proto 9 f"
    by code_simp
  have "\<forall>t. surplus_ok tiny_proto t (batch_flow tiny_proto 9 (filled_notes tiny_batch) t)"
    unfolding tiny_batch_flow by (simp add: surplus_ok_def)
  with r prepare_batch_exact [OF walks_sorted_list, of tiny_proto 9 tiny_batch] show ?thesis
    unfolding list_all_iff by blast
qed

definition tiny_db :: Db where
  "tiny_db = db_new\<lparr>t_orders := [[1] \<mapsto> sample_row]\<rparr>"


end
