(* ===== verification/Settlement_Safety.thy ===== *)
theory Settlement_Safety
  imports Matcher_Props Executor_Props
begin

text \<open>
  The matcher and the executor together. The matcher books fills in its own
  arithmetic; the executor recomputes the settlement from the notes. With
  triangular matching off the two agree: every batch a run of the matcher sends
  is one the executor can prepare. With triangular matching on a batch can be
  short of a token, and its orders are then in no book and are not handed back.
\<close>

section \<open>What is relied on\<close>

text \<open>
  The bytes of a note commit to its terms. The PSWAP contract: amounts of parsed
  notes and up to \<open>cap\<close> are amounts an asset can hold and a fill can carry; filling a
  note by a part of its request pays exactly that part and returns the rest of the
  offer, the released share being the offered amount times the fill over the request.
\<close>

definition note_bytes :: "'n protocol \<Rightarrow> (OrderId \<Rightarrow> order_terms) \<Rightarrow> OrderId \<Rightarrow> bytes \<Rightarrow> bool" where
  "note_bytes proto trm i raw \<longleftrightarrow>
     (\<exists>nt ps. pr_read proto raw = Some nt \<and> pr_parse proto nt = Some ps
        \<and> trm i = (ps_offered_faucet ps, ps_requested_faucet ps, ps_offered_amount ps, ps_requested_amount ps))"

definition pswap_contract :: "'n protocol \<Rightarrow> nat \<Rightarrow> nat \<Rightarrow> bool" where
  "pswap_contract proto solver cap \<longleftrightarrow>
     (\<forall>t x. unat x \<le> cap \<longrightarrow> pr_asset proto t x \<and> pr_args proto 0 x \<noteq> None)
   \<and> (\<forall>nt ps. pr_parse proto nt = Some ps \<longrightarrow> unat (ps_requested_amount ps) \<le> cap)
   \<and> (\<forall>nt ps x. pr_parse proto nt = Some ps \<longrightarrow> 0 < x \<longrightarrow> x \<le> ps_requested_amount ps \<longrightarrow>
        (\<exists>p2id rest. pr_execute proto nt solver x = Some (p2id, rest) \<and> note_asset_amount proto p2id = x
           \<and> (if x = ps_requested_amount ps then rest = None
              else \<exists>r. rest = Some r \<and> note_asset_amount proto r
                = ps_offered_amount ps - calculate_output_amount (ps_offered_amount ps) (ps_requested_amount ps) x)))"

lemma contract_asset: "pswap_contract proto solver cap \<Longrightarrow> unat x \<le> cap \<Longrightarrow> pr_asset proto t x \<and> pr_args proto 0 x \<noteq> None"
  unfolding pswap_contract_def by blast

lemma contract_fill:
  assumes "pswap_contract proto solver cap" "pr_parse proto nt = Some ps" "0 < x" "x \<le> ps_requested_amount ps"
  obtains p2id rest where "pr_execute proto nt solver x = Some (p2id, rest)" "note_asset_amount proto p2id = x"
    "if x = ps_requested_amount ps then rest = None
     else \<exists>r. rest = Some r \<and> note_asset_amount proto r
       = ps_offered_amount ps - calculate_output_amount (ps_offered_amount ps) (ps_requested_amount ps) x"
  using assms unfolding pswap_contract_def by blast

text \<open>What the notes \<open>I\<close> hold of a token in all.\<close>

definition held_supply :: "(OrderId \<Rightarrow> order_terms) \<Rightarrow> OrderId set \<Rightarrow> TokenId \<Rightarrow> nat" where
  "held_supply trm I t = (\<Sum>i \<in> I. if fst (trm i) = t then unat (fst (snd (snd (trm i)))) else 0)"

lemma held_supply_mono: "finite J \<Longrightarrow> I \<subseteq> J \<Longrightarrow> held_supply trm I t \<le> held_supply trm J t"
  unfolding held_supply_def by (rule sum_mono2) auto

section \<open>One filled note\<close>

lemma filled_note_settles:
  assumes con: "pswap_contract proto solver cap" and bts: "note_bytes proto trm i raw"
    and ord: "wf_order ord" "terms_of ord = trm i" "requested_remaining ord < requested ord"
    and f: "fn_raw_note_data f = raw" "fn_requested_filled f = requested_filled ord"
  shows "note_ready proto solver f" and "note_delta proto solver f t = contribution ord t"
proof -
  obtain nt ps where n: "pr_read proto raw = Some nt" "pr_parse proto nt = Some ps"
      "ps_offered_faucet ps = offered_token ord" "ps_requested_faucet ps = requested_token ord"
      "ps_offered_amount ps = offered ord" "ps_requested_amount ps = requested ord"
    using bts ord(2) unfolding note_bytes_def terms_of_def by auto
  let ?x = "requested_filled ord"
  have x: "unat ?x = unat (requested ord) - unat (requested_remaining ord)"
    by (rule requested_filled_nat [OF ord(1)])
  have pos: "0 < ?x" and le: "?x \<le> requested ord"
    using x ord(3) by (simp_all add: word_less_nat_alt word_le_nat_alt)
  have cap: "unat ?x \<le> cap"
    using con n(2) le unfolding pswap_contract_def n(6) [symmetric] word_le_nat_alt by (meson le_trans)
  obtain p2id rest where e: "pr_execute proto nt solver ?x = Some (p2id, rest)" "note_asset_amount proto p2id = ?x"
    "if ?x = requested ord then rest = None
     else \<exists>r. rest = Some r \<and> note_asset_amount proto r = offered ord - offered_for ord ?x"
    using contract_fill [OF con n(2) pos] le unfolding n(5,6) offered_for_def by blast
  show "note_ready proto solver f"
    using n e(1) contract_asset [OF con cap] by (simp add: note_ready_def f)
  have "unat (offered ord - offered_for ord ?x) = unat (offered ord) - unat (offered_for ord ?x)"
    by (rule unat_sub_le) (rule offered_for_le_offered [OF le])
  moreover have "unat (offered_for ord ?x) \<le> unat (offered ord)"
    using offered_for_le_offered [OF le] by (simp add: word_le_nat_alt)
  moreover have "offered_for ord ?x = offered ord" if "?x = requested ord"
    using that ord(1) by (simp add: wf_order_def)
  ultimately have "int (unat (offered ord)) - (case rest of None \<Rightarrow> 0 | Some r \<Rightarrow> int (unat (note_asset_amount proto r)))
      = int (unat (offered_for ord ?x))"
    using e(3) by (cases "?x = requested ord") auto
  with n e(1,2) show "note_delta proto solver f t = contribution ord t"
    by (simp add: note_delta_def contribution_def f)
qed

lemma contribution_le_supply:
  assumes "wf_order ord" "terms_of ord = trm i"
  shows "contribution ord t \<le> int (if fst (trm i) = t then unat (fst (snd (snd (trm i)))) else 0)"
proof -
  have "requested_filled ord \<le> requested ord"
    using requested_filled_nat [OF assms(1)] by (simp add: word_le_nat_alt)
  then have "unat (offered_for ord (requested_filled ord)) \<le> unat (offered ord)"
    using offered_for_le_offered word_le_nat_alt by blast
  with assms(2) [symmetric] show ?thesis
    by (auto simp: contribution_def terms_of_def)
qed

section \<open>One batch\<close>

text \<open>The batch of a tick, as the executor sees it: the flow it recomputes is the flow of the matched book.\<close>

lemma sent_batch_prepared:
  assumes con: "pswap_contract proto solver cap" and wk: "walks order"
    and inv: "matcher_inv trm (note_bytes proto trm) st" and off: "\<not> triangular_enabled (m_engine st)"
    and env: "env_ok env"
    and sup: "\<forall>t. held_supply trm (dom (orders (book (m_engine st)))) t \<le> cap" and cap: "cap < 2 ^ 64"
    and im: "internal_match env clock px opened st = Some (False, Some batch, st')"
  shows "\<exists>r. prepare_batch_components proto order solver batch = Inr r"
proof (cases rule: internal_match_result [OF env inv, of clock px opened])
  case (3 st3 bk2 ids)
  let ?bk = "book (m_engine st)" and ?fn = "\<lambda>i. \<lparr>fn_note_id = i, fn_requested_filled = requested_filled (the (orders bk2 i)),
      fn_raw_note_data = the (raw_notes st i), fn_arrival_unix = (case arrivals st i of None \<Rightarrow> clock i | Some t \<Rightarrow> t)\<rparr>"
  have b: "filled_notes batch = map ?fn ids"
    using im 3(2) by auto
  have rel: "book_rel {p. priced px p} (?bk\<lparr>feed := px\<rparr>) {} bk2 (set ids)"
    by (rule 3(10))
  have dom: "set ids \<subseteq> dom (orders ?bk)" "dom (orders bk2) = dom (orders ?bk)"
    using rel by (simp_all add: book_rel_def)
  have fin: "finite (dom (orders bk2))"
    using store_okD(1) [OF wf_bookD(1) [OF 3(5)]] .
  have ord2: "\<exists>ord'. orders bk2 i = Some ord' \<and> wf_order ord' \<and> terms_of ord' = trm i
      \<and> (i \<in> set ids \<longrightarrow> requested_remaining ord' < requested ord')
      \<and> (i \<notin> set ids \<longrightarrow> requested_remaining ord' = requested ord')" if i: "orders ?bk i = Some ord" for i ord
  proof -
    have "order_rel {p. priced px p} {} (set ids) i ord (orders bk2 i)"
      using rel i by (simp add: book_rel_def)
    then obtain x where x: "orders bk2 i = Some (ord\<lparr>requested_remaining := x\<rparr>)"
        "x \<noteq> requested_remaining ord \<longrightarrow> i \<in> set ids" "i \<in> set ids \<longrightarrow> x < requested_remaining ord"
      by (auto simp: order_rel_def)
    moreover have "trm i = terms_of ord" "requested_remaining ord = requested ord"
      using inv i unfolding matcher_inv_def notes_known_def fresh_book_def by blast+
    moreover have "wf_order (ord\<lparr>requested_remaining := x\<rparr>)"
      using store_okD(5) [OF wf_bookD(1) [OF 3(5)] x(1)] .
    ultimately show ?thesis
      by (auto simp: terms_of_def)
  qed
  have settle: "note_ready proto solver (?fn i)" "note_delta proto solver (?fn i) t = contribution (the (orders bk2 i)) t"
    if i: "i \<in> set ids" for i t
  proof -
    obtain ord where o: "orders ?bk i = Some ord"
      using i dom(1) by blast
    obtain ord' where o': "orders bk2 i = Some ord'" "wf_order ord'" "terms_of ord' = trm i" "requested_remaining ord' < requested ord'"
      using ord2 [OF o] i by blast
    have "raw_notes st i \<noteq> None" "\<And>raw. raw_notes st i = Some raw \<Longrightarrow> note_bytes proto trm i raw"
      using inv o unfolding matcher_inv_def notes_known_def by blast+
    then have raw: "note_bytes proto trm i (the (raw_notes st i))"
      by auto
    show "note_ready proto solver (?fn i)" "note_delta proto solver (?fn i) t = contribution (the (orders bk2 i)) t"
      using filled_note_settles [OF con raw o'(2-4), of "?fn i"] by (simp_all add: o'(1))
  qed
  have flow: "batch_flow proto solver (filled_notes batch) t = net_flow bk2 t" for t
  proof -
    have "batch_flow proto solver (filled_notes batch) t = (\<Sum>i \<leftarrow> ids. contribution (the (orders bk2 i)) t)"
      unfolding batch_flow_def b by (simp add: comp_def settle cong: map_cong)
    also have "\<dots> = (\<Sum>i \<in> set ids. contribution (the (orders bk2 i)) t)"
      by (rule sum_list_distinct_conv_sum_set [OF 3(6)])
    also have "\<dots> = net_flow bk2 t"
      unfolding net_flow_def
    proof (rule sum.mono_neutral_left [OF fin])
      show "set ids \<subseteq> dom (orders bk2)"
        using dom by simp
      show "\<forall>i \<in> dom (orders bk2) - set ids. contribution (the (orders bk2 i)) t = 0"
      proof
        fix i
        assume i: "i \<in> dom (orders bk2) - set ids"
        then obtain ord where "orders ?bk i = Some ord"
          using dom(2) by blast
        from ord2 [OF this] i have "requested_filled (the (orders bk2 i)) = 0"
          by (auto simp: requested_filled_def)
        then show "contribution (the (orders bk2 i)) t = 0"
          by (simp add: contribution_def)
      qed
    qed
    finally show ?thesis .
  qed
  have upper: "net_flow bk2 t \<le> int cap" for t
  proof -
    have "net_flow bk2 t \<le> (\<Sum>i \<in> dom (orders bk2). int (if fst (trm i) = t then unat (fst (snd (snd (trm i)))) else 0))"
      unfolding net_flow_def
    proof (rule sum_mono)
      fix i
      assume "i \<in> dom (orders bk2)"
      then obtain ord where "orders ?bk i = Some ord"
        using dom(2) by blast
      then obtain ord' where "orders bk2 i = Some ord'" "wf_order ord'" "terms_of ord' = trm i"
        using ord2 by blast
      then show "contribution (the (orders bk2 i)) t \<le> int (if fst (trm i) = t then unat (fst (snd (snd (trm i)))) else 0)"
        using contribution_le_supply [of ord' trm i t] by simp
    qed
    also have "\<dots> = int (held_supply trm (dom (orders ?bk)) t)"
      unfolding held_supply_def dom(2) of_nat_sum ..
    also have "\<dots> \<le> int cap"
      using sup by simp
    finally show ?thesis .
  qed
  have lower: "0 \<le> net_flow bk2 t" for t
    using 3(11) [OF off] by (meson of_nat_0_le_iff order_trans solvent_def)
  have "surplus_ok proto t (batch_flow proto solver (filled_notes batch) t)" for t
  proof -
    have "unat (word_of_int (net_flow bk2 t) :: u64) = nat (net_flow bk2 t)"
      using upper [of t] lower [of t] cap by (simp add: unsigned_of_int take_bit_int_eq_self)
    then have "pr_asset proto t (word_of_int (net_flow bk2 t))"
      using contract_asset [OF con] upper [of t] lower [of t] by simp
    with upper [of t] lower [of t] cap show ?thesis
      by (simp add: surplus_ok_def flow)
  qed
  moreover have "\<forall>f \<in> set (filled_notes batch). note_ready proto solver f"
    unfolding b using settle(1) by simp
  ultimately show ?thesis
    unfolding prepare_batch_iff [OF wk] by blast
qed (use im in simp_all)

section \<open>A whole run\<close>

definition loaded_orders :: "db_error option + IngestOrder list \<Rightarrow> IngestOrder list" where
  "loaded_orders loaded = (case loaded of Inl _ \<Rightarrow> [] | Inr os \<Rightarrow> os)"

definition fed_orders :: "(walk_env \<times> tick_input) list \<Rightarrow> IngestOrder list" where
  "fed_orders ts = concat (map (\<lambda>(_, inp). ti_orders inp) ts)"

definition batches_prepared :: "'n protocol \<Rightarrow> (TokenId set \<Rightarrow> TokenId list) \<Rightarrow> nat \<Rightarrow> tick_output list \<Rightarrow> bool" where
  "batches_prepared proto order solver outs \<longleftrightarrow>
     (\<forall>out \<in> set outs. \<forall>batch. to_batch out = Some batch \<longrightarrow>
        (\<exists>r. prepare_batch_components proto order solver batch = Inr r))"

lemma run_ticks_prepared:
  assumes con: "pswap_contract proto solver cap" "cap < 2 ^ 64" and wk: "walks order"
    and ticks: "\<forall>(env, inp) \<in> set ts. env_ok env \<and> finite (dom (ti_quotes inp))"
    and ing: "\<forall>o1 \<in> set (fed_orders ts). ingest_ok trm (note_bytes proto trm) o1"
    and inv: "matcher_inv trm (note_bytes proto trm) st" and off: "\<not> triangular_enabled (m_engine st)"
    and K: "finite K" "dom (orders (book (m_engine st))) \<subseteq> K" "io_note_id ` set (fed_orders ts) \<subseteq> K"
    and sup: "\<forall>t. held_supply trm K t \<le> cap"
    and size: "card (dom (orders (book (m_engine st)))) + length (fed_orders ts) < 2 ^ 32"
  shows "\<exists>outs st'. run_ticks ts st = Some (outs, st') \<and> batches_prepared proto order solver outs"
  using ticks ing inv off K(2,3) size
proof (induction ts arbitrary: st)
  case Nil
  then show ?case
    by (simp add: batches_prepared_def)
next
  case (Cons tick ts)
  obtain env inp where t: "tick = (env, inp)" by fastforce
  have env: "env_ok env" and fq: "finite (dom (ti_quotes inp))"
    using Cons.prems(1) by (simp_all add: t)
  have fed: "fed_orders (tick # ts) = ti_orders inp @ fed_orders ts"
    by (simp add: fed_orders_def t)
  have ok: "tick_ok trm (note_bytes proto trm) inp st"
    using Cons.prems(2,7) fq by (simp add: tick_ok_def fed)
  note inv = Cons.prems(3)
  have fin: "finite (dom (orders (book (m_engine st))))"
    using inv store_okD(1) [OF wf_bookD(1)] by (simp add: matcher_inv_def)
  show ?case
  proof (cases rule: matcher_tick_result [OF env inv ok])
    case (1 out st')
    then show ?thesis
      by (simp add: t batches_prepared_def)
  next
    case (2 out st' st3)
    let ?S = "synced inp st"
    have dS: "dom (orders (book (m_engine ?S))) \<subseteq> K"
      using synced_frame(1) [of inp st] Cons.prems(5,6) by (simp add: fed) blast
    have supS: "\<forall>t. held_supply trm (dom (orders (book (m_engine ?S)))) t \<le> cap"
      using sup held_supply_mono [OF K(1) dS] le_trans by blast
    have offS: "\<not> triangular_enabled (m_engine ?S)"
      using Cons.prems(4) by (simp add: synced_frame)
    have prep: "\<exists>r. prepare_batch_components proto order solver batch = Inr r" if "to_batch out = Some batch" for batch
      using sent_batch_prepared [OF con(1) wk matcher_inv_synced [OF inv ok] offS env supS con(2)] 2(5) that by simp
    have d': "dom (orders (book (m_engine st'))) \<subseteq> dom (orders (book (m_engine st))) \<union> io_note_id ` set (ti_orders inp)"
      using 2(6) synced_frame(1) [of inp st] by blast
    have "card (dom (orders (book (m_engine st')))) \<le> card (dom (orders (book (m_engine st))) \<union> io_note_id ` set (ti_orders inp))"
      by (rule card_mono [OF _ d']) (use fin in simp)
    also have "\<dots> \<le> card (dom (orders (book (m_engine st)))) + card (io_note_id ` set (ti_orders inp))"
      by (rule card_Un_le)
    also have "card (io_note_id ` set (ti_orders inp)) \<le> length (ti_orders inp)"
      using card_image_le [of "set (ti_orders inp)" io_note_id] card_length [of "ti_orders inp"] by simp
    finally have size': "card (dom (orders (book (m_engine st')))) + length (fed_orders ts) < 2 ^ 32"
      using Cons.prems(7) by (simp add: fed)
    have "\<exists>outs st''. run_ticks ts st' = Some (outs, st'') \<and> batches_prepared proto order solver outs"
    proof (rule Cons.IH [OF _ _ 2(3) _ _ _ size'])
      show "dom (orders (book (m_engine st'))) \<subseteq> K"
        using dS 2(6) by blast
    qed (use Cons.prems 2(7) in \<open>simp_all add: fed image_Un\<close>)
    then obtain outs st'' where "run_ticks ts st' = Some (outs, st'')" "batches_prepared proto order solver outs"
      by blast
    with 2(1,2) prep show ?thesis
      by (auto simp: t batches_prepared_def)
  qed
qed

lemma run_matcher_prepared:
  assumes con: "pswap_contract proto solver cap" "cap < 2 ^ 64" and wk: "walks order"
    and ticks: "\<forall>(env, inp) \<in> set ts. env_ok env \<and> finite (dom (ti_quotes inp))"
    and ing: "\<forall>o1 \<in> set (loaded_orders loaded @ fed_orders ts). ingest_ok trm (note_bytes proto trm) o1"
    and sup: "\<forall>t. held_supply trm (io_note_id ` set (loaded_orders loaded @ fed_orders ts)) t \<le> cap"
    and size: "length (loaded_orders loaded @ fed_orders ts) < 2 ^ 32"
  shows "\<exists>outs st. run_matcher px False hooks clock loaded ts = Some (outs, st) \<and> batches_prepared proto order solver outs"
proof -
  let ?st = "matcher_start px False hooks clock loaded"
  let ?K = "io_note_id ` set (loaded_orders loaded @ fed_orders ts)"
  have l: "\<forall>os. loaded = Inr os \<longrightarrow> (\<forall>o1 \<in> set os. ingest_ok trm (note_bytes proto trm) o1) \<and> length os < 2 ^ 32"
    using ing size by (auto simp: loaded_orders_def)
  note st = matcher_start_result [OF l, of px False hooks clock]
  have d: "dom (orders (book (m_engine ?st))) \<subseteq> io_note_id ` set (loaded_orders loaded)"
    using st(2) by (cases loaded) (simp_all add: loaded_orders_def)
  have "card (dom (orders (book (m_engine ?st)))) \<le> card (io_note_id ` set (loaded_orders loaded))"
    by (rule card_mono [OF _ d]) simp
  also have "\<dots> \<le> length (loaded_orders loaded)"
    using card_image_le [of "set (loaded_orders loaded)" io_note_id] card_length [of "loaded_orders loaded"] by simp
  finally have size': "card (dom (orders (book (m_engine ?st)))) + length (fed_orders ts) < 2 ^ 32"
    using size by simp
  show ?thesis
    unfolding run_matcher_def
    by (rule run_ticks_prepared [OF con wk ticks _ st(1) _ _ _ _ sup size']) (use ing d st(3) in auto)
qed

text \<open>
  C1: with triangular matching off, the executor never has to refuse a batch. Start the
  matcher on any set of loaded orders and run it for any number of ticks, with any
  arrivals, cancellations, prices, quotes and channel states: the run returns, and
  every batch it sends passes the executor's preparation, solvency check included,
  provided the notes carry the terms their ids commit to, the notes of one token hold
  no more than an asset can, and the protocol fills notes by the PSWAP formula.
\<close>

theorem direct_run_settles:
  assumes "pswap_contract proto solver cap" "cap < 2 ^ 64" "walks order"
    and "\<forall>(env, inp) \<in> set ts. env_ok env \<and> finite (dom (ti_quotes inp))"
    and "\<forall>o1 \<in> set (loaded_orders loaded @ fed_orders ts). ingest_ok trm (note_bytes proto trm) o1"
    and "\<forall>t. held_supply trm (io_note_id ` set (loaded_orders loaded @ fed_orders ts)) t \<le> cap"
    and "length (loaded_orders loaded @ fed_orders ts) < 2 ^ 32"
  shows "\<exists>outs st. run_matcher px False hooks clock loaded ts = Some (outs, st)
    \<and> (\<forall>out \<in> set outs. \<forall>batch. to_batch out = Some batch \<longrightarrow>
         (\<exists>r. prepare_batch_components proto order solver batch = Inr r))"
  using run_matcher_prepared [OF assms] unfolding batches_prepared_def .

lemma tick_sends:
  assumes run: "engine_run env (m_engine (on_book (\<lambda>bk. bk\<lparr>feed := price_cents (from_watch (ti_prices inp))\<rparr>) (synced inp st)))
      = Some (b, (m_engine (synced inp st))\<lparr>book := bk2\<rparr>)"
    and ne: "orders (book (m_engine (synced inp st))) i \<noteq> None" "filled_orders b \<noteq> {}" "ti_exec_open inp"
    and fn: "List.map_filter (filled_note_of (ti_now_unix inp) ((synced inp st)\<lparr>m_engine := (m_engine (synced inp st))\<lparr>book := bk2\<rparr>\<rparr>))
      (we_orders env (filled_orders b)) = filled_notes batch"
  shows "\<exists>out st'. matcher_tick env inp st = Some (out, st') \<and> to_batch out = Some batch \<and> \<not> to_stop out
    \<and> (router (synced inp st) = None \<longrightarrow> (\<forall>i \<in> set (we_orders env (filled_orders b)). orders (book (m_engine st')) i = None))"
proof -
  let ?S = "synced inp st" and ?ids = "we_orders env (filled_orders b)"
  let ?st1 = "on_book (\<lambda>bk. bk\<lparr>feed := price_cents (from_watch (ti_prices inp))\<rparr>) ?S"
  let ?st2 = "?st1\<lparr>m_engine := (m_engine ?S)\<lparr>book := bk2\<rparr>\<rparr>"
  let ?st3 = "on_book clear_protocol_balances (fold drain_consumed ?ids ?st2)"
  have st2: "?st2 = ?S\<lparr>m_engine := (m_engine ?S)\<lparr>book := bk2\<rparr>\<rparr>"
    by (simp add: on_book_def)
  have "dom (orders (book (m_engine ?S))) \<noteq> {}"
    using ne(1) by blast
  then have im: "internal_match env (ti_now_unix inp) (ti_prices inp) (ti_exec_open inp) ?S = Some (False, Some batch, ?st3)"
    using run ne(2,3) fn by (simp add: internal_match_def Let_def st2)
  obtain out st' where o: "matcher_tick env inp st = Some (out, st')" "to_batch out = Some batch" "\<not> to_stop out"
    using matcher_tick_unfold [OF im [unfolded synced_def]] by blast
  have "st' = ?st3" if "router ?S = None"
  proof -
    have "router ?st3 = None"
      using that by (simp add: fold_drain_consumed)
    with im o(1) show ?thesis
      unfolding synced_def by (simp add: matcher_tick_def Let_def)
  qed
  moreover have "\<forall>i \<in> set ?ids. orders (book (m_engine ?st3)) i = None"
    by (simp add: fold_drain_consumed fold_remove_order clear_protocol_balances_def)
  ultimately show ?thesis
    using o by auto
qed

lemma tiny_contract: "pswap_contract tiny_proto 9 (2 ^ 64 - 1)"
proof -
  have "unat (x :: u64) \<le> 2 ^ 64 - 1" for x
    using unat_u64_lt [of x] by simp
  moreover have "\<exists>p2id rest. tiny_execute nt 9 x = Some (p2id, rest) \<and> note_asset_amount tiny_proto p2id = x
      \<and> (if x = ps_requested_amount ps then rest = None
         else \<exists>r. rest = Some r \<and> note_asset_amount tiny_proto r
           = ps_offered_amount ps - calculate_output_amount (ps_offered_amount ps) (ps_requested_amount ps) x)"
    if "tiny_parse nt = Some ps" "0 < x" "x \<le> ps_requested_amount ps" for nt ps x
    using that by (cases nt) (auto simp: note_asset_amount_def)
  ultimately show ?thesis
    unfolding pswap_contract_def by simp
qed

lemma sample_ingest_bytes: "\<forall>o1 \<in> set sample_ingest. ingest_ok sample_terms (note_bytes tiny_proto sample_terms) o1"
  by (rule sample_ingest_ok) (auto simp: sample_ingest_def note_bytes_def sample_terms_def)

lemma sample_run_sends:
  "\<exists>out st'. run_matcher sample_prices False (Some sample_hooks) (\<lambda>_. 0) (Inr [hd sample_ingest]) [(sample_env, sample_tick)]
     = Some ([out], st') \<and> to_batch out = Some tiny_batch"
proof -
  let ?S = "synced sample_tick sample_matcher"
  let ?E = "m_engine (on_book (\<lambda>bk. bk\<lparr>feed := price_cents (from_watch sample_prices)\<rparr>) ?S)"
  have "(case run_direct_matching (we_pairs sample_env) (book ?E) {} of None \<Rightarrow> False
     | Some (bk1, F1, c1) \<Rightarrow> F1 = {0, 1} \<and> map (\<lambda>i. map_option requested_filled (orders bk1 i)) [0, 1] = [Some 100, Some 100])"
    by code_simp
  moreover have "\<not> triangular_enabled (m_engine ?S)"
    by code_simp
  ultimately obtain bk2 b where r: "engine_run sample_env ?E = Some (b, (m_engine ?S)\<lparr>book := bk2\<rparr>)" "filled_orders b = {0, 1}"
      "map (\<lambda>i. map_option requested_filled (orders bk2 i)) [0, 1] = [Some 100, Some 100]"
    by (auto simp: engine_run_def on_book_def split: option.splits prod.splits)
  have raw: "raw_notes ?S 0 = Some [1, 200, 2, 100]" "raw_notes ?S 1 = Some [2, 150, 1, 100]"
    "arrivals ?S 0 = Some 0" "arrivals ?S 1 = Some 1" and ne: "orders (book (m_engine ?S)) 0 \<noteq> None"
    by code_simp+
  have ids: "we_orders sample_env (filled_orders b) = [0, 1]"
    unfolding r(2) by code_simp
  have fn: "List.map_filter (filled_note_of (ti_now_unix sample_tick) (?S\<lparr>m_engine := (m_engine ?S)\<lparr>book := bk2\<rparr>\<rparr>))
      (we_orders sample_env (filled_orders b)) = filled_notes tiny_batch"
    unfolding ids using r(3) raw
    by (auto simp: List.map_filter_def filled_note_of_def tiny_batch_def tiny_fill_def tiny_counter_def)
  have px: "ti_prices sample_tick = sample_prices" "ti_exec_open sample_tick" "filled_orders b \<noteq> {}"
    by (simp_all add: sample_tick_def r(2))
  obtain out st' where "matcher_tick sample_env sample_tick sample_matcher = Some (out, st')" "to_batch out = Some tiny_batch" "\<not> to_stop out"
    using tick_sends [OF _ ne px(3,2) fn] r(1) unfolding px(1) by blast
  then show ?thesis
    by (simp add: run_matcher_def sample_matcher_def)
qed

theorem direct_run_settles_witness:
  "\<exists>out st r. run_matcher sample_prices False (Some sample_hooks) (\<lambda>_. 0) (Inr [hd sample_ingest]) [(sample_env, sample_tick)]
      = Some ([out], st) \<and> to_batch out = Some tiny_batch
    \<and> prepare_batch_components tiny_proto sorted_list_of_set 9 tiny_batch = Inr r"
proof -
  have all: "loaded_orders (Inr [hd sample_ingest]) @ fed_orders [(sample_env, sample_tick)] = sample_ingest"
    by (simp add: loaded_orders_def fed_orders_def sample_tick_def sample_ingest_def)
  have "\<forall>t. held_supply sample_terms (io_note_id ` set sample_ingest) t \<le> 2 ^ 64 - 1"
    by (simp add: held_supply_def sample_ingest_def sample_terms_def)
  then have "\<exists>outs st. run_matcher sample_prices False (Some sample_hooks) (\<lambda>_. 0) (Inr [hd sample_ingest]) [(sample_env, sample_tick)]
      = Some (outs, st) \<and> (\<forall>out \<in> set outs. \<forall>batch. to_batch out = Some batch \<longrightarrow>
         (\<exists>r. prepare_batch_components tiny_proto sorted_list_of_set 9 batch = Inr r))"
    by (intro direct_run_settles [OF tiny_contract _ walks_sorted_list, unfolded all [symmetric]])
      (use all sample_ingest_bytes sample_env_ok in \<open>simp_all add: sample_tick_def sample_ingest_def\<close>)
  with sample_run_sends show ?thesis
    by auto
qed

section \<open>Triangular batches\<close>

definition short_ingest :: "IngestOrder list" where
  "short_ingest =
     [\<lparr>io_note_id = 1, io_offered_token = 1, io_requested_token = 2, io_offered_amount = 200, io_requested_amount = 100,
       io_raw_note_data = [1, 200, 2, 100]\<rparr>,
      \<lparr>io_note_id = 2, io_offered_token = 2, io_requested_token = 3, io_offered_amount = 60, io_requested_amount = 100,
       io_raw_note_data = [2, 60, 3, 100]\<rparr>,
      \<lparr>io_note_id = 3, io_offered_token = 3, io_requested_token = 1, io_offered_amount = 100, io_requested_amount = 100,
       io_raw_note_data = [3, 100, 1, 100]\<rparr>]"

definition short_matcher :: matcher_state where
  "short_matcher = matcher_start sample_feed True None (\<lambda>_. 0) (Inr short_ingest)"

definition idle_tick :: tick_input where
  "idle_tick = \<lparr>ti_now_millis = 7, ti_now_unix = (\<lambda>_. 1), ti_consumed = [], ti_orders = [],
     ti_prices = sample_feed, ti_exec_open = True, ti_quotes = Map.empty, ti_route = Sent\<rparr>"

definition short_batch :: ExecutionBatch where
  "short_batch = \<lparr>filled_notes = map (\<lambda>(i, raw). \<lparr>fn_note_id = i, fn_requested_filled = 100, fn_raw_note_data = raw, fn_arrival_unix = 0\<rparr>)
     [(1, [1, 200, 2, 100]), (2, [2, 60, 3, 100]), (3, [3, 100, 1, 100])]\<rparr>"

lemma short_engine_run:
  "\<exists>bk2 b. engine_run sample_env (m_engine (on_book (\<lambda>bk. bk\<lparr>feed := price_cents (from_watch sample_feed)\<rparr>) (synced idle_tick short_matcher)))
      = Some (b, (m_engine (synced idle_tick short_matcher))\<lparr>book := bk2\<rparr>)
    \<and> filled_orders b = {1, 2, 3}
    \<and> map (\<lambda>i. map_option requested_filled (orders bk2 i)) [1, 2, 3] = [Some 100, Some 100, Some 100]"
proof -
  let ?bk = "book (m_engine (on_book (\<lambda>bk. bk\<lparr>feed := price_cents (from_watch sample_feed)\<rparr>) (synced idle_tick short_matcher)))"
  have "(case run_direct_matching (we_pairs sample_env) ?bk {} of None \<Rightarrow> False
     | Some (bk1, F1, c1) \<Rightarrow>
        (case run_three_edge_cycle (we_pop sample_env) (we_tokens sample_env) (we_triangles sample_env) bk1 F1 of None \<Rightarrow> False
         | Some (bk2, F2, c2) \<Rightarrow> F2 = {1, 2, 3} \<and> map (\<lambda>i. map_option requested_filled (orders bk2 i)) [1, 2, 3] = [Some 100, Some 100, Some 100]))"
    by code_simp
  moreover have "triangular_enabled (m_engine (synced idle_tick short_matcher))"
    by code_simp
  ultimately show ?thesis
    by (auto simp: engine_run_def on_book_def split: option.splits prod.splits)
qed

lemma short_tick:
  "\<exists>out st'. matcher_tick sample_env idle_tick short_matcher = Some (out, st')
     \<and> to_batch out = Some short_batch \<and> map (orders (book (m_engine st'))) [1, 2, 3] = [None, None, None]"
proof -
  let ?S = "synced idle_tick short_matcher"
  obtain bk2 b where r: "engine_run sample_env (m_engine (on_book (\<lambda>bk. bk\<lparr>feed := price_cents (from_watch sample_feed)\<rparr>) ?S))
        = Some (b, (m_engine ?S)\<lparr>book := bk2\<rparr>)"
      "filled_orders b = {1, 2, 3}"
      "map (\<lambda>i. map_option requested_filled (orders bk2 i)) [1, 2, 3] = [Some 100, Some 100, Some 100]"
    using short_engine_run by (elim exE conjE) (rule that)
  have raw: "raw_notes ?S 1 = Some [1, 200, 2, 100]" "raw_notes ?S 2 = Some [2, 60, 3, 100]" "raw_notes ?S 3 = Some [3, 100, 1, 100]"
    "arrivals ?S 1 = Some 0" "arrivals ?S 2 = Some 0" "arrivals ?S 3 = Some 0"
    by code_simp+
  have rt: "router ?S = None" and ne: "orders (book (m_engine ?S)) 1 \<noteq> None"
    by code_simp+
  have ids: "we_orders sample_env (filled_orders b) = [1, 2, 3]"
    unfolding r(2) by code_simp
  have fn: "List.map_filter (filled_note_of (ti_now_unix idle_tick) (?S\<lparr>m_engine := (m_engine ?S)\<lparr>book := bk2\<rparr>\<rparr>))
      (we_orders sample_env (filled_orders b)) = filled_notes short_batch"
    unfolding ids using r(3) raw by (auto simp: List.map_filter_def filled_note_of_def short_batch_def)
  have px: "ti_prices idle_tick = sample_feed" "ti_exec_open idle_tick" "filled_orders b \<noteq> {}"
    by (simp_all add: idle_tick_def r(2))
  obtain out st' where "matcher_tick sample_env idle_tick short_matcher = Some (out, st')" "to_batch out = Some short_batch"
      "\<forall>i \<in> set [1, 2, 3]. orders (book (m_engine st')) i = None"
    using tick_sends [OF _ ne px(3,2) fn] r(1) rt unfolding px(1) ids by blast
  then show ?thesis
    by simp
qed

lemma short_batch_flow: "batch_flow tiny_proto 9 (filled_notes short_batch) 2 = - 40"
  by (simp add: batch_flow_def note_delta_def short_batch_def note_asset_amount_def)

text \<open>
  C13: with triangular matching on, the matcher can send a batch that strands its orders.
  On three fresh orders it sends a batch filling all of them in which token 2 is 40
  short, and removes them from its book. The executor refuses the batch, whatever
  the state of the network and the store, leaves every status as it was, and hands
  nothing back: the orders stay active in the store and are in no book.
\<close>

theorem triangular_batch_strands:
  "\<exists>out st'. matcher_tick sample_env idle_tick short_matcher = Some (out, st') \<and> to_batch out = Some short_batch
     \<and> map fn_note_id (filled_notes short_batch) = [1, 2, 3]
     \<and> map (orders (book (m_engine st'))) [1, 2, 3] = [None, None, None]
     \<and> batch_flow tiny_proto 9 (filled_notes short_batch) 2 = - 40
     \<and> (\<forall>env db. \<exists>e. execute_batch tiny_proto sorted_list_of_set 9 env short_batch db = Some (Inl (PrepareFailed e), db, []))"
proof -
  have "\<not> surplus_ok tiny_proto 2 (batch_flow tiny_proto 9 (filled_notes short_batch) 2)"
    by (simp add: short_batch_flow surplus_ok_def)
  then have "\<nexists>r. prepare_batch_components tiny_proto sorted_list_of_set 9 short_batch = Inr r"
    unfolding prepare_batch_iff [OF walks_sorted_list] by blast
  then obtain e where "prepare_batch_components tiny_proto sorted_list_of_set 9 short_batch = Inl e"
    by (metis sum.exhaust)
  then have "\<forall>env db. \<exists>e. execute_batch tiny_proto sorted_list_of_set 9 env short_batch db = Some (Inl (PrepareFailed e), db, [])"
    by (simp add: execute_batch_def)
  moreover have "map fn_note_id (filled_notes short_batch) = [1, 2, 3]"
    by (simp add: short_batch_def)
  ultimately show ?thesis
    using short_tick short_batch_flow by (elim exE conjE) (intro exI conjI)
qed

end
