(* ===== verification/Protocol.thy ===== *)
theory Protocol
  imports Solver_Prelude
begin

text \<open>
  The wire protocol between the router and the external exchanges,
  \<open>lp-sdk/src/protocol.rs\<close>. Account ids, assets, notes, integers, strings and the
  generic option and vector formats are serialized by the protocol crates: their
  codecs are the record \<open>wire\<close>, and \<open>lawful_wire\<close> says that each of them reads back
  what it wrote and leaves the rest.
\<close>

section \<open>Codecs\<close>

record 'a codec =
  enc :: "'a \<Rightarrow> bytes"
  dec :: "bytes \<Rightarrow> ('a \<times> bytes) option"

definition lawful :: "'a codec \<Rightarrow> bool" where
  "lawful c \<longleftrightarrow> (\<forall>a rest. dec c (enc c a @ rest) = Some (a, rest))"

lemma lawfulD [simp]: "lawful c \<Longrightarrow> dec c (enc c a @ rest) = Some (a, rest)"
  by (simp add: lawful_def)

text \<open>\<open>read_from_bytes\<close> reads one value from the front of the buffer.\<close>

definition read_from_bytes :: "'a codec \<Rightarrow> bytes \<Rightarrow> 'a option" where
  "read_from_bytes c bs = map_option fst (dec c bs)"

definition read_u8 :: "bytes \<Rightarrow> (u8 \<times> bytes) option" where
  "read_u8 bs = (case bs of [] \<Rightarrow> None | b # rest \<Rightarrow> Some (b, rest))"

lemma read_u8_Cons [simp]: "read_u8 (b # rest) = Some (b, rest)"
  by (simp add: read_u8_def)

text \<open>A fungible asset, as far as the router looks into it.\<close>

record FungibleAsset =
  faucet_id :: TokenId
  asset_amount :: Amount

record PairSpec =
  ps_offered :: TokenId
  ps_requested :: TokenId

record 'n wire =
  w_account :: "TokenId codec"
  w_asset :: "FungibleAsset codec"
  w_opt_u64 :: "u64 option codec"
  w_u64 :: "u64 codec"
  w_string :: "string codec"
  w_note :: "'n codec"
  w_vec :: "PairSpec codec \<Rightarrow> PairSpec list codec"

definition lawful_wire :: "'n wire \<Rightarrow> bool" where
  "lawful_wire w \<longleftrightarrow> lawful (w_account w) \<and> lawful (w_asset w) \<and> lawful (w_opt_u64 w) \<and> lawful (w_u64 w)
     \<and> lawful (w_string w) \<and> lawful (w_note w) \<and> (\<forall>c. lawful c \<longrightarrow> lawful (w_vec w c))"

section \<open>Messages\<close>

definition PairSpec_write :: "'n wire \<Rightarrow> PairSpec \<Rightarrow> bytes" where
  "PairSpec_write w p = enc (w_account w) (ps_offered p) @ enc (w_account w) (ps_requested p)"

definition PairSpec_read :: "'n wire \<Rightarrow> bytes \<Rightarrow> (PairSpec \<times> bytes) option" where
  "PairSpec_read w bs =
     Option.bind (dec (w_account w) bs) (\<lambda>(a, bs1).
     Option.bind (dec (w_account w) bs1) (\<lambda>(b, bs2).
     Some (\<lparr>ps_offered = a, ps_requested = b\<rparr>, bs2)))"

definition pair_spec_codec :: "'n wire \<Rightarrow> PairSpec codec" where
  "pair_spec_codec w = \<lparr>enc = PairSpec_write w, dec = PairSpec_read w\<rparr>"

datatype ClientMsg = QuoteMsg FungibleAsset FungibleAsset "u64 option"

definition QUOTE :: u8 where
  "QUOTE = 0"

fun ClientMsg_write :: "'n wire \<Rightarrow> ClientMsg \<Rightarrow> bytes" where
  "ClientMsg_write w (QuoteMsg offered requested valid_for_ms) =
     QUOTE # enc (w_asset w) offered @ enc (w_asset w) requested @ enc (w_opt_u64 w) valid_for_ms"

definition ClientMsg_read :: "'n wire \<Rightarrow> bytes \<Rightarrow> (ClientMsg \<times> bytes) option" where
  "ClientMsg_read w bs =
     Option.bind (read_u8 bs) (\<lambda>(tag, bs0).
     if tag = QUOTE then
       Option.bind (dec (w_asset w) bs0) (\<lambda>(offered, bs1).
       Option.bind (dec (w_asset w) bs1) (\<lambda>(requested, bs2).
       Option.bind (dec (w_opt_u64 w) bs2) (\<lambda>(valid_for_ms, bs3).
       Some (QuoteMsg offered requested valid_for_ms, bs3))))
     else None)"

definition client_codec :: "'n wire \<Rightarrow> ClientMsg codec" where
  "client_codec w = \<lparr>enc = ClientMsg_write w, dec = ClientMsg_read w\<rparr>"

datatype 'n ServerMsg =
    AuthOk
  | Ask "PairSpec list"
  | HandoverMsg 'n u64
  | ErrorMsg string string

definition AUTH_OK :: u8 where "AUTH_OK = 0"
definition ASK :: u8 where "ASK = 1"
definition HANDOVER :: u8 where "HANDOVER = 2"
definition ERROR :: u8 where "ERROR = 3"

lemmas tag_defs = QUOTE_def AUTH_OK_def ASK_def HANDOVER_def ERROR_def

fun ServerMsg_write :: "'n wire \<Rightarrow> 'n ServerMsg \<Rightarrow> bytes" where
  "ServerMsg_write w AuthOk = [AUTH_OK]"
| "ServerMsg_write w (Ask pairs) = ASK # enc (w_vec w (pair_spec_codec w)) pairs"
| "ServerMsg_write w (HandoverMsg nt fill_amount) = HANDOVER # enc (w_note w) nt @ enc (w_u64 w) fill_amount"
| "ServerMsg_write w (ErrorMsg code msg) = ERROR # enc (w_string w) code @ enc (w_string w) msg"

definition handover_frame :: "'n wire \<Rightarrow> bytes \<Rightarrow> u64 \<Rightarrow> bytes" where
  "handover_frame w note_bytes fill_amount = HANDOVER # note_bytes @ enc (w_u64 w) fill_amount"

definition ServerMsg_read :: "'n wire \<Rightarrow> bytes \<Rightarrow> ('n ServerMsg \<times> bytes) option" where
  "ServerMsg_read w bs =
     Option.bind (read_u8 bs) (\<lambda>(tag, bs0).
     if tag = AUTH_OK then Some (AuthOk, bs0)
     else if tag = ASK then
       Option.bind (dec (w_vec w (pair_spec_codec w)) bs0) (\<lambda>(pairs, bs1). Some (Ask pairs, bs1))
     else if tag = HANDOVER then
       Option.bind (dec (w_note w) bs0) (\<lambda>(nt, bs1).
       Option.bind (dec (w_u64 w) bs1) (\<lambda>(fill_amount, bs2). Some (HandoverMsg nt fill_amount, bs2)))
     else if tag = ERROR then
       Option.bind (dec (w_string w) bs0) (\<lambda>(code, bs1).
       Option.bind (dec (w_string w) bs1) (\<lambda>(msg, bs2). Some (ErrorMsg code msg, bs2)))
     else None)"

definition server_codec :: "'n wire \<Rightarrow> 'n ServerMsg codec" where
  "server_codec w = \<lparr>enc = ServerMsg_write w, dec = ServerMsg_read w\<rparr>"

section \<open>Round trips\<close>

lemma pair_spec_lawful: "lawful_wire w \<Longrightarrow> lawful (pair_spec_codec w)"
  by (simp add: lawful_wire_def lawful_def pair_spec_codec_def PairSpec_write_def PairSpec_read_def)

lemma client_lawful:
  assumes "lawful_wire w"
  shows "lawful (client_codec w)"
  unfolding lawful_def
proof (intro allI)
  fix m rest
  show "dec (client_codec w) (enc (client_codec w) m @ rest) = Some (m, rest)"
    using assms by (cases m) (simp add: client_codec_def ClientMsg_read_def lawful_wire_def)
qed

lemma server_lawful:
  assumes "lawful_wire w"
  shows "lawful (server_codec w)"
  unfolding lawful_def
proof (intro allI)
  fix m :: "'a ServerMsg" and rest
  have "lawful (w_vec w (pair_spec_codec w))"
    using assms pair_spec_lawful [OF assms] by (simp add: lawful_wire_def)
  with assms show "dec (server_codec w) (enc (server_codec w) m @ rest) = Some (m, rest)"
    by (cases m) (simp_all add: server_codec_def ServerMsg_read_def lawful_wire_def tag_defs)
qed

lemma lawful_read_from_bytes: "lawful c \<Longrightarrow> read_from_bytes c (enc c a) = Some a"
  using lawfulD [of c a "[]"] by (simp add: read_from_bytes_def)

text \<open>
  C9: both sides of the wire protocol agree. Every client message and every server
  message is read back as it was written; the frame the router builds from stored
  note bytes is the serialization of the handover message, so it is read as a
  handover of that note and amount; a frame whose tag is unknown is rejected.
\<close>

theorem protocol_roundtrip:
  assumes "lawful_wire w"
  shows "read_from_bytes (client_codec w) (ClientMsg_write w cm) = Some cm
    \<and> read_from_bytes (server_codec w) (ServerMsg_write w sm) = Some sm
    \<and> handover_frame w (enc (w_note w) nt) fill = ServerMsg_write w (HandoverMsg nt fill)
    \<and> read_from_bytes (server_codec w) (handover_frame w (enc (w_note w) nt) fill) = Some (HandoverMsg nt fill)
    \<and> (QUOTE < tag \<longrightarrow> read_from_bytes (client_codec w) (tag # bs) = None)
    \<and> (ERROR < tag \<longrightarrow> read_from_bytes (server_codec w) (tag # bs) = None)"
proof -
  have c: "read_from_bytes (client_codec w) (ClientMsg_write w cm) = Some cm"
    using lawful_read_from_bytes [OF client_lawful [OF assms], of cm] by (simp add: client_codec_def)
  have s: "read_from_bytes (server_codec w) (ServerMsg_write w m) = Some m" for m
    using lawful_read_from_bytes [OF server_lawful [OF assms], of m] by (simp add: server_codec_def)
  have h: "handover_frame w (enc (w_note w) nt) fill = ServerMsg_write w (HandoverMsg nt fill)"
    by (simp add: handover_frame_def)
  have "read_from_bytes (client_codec w) (tag # bs) = None" if "QUOTE < tag"
    using that by (auto simp: read_from_bytes_def client_codec_def ClientMsg_read_def)
  moreover have "read_from_bytes (server_codec w) (tag # bs) = None" if "ERROR < tag"
    using that by (auto simp: read_from_bytes_def server_codec_def ServerMsg_read_def tag_defs)
  ultimately show ?thesis
    unfolding h using c s by blast
qed

section \<open>A concrete instance\<close>

text \<open>Naturals in unary, from which the other formats are built.\<close>

fun unary_dec :: "bytes \<Rightarrow> (nat \<times> bytes) option" where
  "unary_dec [] = None"
| "unary_dec (b # bs) = (if b = 0 then Some (0, bs) else map_option (\<lambda>(n, rest). (Suc n, rest)) (unary_dec bs))"

definition unary :: "nat codec" where
  "unary = \<lparr>enc = \<lambda>n. replicate n 1 @ [0], dec = unary_dec\<rparr>"

definition via :: "('a \<Rightarrow> 'b) \<Rightarrow> ('b \<Rightarrow> 'a) \<Rightarrow> 'b codec \<Rightarrow> 'a codec" where
  "via f g c = \<lparr>enc = \<lambda>a. enc c (f a), dec = \<lambda>bs. map_option (\<lambda>(b, rest). (g b, rest)) (dec c bs)\<rparr>"

definition pair_codec :: "'a codec \<Rightarrow> 'b codec \<Rightarrow> ('a \<times> 'b) codec" where
  "pair_codec c d = \<lparr>enc = \<lambda>(a, b). enc c a @ enc d b,
     dec = \<lambda>bs. Option.bind (dec c bs) (\<lambda>(a, bs1). Option.bind (dec d bs1) (\<lambda>(b, bs2). Some ((a, b), bs2)))\<rparr>"

fun read_n :: "'a codec \<Rightarrow> nat \<Rightarrow> bytes \<Rightarrow> ('a list \<times> bytes) option" where
  "read_n c 0 bs = Some ([], bs)"
| "read_n c (Suc n) bs = Option.bind (dec c bs) (\<lambda>(a, bs1). map_option (\<lambda>(as, rest). (a # as, rest)) (read_n c n bs1))"

definition list_codec :: "'a codec \<Rightarrow> 'a list codec" where
  "list_codec c = \<lparr>enc = \<lambda>xs. enc unary (length xs) @ concat (map (enc c) xs),
     dec = \<lambda>bs. Option.bind (dec unary bs) (\<lambda>(n, bs1). read_n c n bs1)\<rparr>"

lemma unary_lawful: "lawful unary"
proof -
  have "unary_dec (replicate n 1 @ 0 # rest) = Some (n, rest)" for n rest
    by (induction n) simp_all
  then show ?thesis
    by (simp add: lawful_def unary_def)
qed

lemma via_lawful: "lawful c \<Longrightarrow> (\<And>a. g (f a) = a) \<Longrightarrow> lawful (via f g c)"
  by (simp add: lawful_def via_def)

lemma pair_lawful: "lawful c \<Longrightarrow> lawful d \<Longrightarrow> lawful (pair_codec c d)"
  by (auto simp: lawful_def pair_codec_def)

lemma list_lawful:
  assumes "lawful c"
  shows "lawful (list_codec c)"
proof -
  have "read_n c (length xs) (concat (map (enc c) xs) @ rest) = Some (xs, rest)" for xs rest
    by (induction xs) (simp_all add: assms)
  then show ?thesis
    using lawfulD [OF unary_lawful] by (simp add: lawful_def list_codec_def)
qed

definition tiny_u64 :: "u64 codec" where
  "tiny_u64 = via unat of_nat unary"

definition tiny_wire :: "nat wire" where
  "tiny_wire = \<lparr>w_account = unary,
     w_asset = via (\<lambda>a. (faucet_id a, asset_amount a)) (\<lambda>(f, x). \<lparr>faucet_id = f, asset_amount = x\<rparr>) (pair_codec unary tiny_u64),
     w_opt_u64 = via (\<lambda>x. case x of None \<Rightarrow> [] | Some v \<Rightarrow> [v]) (\<lambda>xs. case xs of [] \<Rightarrow> None | v # _ \<Rightarrow> Some v) (list_codec tiny_u64),
     w_u64 = tiny_u64,
     w_string = list_codec (via of_char char_of unary),
     w_note = unary, w_vec = list_codec\<rparr>"

lemma tiny_wire_lawful: "lawful_wire tiny_wire"
proof -
  have u: "lawful tiny_u64"
    unfolding tiny_u64_def by (rule via_lawful [OF unary_lawful]) (simp add: of_nat_unat)
  have "lawful (via of_char char_of unary)"
    by (rule via_lawful [OF unary_lawful]) simp
  moreover have "lawful (via (\<lambda>a. (faucet_id a, asset_amount a)) (\<lambda>(f, x). \<lparr>faucet_id = f, asset_amount = x\<rparr>) (pair_codec unary tiny_u64))"
    by (rule via_lawful [OF pair_lawful [OF unary_lawful u]]) simp
  moreover have "lawful (via (\<lambda>x. case x of None \<Rightarrow> [] | Some v \<Rightarrow> [v]) (\<lambda>xs. case xs of [] \<Rightarrow> None | v # _ \<Rightarrow> Some v) (list_codec tiny_u64))"
    by (rule via_lawful [OF list_lawful [OF u]]) (simp split: option.split)
  ultimately show ?thesis
    using u by (simp add: lawful_wire_def tiny_wire_def unary_lawful list_lawful)
qed

definition sample_quote_msg :: ClientMsg where
  "sample_quote_msg = QuoteMsg \<lparr>faucet_id = 2, asset_amount = 5\<rparr> \<lparr>faucet_id = 1, asset_amount = 4\<rparr> (Some 3)"

theorem protocol_roundtrip_witness:
  "read_from_bytes (client_codec tiny_wire) (ClientMsg_write tiny_wire sample_quote_msg) = Some sample_quote_msg
   \<and> read_from_bytes (server_codec tiny_wire) (handover_frame tiny_wire (enc (w_note tiny_wire) 6) 9) = Some (HandoverMsg 6 9)"
  using protocol_roundtrip [OF tiny_wire_lawful, of sample_quote_msg AuthOk 6 9] by blast

end
