(* ===== verification/Std_Text.thy ===== *)
theory Std_Text
  imports Solver_Prelude
begin

text \<open>
  What the HTTP and websocket servers use of the standard library on text and on
  signed integers: prefixes, splitting, trimming and joining of strings, reading
  and printing unsigned integers, ASCII case, the saturating subtraction of
  \<open>i64\<close>, and the HTTP status codes the handlers answer with. Printing and
  reading an unsigned integer are inverse.
\<close>

datatype StatusCode = ST_OK | ST_CREATED | ST_BAD_REQUEST | ST_UNAUTHORIZED | ST_NOT_FOUND
  | ST_INTERNAL_SERVER_ERROR | ST_SERVICE_UNAVAILABLE

section \<open>Strings\<close>

definition strip_prefix :: "string \<Rightarrow> string \<Rightarrow> string option" where
  "strip_prefix pre s = (if take (length pre) s = pre then Some (drop (length pre) s) else None)"

text \<open>\<open>str::split\<close>: one more piece than there are separators.\<close>

fun split_on :: "char \<Rightarrow> string \<Rightarrow> string list" where
  "split_on c [] = [[]]"
| "split_on c (x # s) =
     (if x = c then [] # split_on c s
      else case split_on c s of [] \<Rightarrow> [[x]] | p # ps \<Rightarrow> (x # p) # ps)"

definition is_space :: "char \<Rightarrow> bool" where
  "is_space c \<longleftrightarrow> (of_char c :: nat) \<in> {9, 10, 11, 12, 13, 32}"

definition trim :: "string \<Rightarrow> string" where
  "trim s = rev (dropWhile is_space (rev (dropWhile is_space s)))"

fun join_with :: "string \<Rightarrow> string list \<Rightarrow> string" where
  "join_with sep [] = []"
| "join_with sep [s] = s"
| "join_with sep (s # t # ss) = s @ sep @ join_with sep (t # ss)"

definition ascii_lower :: "char \<Rightarrow> char" where
  "ascii_lower c = (let n = of_char c :: nat in if 65 \<le> n \<and> n \<le> 90 then char_of (n + 32) else c)"

definition eq_ignore_ascii_case :: "string \<Rightarrow> string \<Rightarrow> bool" where
  "eq_ignore_ascii_case s t \<longleftrightarrow> map ascii_lower s = map ascii_lower t"

section \<open>Unsigned integers as text\<close>

definition is_digit :: "char \<Rightarrow> bool" where
  "is_digit c \<longleftrightarrow> 48 \<le> (of_char c :: nat) \<and> (of_char c :: nat) \<le> 57"

definition digit_val :: "char \<Rightarrow> nat" where
  "digit_val c = of_char c - 48"

definition digits_val :: "string \<Rightarrow> nat" where
  "digits_val s = foldl (\<lambda>n c. 10 * n + digit_val c) 0 s"

text \<open>\<open>str::parse\<close> of an unsigned type: an optional plus sign and at least one digit, in range.\<close>

definition parse_unsigned :: "string \<Rightarrow> 'a::len word option" where
  "parse_unsigned s =
     (let ds = (if take 1 s = ''+'' then drop 1 s else s)
      in if ds = [] \<or> \<not> list_all is_digit ds then None
         else if digits_val ds < 2 ^ LENGTH('a) then Some (of_nat (digits_val ds)) else None)"

fun show_nat :: "nat \<Rightarrow> string" where
  "show_nat n = (if n < 10 then [char_of (48 + n)] else show_nat (n div 10) @ [char_of (48 + n mod 10)])"

declare show_nat.simps [simp del]

definition to_string :: "'a::len word \<Rightarrow> string" where
  "to_string w = show_nat (unat w)"

lemma digit_char [simp]: "n < 10 \<Longrightarrow> is_digit (char_of (48 + n)) \<and> digit_val (char_of (48 + n)) = n"
  by (simp add: is_digit_def digit_val_def)

lemma digits_val_snoc: "digits_val (s @ [c]) = 10 * digits_val s + digit_val c"
  by (simp add: digits_val_def)

lemma show_nat_digits: "list_all is_digit (show_nat n) \<and> show_nat n \<noteq> [] \<and> digits_val (show_nat n) = n"
proof (induction n rule: show_nat.induct)
  case (1 n)
  then show ?case
    by (subst (1 2 3) show_nat.simps) (auto simp: digits_val_snoc, simp add: digits_val_def)
qed

lemma show_nat_no_sign: "take 1 (show_nat n) \<noteq> ''+''"
proof -
  obtain c s where "show_nat n = c # s" "is_digit c"
    using show_nat_digits [of n] by (cases "show_nat n") auto
  then show ?thesis
    by (auto simp: is_digit_def)
qed

lemma parse_to_string: "parse_unsigned (to_string w) = Some w"
  using show_nat_digits [of "unat w"] show_nat_no_sign [of "unat w"] unsigned_less [of w]
  by (simp add: parse_unsigned_def to_string_def Let_def of_nat_unat)

lemma to_string_inj: "to_string v = to_string w \<longleftrightarrow> v = w"
  using parse_to_string [of v] parse_to_string [of w] by (metis option.inject)

lemma strip_prefix_append [simp]: "strip_prefix p (p @ s) = Some s"
  by (simp add: strip_prefix_def)

lemma split_on_nonempty [simp]: "split_on c s \<noteq> []"
  by (induction s) (auto split: list.split)

lemma split_on_no_sep: "p \<in> set (split_on c s) \<Longrightarrow> c \<notin> set p"
  by (induction s arbitrary: p) (auto split: list.splits if_splits)

lemma split_join: "ss \<noteq> [] \<Longrightarrow> (\<forall>s \<in> set ss. c \<notin> set s) \<Longrightarrow> split_on c (join_with [c] ss) = ss"
proof (induction "[c]" ss rule: join_with.induct)
  case (2 s)
  then have "c \<notin> set s"
    by simp
  then show ?case
    by (induction s) auto
next
  case (3 s t ss)
  have "split_on c (s @ c # r) = s # split_on c r" if "c \<notin> set s" for r
    using that by (induction s) auto
  then show ?case
    using 3 by simp
qed simp

section \<open>Signed integers\<close>

text \<open>\<open>i64\<close> values are words read by \<open>sint\<close>; the subtraction stops at the ends of the type.\<close>

definition saturating_sub_i64 :: "64 word \<Rightarrow> 64 word \<Rightarrow> 64 word" where
  "saturating_sub_i64 a b = word_of_int (max (- (2 ^ 63)) (min (2 ^ 63 - 1) (sint a - sint b)))"

lemma saturating_sub_i64_exact:
  "sint (saturating_sub_i64 a b) = max (- (2 ^ 63)) (min (2 ^ 63 - 1) (sint a - sint b))"
proof -
  have "signed_take_bit 63 k = k" if "- (2 ^ 63) \<le> k" "k < 2 ^ 63" for k :: int
    using that by (simp add: signed_take_bit_int_eq_self)
  then show ?thesis
    by (simp add: saturating_sub_i64_def sint_sbintrunc')
qed

definition show_i64 :: "64 word \<Rightarrow> string" where
  "show_i64 w = (if sint w < 0 then CHR ''-'' # show_nat (nat (- sint w)) else show_nat (nat (sint w)))"

text \<open>\<open>as i64\<close> keeps the small values of an unsigned word.\<close>

lemma small_signed:
  assumes "unat (w :: 64 word) < 2 ^ 63"
  shows "sint w = int (unat w)"
proof -
  have "int (unat w) < int (2 ^ 63)"
    using assms by (simp only: of_nat_less_iff)
  then have "- (2 ^ 63) \<le> uint w" "uint w < 2 ^ 63"
    by (simp_all add: of_nat_unat order_trans [OF _ uint_ge_0])
  from signed_take_bit_int_eq_self [OF this] show ?thesis
    by (simp add: sint_uint of_nat_unat)
qed

end
