(* ===== verification/Router_Server.thy ===== *)
theory Router_Server
  imports Matcher Protocol Std_Text
begin

text \<open>
  The RFQ server, \<open>router/server.rs\<close>: allow-listed exchanges connect, post standing
  quotes, which are published to the matcher, and receive note handovers. One
  operation per method of \<open>RouterState\<close>; the websocket handshake, the start and the
  items of a connection follow \<open>ws_handler\<close> and \<open>handle_conn\<close>. The walks of the hash
  maps and the clock are arguments. Binding the socket is not modelled.
\<close>

section \<open>State\<close>

record RouterConfig =
  rc_bind :: string
  rc_port :: "16 word"
  max_connections :: u64
  max_msg_bytes :: u64
  quote_ttl_ms :: u64
  auth_tokens :: "string list"

text \<open>The outbound queue of a connection, and whether its writer still drains it.\<close>

record Conn =
  outbox :: "bytes list"
  writer_open :: bool

record RouterState =
  rs_cfg :: RouterConfig
  rs_published :: QuotesSnapshot
  rs_quotes :: "DexId \<Rightarrow> (Pair \<Rightarrow> Quote option) option"
  rs_conns :: "DexId \<Rightarrow> Conn option"
  next_dex :: u64
  conn_count :: u64

definition RouterState_new :: "RouterConfig \<Rightarrow> RouterState" where
  "RouterState_new c = \<lparr>rs_cfg = c, rs_published = Map.empty, rs_quotes = Map.empty, rs_conns = Map.empty,
     next_dex = 1, conn_count = 0\<rparr>"

definition authorized :: "RouterConfig \<Rightarrow> string option \<Rightarrow> bool" where
  "authorized c provided =
     (case provided of None \<Rightarrow> False | Some tok \<Rightarrow> list_ex (\<lambda>allowed. allowed = tok) (auth_tokens c))"

section \<open>Publishing\<close>

text \<open>A stable sort by a comparison, as \<open>sort_by\<close> of the standard library.\<close>

fun stable_insert :: "('a \<Rightarrow> 'a \<Rightarrow> bool) \<Rightarrow> 'a \<Rightarrow> 'a list \<Rightarrow> 'a list" where
  "stable_insert le x [] = [x]"
| "stable_insert le x (y # ys) = (if le x y then x # y # ys else y # stable_insert le x ys)"

definition stable_sort :: "('a \<Rightarrow> 'a \<Rightarrow> bool) \<Rightarrow> 'a list \<Rightarrow> 'a list" where
  "stable_sort le xs = foldr (stable_insert le) xs []"

record router_env =
  re_dexes :: "DexId set \<Rightarrow> DexId list"
  re_pairs :: "Pair set \<Rightarrow> Pair list"

definition renv_ok :: "router_env \<Rightarrow> bool" where
  "renv_ok env \<longleftrightarrow> walks (re_dexes env) \<and> walks (re_pairs env)"

definition push_quote :: "(Pair \<Rightarrow> Quote option) \<Rightarrow> Pair \<Rightarrow> QuotesSnapshot \<Rightarrow> QuotesSnapshot" where
  "push_quote m p by_pair = by_pair(p \<mapsto> (case by_pair p of None \<Rightarrow> [] | Some l \<Rightarrow> l) @ [the (m p)])"

definition group_quotes :: "router_env \<Rightarrow> (DexId \<Rightarrow> (Pair \<Rightarrow> Quote option) option) \<Rightarrow> QuotesSnapshot" where
  "group_quotes env quotes =
     fold (\<lambda>d by_pair. fold (push_quote (the (quotes d))) (re_pairs env (dom (the (quotes d)))) by_pair)
       (re_dexes env (dom quotes)) Map.empty"

text \<open>\<open>a\<close> is not after \<open>b\<close> in the comparison the list is sorted by.\<close>

definition quote_order :: "Quote \<Rightarrow> Quote \<Rightarrow> bool" where
  "quote_order a b \<longleftrightarrow>
     as_u128 (q_supply b) * as_u128 (q_demand a) \<le> as_u128 (q_supply a) * as_u128 (q_demand b)"

text \<open>The snapshot is built under the lock of the quotes and sent after the lock is released.\<close>

definition build_snapshot :: "router_env \<Rightarrow> RouterState \<Rightarrow> QuotesSnapshot" where
  "build_snapshot env st = (\<lambda>p. map_option (stable_sort quote_order) (group_quotes env (rs_quotes st) p))"

definition send_snapshot :: "QuotesSnapshot \<Rightarrow> RouterState \<Rightarrow> RouterState" where
  "send_snapshot snap st = st\<lparr>rs_published := snap\<rparr>"

definition republish :: "router_env \<Rightarrow> RouterState \<Rightarrow> RouterState" where
  "republish env st = send_snapshot (build_snapshot env st) st"

section \<open>Client messages\<close>

definition insert_quote :: "DexId \<Rightarrow> Pair \<Rightarrow> Quote \<Rightarrow> RouterState \<Rightarrow> RouterState" where
  "insert_quote d pair quote st =
     st\<lparr>rs_quotes := (rs_quotes st)(d \<mapsto>
          (case rs_quotes st d of None \<Rightarrow> Map.empty | Some m \<Rightarrow> m)(pair \<mapsto> quote))\<rparr>"

definition register_quote :: "router_env \<Rightarrow> u64 \<Rightarrow> DexId \<Rightarrow> FungibleAsset \<Rightarrow> FungibleAsset \<Rightarrow> u64 option \<Rightarrow> RouterState
    \<Rightarrow> 'n ServerMsg option \<times> RouterState" where
  "register_quote env now_millis d offered_asset requested_asset valid_for_ms st =
     (let supplied = asset_amount offered_asset; demand = asset_amount requested_asset
      in if supplied = 0 \<or> demand = 0
         then (Some (ErrorMsg ''bad_quote'' ''quote amounts must be > 0''), st)
         else
           let pair = (faucet_id requested_asset, faucet_id offered_asset);
               ttl = (case valid_for_ms of None \<Rightarrow> quote_ttl_ms (rs_cfg st) | Some v \<Rightarrow> min v (quote_ttl_ms (rs_cfg st)));
               quote = \<lparr>q_dex = d, q_pair = pair, q_supply = supplied, q_demand = demand,
                        q_expires_at = saturating_add now_millis ttl\<rparr>
           in (None, republish env (insert_quote d pair quote st)))"

text \<open>\<open>why\<close>: the text of the decoding error.\<close>

definition handle_client_msg :: "'n wire \<Rightarrow> (bytes \<Rightarrow> string) \<Rightarrow> router_env \<Rightarrow> u64 \<Rightarrow> DexId \<Rightarrow> bytes \<Rightarrow> RouterState
    \<Rightarrow> 'n ServerMsg option \<times> RouterState" where
  "handle_client_msg w why env now_millis d bs st =
     (case read_from_bytes (client_codec w) bs of
        None \<Rightarrow> (Some (ErrorMsg ''bad_message'' (''undecodable message: '' @ why bs)), st)
      | Some (QuoteMsg offered_asset requested_asset valid_for_ms) \<Rightarrow>
          register_quote env now_millis d offered_asset requested_asset valid_for_ms st)"

section \<open>Handovers\<close>

definition send_frame :: "DexId \<Rightarrow> bytes \<Rightarrow> RouterState \<Rightarrow> RouterState" where
  "send_frame d frame st =
     (case rs_conns st d of
        None \<Rightarrow> st
      | Some c \<Rightarrow> if writer_open c then st\<lparr>rs_conns := (rs_conns st)(d \<mapsto> c\<lparr>outbox := outbox c @ [frame]\<rparr>)\<rparr> else st)"

definition consume_quote :: "RoutedNote \<Rightarrow> bool \<times> RouterState \<Rightarrow> bool \<times> RouterState" where
  "consume_quote it s =
     (let (consumed, st) = s in
      case rs_quotes st (rn_dex it) of
        None \<Rightarrow> (consumed, st)
      | Some m \<Rightarrow> (consumed \<or> m (rn_pair it) \<noteq> None,
                   st\<lparr>rs_quotes := (rs_quotes st)(rn_dex it \<mapsto> m(rn_pair it := None))\<rparr>))"

definition deliver :: "'n wire \<Rightarrow> router_env \<Rightarrow> RouteBatch \<Rightarrow> RouterState \<Rightarrow> RouterState" where
  "deliver w env batch st =
     (let st1 = fold (\<lambda>it. send_frame (rn_dex it) (handover_frame w (rn_note_bytes it) (rn_fill it))) (items batch) st;
          (consumed, st2) = fold consume_quote (items batch) (False, st1)
      in if consumed then republish env st2 else st2)"

definition deregister :: "router_env \<Rightarrow> DexId \<Rightarrow> RouterState \<Rightarrow> RouterState" where
  "deregister env d st =
     republish env (st\<lparr>rs_conns := (rs_conns st)(d := None), rs_quotes := (rs_quotes st)(d := None),
                       conn_count := saturating_sub (conn_count st) 1\<rparr>)"

section \<open>Connections\<close>

text \<open>The \<open>Authorization\<close> header, if it is present and printable.\<close>

definition bearer_from :: "string option \<Rightarrow> string option" where
  "bearer_from header = Option.bind header (strip_prefix ''Bearer '')"

datatype upgrade_result = Unauthorized | AtCapacity | Upgrade u64

definition ws_handler :: "string option \<Rightarrow> string option \<Rightarrow> RouterState \<Rightarrow> upgrade_result" where
  "ws_handler header query_token st =
     (let token = (case bearer_from header of None \<Rightarrow> query_token | Some t \<Rightarrow> Some t)
      in if \<not> authorized (rs_cfg st) token then Unauthorized
         else if conn_count st \<ge> max_connections (rs_cfg st) then AtCapacity
         else Upgrade (max_msg_bytes (rs_cfg st)))"

definition open_conn :: "'n wire \<Rightarrow> RouterState \<Rightarrow> DexId \<times> RouterState" where
  "open_conn w st =
     (let d = next_dex st
      in (d, st\<lparr>next_dex := d + 1, conn_count := conn_count st + 1,
                rs_conns := (rs_conns st)(d \<mapsto> \<lparr>outbox = [ServerMsg_write w AuthOk], writer_open = True\<rparr>)\<rparr>))"

datatype WsItem = WsBinary bytes | WsClose | WsErr | WsOther

definition conn_item :: "'n wire \<Rightarrow> (bytes \<Rightarrow> string) \<Rightarrow> router_env \<Rightarrow> u64 \<Rightarrow> DexId \<Rightarrow> WsItem \<Rightarrow> RouterState \<Rightarrow> RouterState" where
  "conn_item w why env now_millis d item st =
     (case item of
        WsBinary bs \<Rightarrow>
          (let (err, st') = handle_client_msg w why env now_millis d bs st
           in case err of None \<Rightarrow> st' | Some e \<Rightarrow> send_frame d (ServerMsg_write w e) st')
      | WsClose \<Rightarrow> deregister env d st
      | WsErr \<Rightarrow> deregister env d st
      | WsOther \<Rightarrow> st)"

definition close_writer :: "DexId \<Rightarrow> RouterState \<Rightarrow> RouterState" where
  "close_writer d st =
     (case rs_conns st d of
        None \<Rightarrow> st
      | Some c \<Rightarrow> st\<lparr>rs_conns := (rs_conns st)(d \<mapsto> c\<lparr>writer_open := False\<rparr>)\<rparr>)"

text \<open>
  The server as a whole: accepted handshakes that have not started their connection
  yet, and the state. A connection is started by an accepted handshake; items arrive
  only on open connections; identifiers do not run out.
\<close>

inductive router_step :: "'n wire \<Rightarrow> nat \<times> RouterState \<Rightarrow> nat \<times> RouterState \<Rightarrow> bool" for w where
  accept: "ws_handler header query_token st = Upgrade n \<Longrightarrow> router_step w (k, st) (Suc k, st)"
| started: "next_dex st \<noteq> - 1 \<Longrightarrow> router_step w (Suc k, st) (k, snd (open_conn w st))"
| item: "rs_conns st d \<noteq> None \<Longrightarrow> renv_ok env \<Longrightarrow> router_step w (k, st) (k, conn_item w why env now_millis d it st)"
| writer: "router_step w (k, st) (k, close_writer d st)"
| routed: "renv_ok env \<Longrightarrow> router_step w (k, st) (k, deliver w env batch st)"

inductive_cases router_stepE: "router_step w s t"

end
