(* ===== verification/Router_Props.thy ===== *)
theory Router_Props
  imports Router_Server
begin

text \<open>
  Correctness of the RFQ server: what the matcher reads is exactly the standing
  quotes, most generous first; a delivery reaches the connected exchanges in order
  and uses up the quotes it was made for; and the two places where the server is
  not atomic.
\<close>

section \<open>Sorting\<close>

lemma mset_stable_insert [simp]: "mset (stable_insert le x xs) = add_mset x (mset xs)"
  by (induction xs) auto

lemma mset_stable_sort [simp]: "mset (stable_sort le xs) = mset xs"
  by (induction xs) (simp_all add: stable_sort_def)

lemma set_stable_sort [simp]: "set (stable_sort le xs) = set xs"
  by (metis mset_stable_sort set_mset_mset)

lemma set_stable_insert [simp]: "set (stable_insert le x xs) = insert x (set xs)"
  by (metis mset_stable_insert set_mset_add_mset_insert set_mset_mset)

context key_order
begin

lemma stable_insert_sorted:
  "sorted_wrt le xs \<Longrightarrow> \<forall>y \<in> insert x (set xs). valid y \<Longrightarrow> sorted_wrt le (stable_insert le x xs)"
proof (induction xs)
  case (Cons y ys)
  show ?case
  proof (cases "le x y")
    case True
    have "le x z" if "z \<in> set ys" for z
      using that True Cons.prems le_trans [of x y z] by auto
    with True Cons.prems show ?thesis by auto
  next
    case False
    then have "le y x"
      using not_le_imp_le [of x y] Cons.prems by simp
    with False Cons show ?thesis by auto
  qed
qed simp

lemma stable_sort_sorted: "\<forall>y \<in> set xs. valid y \<Longrightarrow> sorted_wrt le (stable_sort le xs)"
proof (induction xs)
  case (Cons x xs)
  have "set (foldr (stable_insert le) xs []) = set xs"
    using set_stable_sort [of le xs] by (simp add: stable_sort_def)
  with Cons show ?case
    by (auto simp: stable_sort_def intro: stable_insert_sorted)
qed (simp add: stable_sort_def)

end

definition quote_valid :: "Quote \<Rightarrow> bool" where
  "quote_valid q \<longleftrightarrow> q_supply q \<noteq> 0 \<and> q_demand q \<noteq> 0"

lemma quote_order_generous: "quote_order a b \<longleftrightarrow> generous a b"
  by (simp add: quote_order_def generous_def u_arith)

interpretation quote_keys: key_order quote_valid quote_order
proof unfold_locales
  fix a b c
  show "quote_order a b \<or> quote_order b a"
    unfolding quote_order_generous generous_def by linarith
  assume "quote_valid b" "quote_order a b" "quote_order b c"
  then show "quote_order a c"
    unfolding quote_order_generous generous_def quote_valid_def
    using cross_mult_trans [of "unat (q_demand a)" "unat (q_supply b)" "unat (q_demand b)" "unat (q_supply a)"
        "unat (q_supply c)" "unat (q_demand c)"]
    by (simp add: mult.commute unat_gt_0)
qed

section \<open>Grouping\<close>

definition opt_nonempty :: "'a list \<Rightarrow> 'a list option" where
  "opt_nonempty l = (if l = [] then None else Some l)"

lemma push_all:
  assumes "distinct ps"
  shows "fold (push_quote m) ps s p =
     (if p \<in> set ps then Some ((case s p of None \<Rightarrow> [] | Some l \<Rightarrow> l) @ [the (m p)]) else s p)"
  using assms by (induction ps arbitrary: s) (auto simp: push_quote_def)

lemma group_one:
  assumes "walks (re_pairs env)" "finite (dom m)" "s p = opt_nonempty l"
  shows "fold (push_quote m) (re_pairs env (dom m)) s p = opt_nonempty (l @ (case m p of None \<Rightarrow> [] | Some q \<Rightarrow> [q]))"
  using push_all [OF walksD(1) [OF assms(1,2)], of m s p] walksD(2) [OF assms(1,2)] assms(3)
  by (auto simp: opt_nonempty_def domIff split: option.split)

lemma group_fold:
  assumes "walks (re_pairs env)" "\<forall>d \<in> set ds. finite (dom (the (quotes d)))" "s p = opt_nonempty l"
  shows "fold (\<lambda>d by_pair. fold (push_quote (the (quotes d))) (re_pairs env (dom (the (quotes d)))) by_pair) ds s p
     = opt_nonempty (l @ List.map_filter (\<lambda>d. the (quotes d) p) ds)"
  using assms
proof (induction ds arbitrary: s l)
  case (Cons d ds)
  let ?s = "fold (push_quote (the (quotes d))) (re_pairs env (dom (the (quotes d)))) s"
  have "?s p = opt_nonempty (l @ (case the (quotes d) p of None \<Rightarrow> [] | Some q \<Rightarrow> [q]))"
    by (rule group_one) (use Cons.prems in simp_all)
  with Cons.IH [of ?s "l @ (case the (quotes d) p of None \<Rightarrow> [] | Some q \<Rightarrow> [q])"] Cons.prems show ?case
    by (cases "the (quotes d) p") (simp_all add: List.map_filter_simps)
qed (simp add: List.map_filter_simps)

definition quotes_ok :: "(DexId \<Rightarrow> (Pair \<Rightarrow> Quote option) option) \<Rightarrow> bool" where
  "quotes_ok quotes \<longleftrightarrow> finite (dom quotes) \<and> (\<forall>d m. quotes d = Some m \<longrightarrow> finite (dom m)
     \<and> (\<forall>p q. m p = Some q \<longrightarrow> q_dex q = d \<and> q_pair q = p \<and> quote_valid q))"

definition standing :: "(DexId \<Rightarrow> (Pair \<Rightarrow> Quote option) option) \<Rightarrow> Pair \<Rightarrow> Quote set" where
  "standing quotes p = {q. \<exists>d m. quotes d = Some m \<and> m p = Some q}"

text \<open>A snapshot shows the standing quotes: per pair, each exchange's quote once, most generous first.\<close>

definition shows_quotes :: "QuotesSnapshot \<Rightarrow> (DexId \<Rightarrow> (Pair \<Rightarrow> Quote option) option) \<Rightarrow> bool" where
  "shows_quotes snap quotes \<longleftrightarrow>
     (\<forall>p. case snap p of
            None \<Rightarrow> standing quotes p = {}
          | Some l \<Rightarrow> l \<noteq> [] \<and> set l = standing quotes p \<and> distinct (map q_dex l) \<and> sorted_wrt generous l)"

lemma map_filter_dexes:
  assumes "distinct ds" "\<And>d q. d \<in> set ds \<Longrightarrow> f d = Some q \<Longrightarrow> q_dex q = d"
  shows "distinct (map q_dex (List.map_filter f ds))"
proof -
  have "map q_dex (List.map_filter f ds) = filter (\<lambda>d. f d \<noteq> None) ds"
    using assms(2) by (induction ds) (auto simp: List.map_filter_simps split: option.split)
  with assms(1) show ?thesis by simp
qed

lemma build_snapshot_shows:
  assumes "renv_ok env" "quotes_ok (rs_quotes st)"
  shows "shows_quotes (build_snapshot env st) (rs_quotes st)"
  unfolding shows_quotes_def
proof
  fix p
  let ?Q = "rs_quotes st" and ?ds = "re_dexes env (dom (rs_quotes st))"
  define l where "l = List.map_filter (\<lambda>d. the (?Q d) p) ?ds"
  have fin: "finite (dom ?Q)"
    using assms(2) by (simp add: quotes_ok_def)
  have ds: "distinct ?ds" "set ?ds = dom ?Q"
    using walksD [OF _ fin, of "re_dexes env"] assms(1) by (simp_all add: renv_ok_def)
  have "\<forall>d \<in> set ?ds. finite (dom (the (?Q d)))"
    unfolding ds(2) using assms(2) by (auto simp: quotes_ok_def)
  then have "group_quotes env ?Q p = opt_nonempty l"
    using group_fold [of env ?ds ?Q Map.empty p "[]"] assms(1)
    unfolding group_quotes_def l_def by (simp add: renv_ok_def opt_nonempty_def)
  then have snap: "build_snapshot env st p = map_option (stable_sort quote_order) (opt_nonempty l)"
    by (simp add: build_snapshot_def)
  have set: "set l = standing ?Q p"
    unfolding l_def standing_def List.map_filter_def using ds(2) by (force simp: domIff)
  have wfq: "q_dex q = d \<and> quote_valid q" if "?Q d = Some m" "m p = Some q" for d m q
    using assms(2) that unfolding quotes_ok_def by blast
  have "distinct (map q_dex l)"
    unfolding l_def by (rule map_filter_dexes [OF ds(1)]) (use wfq ds(2) in auto)
  moreover have "mset (map q_dex (stable_sort quote_order l)) = mset (map q_dex l)"
    by simp
  ultimately have "distinct (map q_dex (stable_sort quote_order l))"
    using mset_eq_imp_distinct_iff by blast
  moreover have "sorted_wrt quote_order (stable_sort quote_order l)"
    by (rule quote_keys.stable_sort_sorted) (use wfq set in \<open>auto simp: standing_def\<close>)
  then have "sorted_wrt generous (stable_sort quote_order l)"
    unfolding quote_order_generous [abs_def] .
  ultimately show "case build_snapshot env st p of None \<Rightarrow> standing ?Q p = {}
     | Some l \<Rightarrow> l \<noteq> [] \<and> set l = standing ?Q p \<and> distinct (map q_dex l) \<and> sorted_wrt generous l"
    using set unfolding snap opt_nonempty_def
    by (cases "l = []") (auto simp: set_empty [symmetric] simp del: set_empty)
qed

section \<open>The invariant of the server\<close>

definition router_inv :: "nat \<times> RouterState \<Rightarrow> bool" where
  "router_inv s \<longleftrightarrow> (let st = snd s in
     quotes_ok (rs_quotes st) \<and> shows_quotes (rs_published st) (rs_quotes st)
   \<and> dom (rs_quotes st) \<subseteq> dom (rs_conns st) \<and> (\<forall>d \<in> dom (rs_conns st). 0 < d \<and> d < next_dex st)
   \<and> conn_count st = of_nat (card (dom (rs_conns st))) \<and> 0 < next_dex st)"

lemma router_invD:
  assumes "router_inv (k, st)"
  shows "quotes_ok (rs_quotes st)" "shows_quotes (rs_published st) (rs_quotes st)"
    "dom (rs_quotes st) \<subseteq> dom (rs_conns st)" "d \<in> dom (rs_conns st) \<Longrightarrow> 0 < d \<and> d < next_dex st"
    "conn_count st = of_nat (card (dom (rs_conns st)))" "0 < next_dex st"
  using assms by (simp_all add: router_inv_def)

lemma send_frame_frame [simp]:
  "rs_quotes (send_frame d fr st) = rs_quotes st" "rs_published (send_frame d fr st) = rs_published st"
  "dom (rs_conns (send_frame d fr st)) = dom (rs_conns st)" "next_dex (send_frame d fr st) = next_dex st"
  "conn_count (send_frame d fr st) = conn_count st" "rs_cfg (send_frame d fr st) = rs_cfg st"
  by (auto simp: send_frame_def split: option.split)

lemma close_writer_frame [simp]:
  "rs_quotes (close_writer d st) = rs_quotes st" "rs_published (close_writer d st) = rs_published st"
  "dom (rs_conns (close_writer d st)) = dom (rs_conns st)" "next_dex (close_writer d st) = next_dex st"
  "conn_count (close_writer d st) = conn_count st"
  by (auto simp: close_writer_def split: option.split)

lemma republish_sel [simp]:
  "rs_quotes (republish env st) = rs_quotes st" "rs_conns (republish env st) = rs_conns st"
  "next_dex (republish env st) = next_dex st" "conn_count (republish env st) = conn_count st"
  "rs_published (republish env st) = build_snapshot env st"
  by (simp_all add: republish_def send_snapshot_def)

lemma build_snapshot_cong: "rs_quotes st' = rs_quotes st \<Longrightarrow> build_snapshot env st' = build_snapshot env st"
  by (simp add: build_snapshot_def)

lemma insert_quote_ok:
  assumes "quotes_ok (rs_quotes st)" "q_dex q = d" "q_pair q = p" "quote_valid q"
  shows "quotes_ok (rs_quotes (insert_quote d p q st))"
  using assms by (auto simp: quotes_ok_def insert_quote_def split: option.splits if_splits)

lemma insert_quote_sel [simp]:
  "rs_conns (insert_quote d p q st) = rs_conns st" "next_dex (insert_quote d p q st) = next_dex st"
  "conn_count (insert_quote d p q st) = conn_count st"
  "dom (rs_quotes (insert_quote d p q st)) = insert d (dom (rs_quotes st))"
  by (simp_all add: insert_quote_def)

lemma register_quote_inv:
  assumes "router_inv (k, st)" "renv_ok env" "rs_conns st d \<noteq> None"
  shows "router_inv (k, snd (register_quote env t d a b v st))"
  using assms(3) router_invD [OF assms(1)]
    build_snapshot_shows [OF assms(2) insert_quote_ok]
  by (auto simp: register_quote_def Let_def router_inv_def quote_valid_def insert_quote_ok)

text \<open>Consuming the quotes of a batch.\<close>

definition used :: "RoutedNote list \<Rightarrow> DexId \<Rightarrow> Pair \<Rightarrow> bool" where
  "used its d p \<longleftrightarrow> (\<exists>it \<in> set its. rn_dex it = d \<and> rn_pair it = p)"

lemma consume_one:
  assumes "consume_quote it (b, st) = (b', st')"
  shows "rs_quotes st' d = map_option (\<lambda>m p. if used [it] d p then None else m p) (rs_quotes st d)"
    and "b' \<longleftrightarrow> b \<or> (\<exists>m. rs_quotes st (rn_dex it) = Some m \<and> m (rn_pair it) \<noteq> None)"
proof -
  have u: "used [it] d p \<longleftrightarrow> d = rn_dex it \<and> p = rn_pair it" for p
    by (auto simp: used_def)
  show "rs_quotes st' d = map_option (\<lambda>m p. if used [it] d p then None else m p) (rs_quotes st d)"
    unfolding u using assms
    by (cases "d = rn_dex it"; cases "rs_quotes st d"; cases "rs_quotes st (rn_dex it)")
      (auto simp: consume_quote_def fun_eq_iff)
  show "b' \<longleftrightarrow> b \<or> (\<exists>m. rs_quotes st (rn_dex it) = Some m \<and> m (rn_pair it) \<noteq> None)"
    using assms by (auto simp: consume_quote_def split: option.splits)
qed

lemma consume_fold:
  "rs_quotes (snd (fold consume_quote its (b, st))) d
     = map_option (\<lambda>m p. if used its d p then None else m p) (rs_quotes st d)"
proof (induction its arbitrary: b st)
  case (Cons it its)
  obtain b' st' where c: "consume_quote it (b, st) = (b', st')" by fastforce
  show ?case
    using Cons.IH [of b' st'] c consume_one(1) [OF c, of d]
    by (cases "rs_quotes st d") (auto simp: used_def fun_eq_iff)
qed (simp add: used_def option.map_ident)

lemma consume_frame:
  "rs_conns (snd (fold consume_quote its (b, st))) = rs_conns st"
  "rs_published (snd (fold consume_quote its (b, st))) = rs_published st"
  "next_dex (snd (fold consume_quote its (b, st))) = next_dex st"
  "conn_count (snd (fold consume_quote its (b, st))) = conn_count st"
proof -
  have "rs_conns (snd (consume_quote it s)) = rs_conns (snd s) \<and> rs_published (snd (consume_quote it s)) = rs_published (snd s)
      \<and> next_dex (snd (consume_quote it s)) = next_dex (snd s) \<and> conn_count (snd (consume_quote it s)) = conn_count (snd s)" for it s
    by (auto simp: consume_quote_def split: option.splits prod.splits)
  then have "rs_conns (snd (fold consume_quote its s)) = rs_conns (snd s) \<and> rs_published (snd (fold consume_quote its s)) = rs_published (snd s)
      \<and> next_dex (snd (fold consume_quote its s)) = next_dex (snd s) \<and> conn_count (snd (fold consume_quote its s)) = conn_count (snd s)" for s
    by (induction its arbitrary: s) simp_all
  then show "rs_conns (snd (fold consume_quote its (b, st))) = rs_conns st"
    "rs_published (snd (fold consume_quote its (b, st))) = rs_published st"
    "next_dex (snd (fold consume_quote its (b, st))) = next_dex st"
    "conn_count (snd (fold consume_quote its (b, st))) = conn_count st"
    by simp_all
qed

lemma consume_nothing:
  "\<not> fst (fold consume_quote its (b, st)) \<Longrightarrow> \<not> b \<and> rs_quotes (snd (fold consume_quote its (b, st))) = rs_quotes st"
proof (induction its arbitrary: b st)
  case (Cons it its)
  obtain b' st' where c: "consume_quote it (b, st) = (b', st')" by fastforce
  have "\<not> fst (fold consume_quote its (b', st'))"
    using Cons.prems c by simp
  from Cons.IH [OF this] have "\<not> b'" "rs_quotes (snd (fold consume_quote its (b', st'))) = rs_quotes st'"
    by blast+
  moreover have "\<not> b \<and> rs_quotes st' = rs_quotes st" if "\<not> b'"
  proof -
    have "m(rn_pair it := None) = m" if "m (rn_pair it) = None" for m :: "Pair \<Rightarrow> Quote option"
      using that by auto
    with c that show ?thesis
      by (cases "rs_quotes st (rn_dex it)") (auto simp: consume_quote_def)
  qed
  ultimately show ?case
    using c by simp
qed simp

lemma quotes_ok_restrict:
  assumes "quotes_ok Q"
  shows "quotes_ok (\<lambda>d. map_option (\<lambda>m p. if U d p then None else m p) (Q d))"
proof -
  have "dom (\<lambda>d. map_option (\<lambda>m p. if U d p then None else m p) (Q d)) = dom Q"
    by auto
  moreover have "finite (dom (\<lambda>p. if U d p then None else m p))" if "Q d = Some m" for d m
    by (rule finite_subset [of _ "dom m"]) (use assms that in \<open>auto simp: quotes_ok_def split: if_splits\<close>)
  ultimately show ?thesis
    using assms unfolding quotes_ok_def by (auto split: if_splits)
qed

lemma fold_send_frame:
  "rs_quotes (fold (\<lambda>it. send_frame (rn_dex it) (fr it)) its st) = rs_quotes st"
  "rs_published (fold (\<lambda>it. send_frame (rn_dex it) (fr it)) its st) = rs_published st"
  "dom (rs_conns (fold (\<lambda>it. send_frame (rn_dex it) (fr it)) its st)) = dom (rs_conns st)"
  "next_dex (fold (\<lambda>it. send_frame (rn_dex it) (fr it)) its st) = next_dex st"
  "conn_count (fold (\<lambda>it. send_frame (rn_dex it) (fr it)) its st) = conn_count st"
  by (induction its arbitrary: st) simp_all

lemma fold_send_outbox:
  "rs_conns st d = Some c \<Longrightarrow> rs_conns (fold (\<lambda>it. send_frame (rn_dex it) (fr it)) its st) d
     = Some (c\<lparr>outbox := outbox c @ (if writer_open c then map fr (filter (\<lambda>it. rn_dex it = d) its) else [])\<rparr>)"
proof (induction its arbitrary: st c)
  case (Cons it its)
  show ?case
  proof (cases "rn_dex it = d \<and> writer_open c")
    case True
    then have "rs_conns (send_frame (rn_dex it) (fr it) st) d = Some (c\<lparr>outbox := outbox c @ [fr it]\<rparr>)"
      using Cons.prems by (simp add: send_frame_def)
    from Cons.IH [OF this] True show ?thesis
      by simp
  next
    case False
    then have "rs_conns (send_frame (rn_dex it) (fr it) st) d = Some c"
      using Cons.prems by (auto simp: send_frame_def split: option.split)
    from Cons.IH [OF this] False show ?thesis
      by auto
  qed
qed simp

lemma deliver_result:
  assumes "quotes_ok (rs_quotes st)" "shows_quotes (rs_published st) (rs_quotes st)" "renv_ok env"
  shows "rs_quotes (deliver w env batch st)
      = (\<lambda>d. map_option (\<lambda>m p. if used (items batch) d p then None else m p) (rs_quotes st d))"
    "rs_conns (deliver w env batch st)
      = rs_conns (fold (\<lambda>it. send_frame (rn_dex it) (handover_frame w (rn_note_bytes it) (rn_fill it))) (items batch) st)"
    "next_dex (deliver w env batch st) = next_dex st" "conn_count (deliver w env batch st) = conn_count st"
    "shows_quotes (rs_published (deliver w env batch st)) (rs_quotes (deliver w env batch st))"
proof -
  let ?st1 = "fold (\<lambda>it. send_frame (rn_dex it) (handover_frame w (rn_note_bytes it) (rn_fill it))) (items batch) st"
  let ?c = "fold consume_quote (items batch) (False, ?st1)"
  have d: "deliver w env batch st = (if fst ?c then republish env (snd ?c) else snd ?c)"
    by (simp add: deliver_def Let_def split_beta)
  have q: "rs_quotes (snd ?c) = (\<lambda>d. map_option (\<lambda>m p. if used (items batch) d p then None else m p) (rs_quotes st d))"
    by (rule ext) (simp add: consume_fold fold_send_frame)
  show "rs_quotes (deliver w env batch st)
      = (\<lambda>d. map_option (\<lambda>m p. if used (items batch) d p then None else m p) (rs_quotes st d))"
    "rs_conns (deliver w env batch st) = rs_conns ?st1"
    "next_dex (deliver w env batch st) = next_dex st" "conn_count (deliver w env batch st) = conn_count st"
    by (simp_all add: d q consume_frame fold_send_frame)
  have "quotes_ok (rs_quotes (snd ?c))"
    unfolding q by (rule quotes_ok_restrict [OF assms(1)])
  from build_snapshot_shows [OF assms(3) this] consume_nothing [of "items batch" False ?st1] assms(2)
  show "shows_quotes (rs_published (deliver w env batch st)) (rs_quotes (deliver w env batch st))"
    by (simp add: d consume_frame fold_send_frame)
qed

lemma deliver_inv:
  assumes "router_inv (k, st)" "renv_ok env"
  shows "router_inv (k, deliver w env batch st)"
proof -
  note I = router_invD [OF assms(1)]
  note R = deliver_result [OF I(1,2) assms(2), of w batch]
  have dom: "dom (rs_quotes (deliver w env batch st)) = dom (rs_quotes st)"
    unfolding R(1) by auto
  have conns: "dom (rs_conns (deliver w env batch st)) = dom (rs_conns st)"
    unfolding R(2) by (simp add: fold_send_frame)
  have "quotes_ok (rs_quotes (deliver w env batch st))"
    unfolding R(1) by (rule quotes_ok_restrict [OF I(1)])
  with R(3-5) I(3-6) show ?thesis
    by (simp add: router_inv_def dom conns)
qed

lemma deregister_inv:
  assumes "router_inv (k, st)" "renv_ok env" "rs_conns st d \<noteq> None"
  shows "router_inv (k, deregister env d st)"
proof -
  note I = router_invD [OF assms(1)]
  let ?st = "st\<lparr>rs_conns := (rs_conns st)(d := None), rs_quotes := (rs_quotes st)(d := None),
      conn_count := saturating_sub (conn_count st) 1\<rparr>"
  have ok: "quotes_ok (rs_quotes ?st)"
    using I(1) by (auto simp: quotes_ok_def split: if_splits)
  have dom: "d \<in> dom (rs_conns st)"
    using assms(3) by blast
  have card: "card (dom (rs_conns st) - {d}) + 1 = card (dom (rs_conns st))"
    using dom card_Suc_Diff1 [of "dom (rs_conns st)" d] by simp
  have "card (dom (rs_conns st)) \<le> card (UNIV - {0 :: u64})"
    by (rule card_mono) (use I(4) in auto)
  then have lt: "card (dom (rs_conns st)) < 2 ^ 64"
    by (simp add: card_Diff_singleton card_word)
  then have "unat (of_nat (card (dom (rs_conns st))) :: u64) = card (dom (rs_conns st))"
    by (intro of_nat_inverse [OF refl]) simp
  then have le: "(1 :: u64) \<le> of_nat (card (dom (rs_conns st)))"
    using card by (simp add: word_le_nat_alt)
  have "saturating_sub (conn_count st) 1 = of_nat (card (dom (rs_conns st) - {d}))"
    unfolding saturating_sub_def I(5) using le card [symmetric] by simp
  with build_snapshot_shows [OF assms(2) ok] ok I(3,4,6) show ?thesis
    by (auto simp: router_inv_def deregister_def)
qed

lemma unat_minus_one_u64: "unat (- 1 :: u64) = 2 ^ 64 - 1"
  by (simp add: unsigned_minus_1_eq_mask mask_eq_exp_minus_1)

lemma open_conn_inv:
  assumes "router_inv (k, st)" "next_dex st \<noteq> - 1"
  shows "router_inv (k', snd (open_conn w st))"
proof -
  note I = router_invD [OF assms(1)]
  let ?d = "next_dex st"
  have new: "?d \<notin> dom (rs_conns st)"
    using I(4) by blast
  have "unat ?d \<noteq> 2 ^ 64 - 1"
    using assms(2) by (metis word_unat_eq_iff unat_minus_one_u64)
  then have "unat (?d + 1) = unat ?d + 1"
    using unat_u64_lt [of ?d] by (subst unat_add_no_wrap) simp_all
  then have lt: "?d < ?d + 1"
    by (simp add: word_less_nat_alt)
  have "finite (dom (rs_conns st))"
    by simp
  then have "card (insert ?d (dom (rs_conns st))) = card (dom (rs_conns st)) + 1"
    using new by simp
  then have cc: "conn_count st + 1 = of_nat (card (insert ?d (dom (rs_conns st))))"
    by (simp add: I(5))
  have "\<forall>d \<in> insert ?d (dom (rs_conns st)). 0 < d \<and> d < ?d + 1"
    using I(4,6) lt less_trans by blast
  moreover have "dom (rs_quotes st) \<subseteq> insert ?d (dom (rs_conns st))"
    using I(3) by blast
  ultimately show ?thesis
    using I(1,2,6) lt cc less_trans [OF I(6) lt] by (simp add: router_inv_def open_conn_def Let_def)
qed

lemma conn_item_inv:
  assumes "router_inv (k, st)" "renv_ok env" "rs_conns st d \<noteq> None"
  shows "router_inv (k, conn_item w why env t d it st)"
proof -
  have send: "router_inv (k, send_frame d fr st')" if "router_inv (k, st')" for fr st'
    using router_invD [OF that] by (simp add: router_inv_def)
  have msg: "router_inv (k, snd (handle_client_msg w why env t d bs st))" for bs
    using assms register_quote_inv [OF assms]
    by (auto simp: handle_client_msg_def split: option.split ClientMsg.split)
  show ?thesis
    using assms(1) deregister_inv [OF assms] msg send
    by (auto simp: conn_item_def split: WsItem.split option.split prod.split) (metis snd_conv)+
qed

lemma router_step_inv:
  assumes "router_step w s t" "router_inv s"
  shows "router_inv t"
  using assms
proof cases
  case (accept header query_token st n k)
  with assms(2) show ?thesis
    by (simp add: router_inv_def)
next
  case (started st k)
  with assms(2) show ?thesis
    by (auto intro: open_conn_inv)
next
  case (item st d env k why now_millis it)
  with assms(2) show ?thesis
    by (auto intro: conn_item_inv)
next
  case (writer k st d)
  with assms(2) show ?thesis
    by (simp add: router_inv_def)
next
  case (routed env k st batch)
  with assms(2) show ?thesis
    by (auto intro: deliver_inv)
qed

definition router_init :: "nat \<times> RouterState \<Rightarrow> bool" where
  "router_init s \<longleftrightarrow> (\<exists>c. s = (0, RouterState_new c))"

lemma router_init_inv: "router_init s \<Longrightarrow> router_inv s"
  by (auto simp: router_init_def router_inv_def RouterState_new_def quotes_ok_def shows_quotes_def standing_def)

interpretation router_system: invariant_system router_init "router_step w" router_inv for w
  by unfold_locales (erule router_init_inv, erule router_step_inv)


text \<open>
  C8: a delivery reaches every exchange it is for and uses up its quotes. Each open
  connection is sent the handover frames of its notes, in batch order, and nothing
  else; a frame built from the bytes of a note is read back as a handover of that
  note and amount; exactly the quotes the batch used are gone, and the published
  snapshot shows what is left.
\<close>

theorem deliver_exact:
  assumes "router_inv (k, st)" "renv_ok env" "lawful_wire w" "st' = deliver w env batch st"
  shows "(\<forall>d. rs_conns st' d = map_option (\<lambda>c. c\<lparr>outbox := outbox c @
        (if writer_open c then map (\<lambda>it. handover_frame w (rn_note_bytes it) (rn_fill it))
           (filter (\<lambda>it. rn_dex it = d) (items batch)) else [])\<rparr>) (rs_conns st d))
    \<and> (\<forall>nt fill. read_from_bytes (server_codec w) (handover_frame w (enc (w_note w) nt) fill) = Some (HandoverMsg nt fill))
    \<and> (\<forall>d p. Option.bind (rs_quotes st' d) (\<lambda>m. m p)
         = (if \<exists>it \<in> set (items batch). rn_dex it = d \<and> rn_pair it = p then None
            else Option.bind (rs_quotes st d) (\<lambda>m. m p)))
    \<and> shows_quotes (rs_published st') (rs_quotes st') \<and> router_inv (k, st')"
proof -
  note I = router_invD [OF assms(1)]
  note R = deliver_result [OF I(1,2) assms(2), of w batch]
  let ?fr = "\<lambda>it. handover_frame w (rn_note_bytes it) (rn_fill it)"
  have conns: "rs_conns st' d = map_option (\<lambda>c. c\<lparr>outbox := outbox c @
        (if writer_open c then map ?fr (filter (\<lambda>it. rn_dex it = d) (items batch)) else [])\<rparr>) (rs_conns st d)" for d
  proof (cases "rs_conns st d")
    case None
    then have "d \<notin> dom (rs_conns (fold (\<lambda>it. send_frame (rn_dex it) (?fr it)) (items batch) st))"
      unfolding fold_send_frame by blast
    with None show ?thesis
      by (simp add: assms(4) R(2) domIff)
  next
    case (Some c)
    with fold_send_outbox [OF Some, of ?fr "items batch"] show ?thesis
      by (simp add: assms(4) R(2))
  qed
  have frame: "read_from_bytes (server_codec w) (handover_frame w (enc (w_note w) nt) fill) = Some (HandoverMsg nt fill)" for nt fill
    using lawful_read_from_bytes [OF server_lawful [OF assms(3)], of "HandoverMsg nt fill"]
    by (simp add: server_codec_def handover_frame_def)
  have "Option.bind (rs_quotes st' d) (\<lambda>m. m p) = (if \<exists>it \<in> set (items batch). rn_dex it = d \<and> rn_pair it = p then None
      else Option.bind (rs_quotes st d) (\<lambda>m. m p))" for d p
    unfolding assms(4) R(1) used_def by (cases "rs_quotes st d") auto
  with conns frame R(5) deliver_inv [OF assms(1,2), of w batch] show ?thesis
    unfolding assms(4) by blast
qed

section \<open>Where the server is not atomic\<close>

text \<open>
  A snapshot is built under the lock of the quotes but sent after it. Let one
  exchange register a quote while a delivery to another one runs to its end between
  the two halves: the older snapshot is published last.
\<close>

lemma standing_insert_other:
  "d \<noteq> d' \<Longrightarrow> rs_quotes st d' = Some m \<Longrightarrow> m p = Some q \<Longrightarrow> q \<in> standing (rs_quotes (insert_quote d p' q' st)) p"
  by (auto simp: standing_def insert_quote_def)

lemma shows_in:
  assumes "shows_quotes snap Q" "q \<in> standing Q p"
  shows "\<exists>l. snap p = Some l \<and> q \<in> set l"
  using assms unfolding shows_quotes_def by (metis (mono_tags, lifting) empty_iff option.case_eq_if option.collapse)

text \<open>
  C15: a quote that was already used can be offered to the matcher again. Take a state
  with a standing quote of one exchange, and let another exchange register a quote. If
  the delivery that uses up the first quote runs between the moment the registration
  builds its snapshot and the moment it sends it, then afterwards the published
  snapshot lists the used quote although it is no longer standing.
\<close>

theorem republish_race:
  assumes "router_inv (k, st)" "renv_ok env" "renv_ok env'" "d \<noteq> d'"
    and "rs_quotes st d' = Some m" "m p = Some q" "q_dex q = d'"
    and "q_dex q' = d" "q_pair q' = p'" "q_supply q' \<noteq> 0" "q_demand q' \<noteq> 0" "rs_conns st d \<noteq> None"
    and "it \<in> set (items batch)" "rn_dex it = d'" "rn_pair it = p"
    and "st1 = insert_quote d p' q' st" "snap = build_snapshot env st1"
    and "st2 = deliver w env' batch st1" "st3 = send_snapshot snap st2"
  shows "(\<exists>l. rs_published st3 p = Some l \<and> q \<in> set l) \<and> (\<forall>m'. rs_quotes st3 d' = Some m' \<longrightarrow> m' p = None)"
proof -
  note I = router_invD [OF assms(1)]
  have ok1: "quotes_ok (rs_quotes st1)"
    unfolding assms(16) by (rule insert_quote_ok [OF I(1)]) (use assms(8-11) in \<open>simp_all add: quote_valid_def\<close>)
  have "q \<in> standing (rs_quotes st1) p"
    unfolding assms(16) by (rule standing_insert_other [OF assms(4-6)])
  from shows_in [OF build_snapshot_shows [OF assms(2) ok1] this]
  have "\<exists>l. rs_published st3 p = Some l \<and> q \<in> set l"
    by (simp add: assms(17,19) send_snapshot_def)
  moreover have "rs_quotes st3 d' = map_option (\<lambda>m p. if used (items batch) d' p then None else m p) (rs_quotes st1 d')"
  proof -
    have "rs_quotes (deliver w env' batch st1) d' = map_option (\<lambda>m p. if used (items batch) d' p then None else m p) (rs_quotes st1 d')"
      by (simp add: deliver_def Let_def split_beta consume_fold fold_send_frame)
    then show ?thesis
      by (simp add: assms(18,19) send_snapshot_def)
  qed
  moreover have "used (items batch) d' p"
    using assms(13-15) by (auto simp: used_def)
  ultimately show ?thesis
    by auto
qed

section \<open>Concrete instances\<close>

definition sample_router_cfg :: RouterConfig where
  "sample_router_cfg = \<lparr>rc_bind = ''127.0.0.1'', rc_port = 8080, max_connections = 1, max_msg_bytes = 1024,
     quote_ttl_ms = 5000, auth_tokens = [''secret'']\<rparr>"

definition sample_renv :: router_env where
  "sample_renv = \<lparr>re_dexes = sorted_list_of_set, re_pairs = sorted_list_of_set\<rparr>"

lemma sample_renv_ok: "renv_ok sample_renv"
  by (simp add: renv_ok_def sample_renv_def walks_sorted_list)

definition two_conns :: RouterState where
  "two_conns = snd (open_conn tiny_wire (snd (open_conn tiny_wire (RouterState_new sample_router_cfg))))"

definition quoted :: RouterState where
  "quoted = snd (register_quote sample_renv 10 1 \<lparr>faucet_id = 2, asset_amount = 5\<rparr> \<lparr>faucet_id = 1, asset_amount = 4\<rparr> None two_conns :: nat ServerMsg option \<times> RouterState)"

lemma two_conns_conns: "rs_conns two_conns 1 \<noteq> None" "rs_conns two_conns 2 \<noteq> None" "conn_count two_conns = 2"
  by code_simp+

lemma two_conns_reached:
  "(router_step tiny_wire)\<^sup>*\<^sup>* (0, RouterState_new sample_router_cfg) (0, two_conns)"
proof -
  let ?s = "RouterState_new sample_router_cfg" and ?t = "snd (open_conn tiny_wire (RouterState_new sample_router_cfg))"
  have a: "ws_handler (Some ''Bearer secret'') None ?s = Upgrade 1024"
    by code_simp
  have d: "next_dex ?s \<noteq> - 1" "next_dex ?t \<noteq> - 1"
    by code_simp+
  have "router_step tiny_wire (0, ?s) (Suc 0, ?s)" "router_step tiny_wire (Suc 0, ?s) (Suc (Suc 0), ?s)"
    by (rule router_step.accept [OF a])+
  moreover have "router_step tiny_wire (Suc (Suc 0), ?s) (Suc 0, ?t)"
    by (rule router_step.started [OF d(1)])
  moreover have "router_step tiny_wire (Suc 0, ?t) (0, two_conns)"
    unfolding two_conns_def by (rule router_step.started [OF d(2)])
  ultimately show ?thesis
    by (meson converse_rtranclp_into_rtranclp rtranclp.rtrancl_refl)
qed

text \<open>The capacity check and the counting of a connection are separate steps, so the limit can be exceeded.\<close>

lemma capacity_exceeded:
  "\<exists>st. (router_step tiny_wire)\<^sup>*\<^sup>* (0, RouterState_new sample_router_cfg) (0, st) \<and> conn_count st > max_connections sample_router_cfg"
  using two_conns_reached two_conns_conns(3) by (intro exI [of _ two_conns]) (simp add: sample_router_cfg_def)

lemma quoted_inv: "router_inv (0, quoted)"
proof -
  have "router_inv (0, two_conns)"
    by (rule router_system.reachable_inv [OF _ two_conns_reached]) (auto simp: router_init_def)
  from register_quote_inv [OF this sample_renv_ok two_conns_conns(1)] show ?thesis
    unfolding quoted_def .
qed

definition sample_standing :: Quote where
  "sample_standing = \<lparr>q_dex = 1, q_pair = (1, 2), q_supply = 5, q_demand = 4, q_expires_at = 5010\<rparr>"

lemma quoted_quotes: "rs_quotes quoted = [1 \<mapsto> [(1, 2) \<mapsto> sample_standing]]" "rs_conns quoted = rs_conns two_conns"
  by (simp_all add: quoted_def register_quote_def insert_quote_def two_conns_def open_conn_def RouterState_new_def Let_def
      sample_standing_def sample_router_cfg_def saturating_add_def)


definition sample_delivery :: RouteBatch where
  "sample_delivery = \<lparr>items = [\<lparr>rn_dex = 1, rn_note_id = 6, rn_fill = 3, rn_pair = (1, 2), rn_note_bytes = enc unary 6\<rparr>]\<rparr>"

theorem deliver_exact_witness:
  "router_inv (0, deliver tiny_wire sample_renv sample_delivery quoted)
   \<and> Option.bind (rs_quotes (deliver tiny_wire sample_renv sample_delivery quoted) 1) (\<lambda>m. m (1, 2)) = None"
  using deliver_exact [OF quoted_inv sample_renv_ok tiny_wire_lawful refl, of sample_delivery]
  by (auto simp: sample_delivery_def)

theorem republish_race_witness:
  "\<exists>l. rs_published (send_snapshot (build_snapshot sample_renv
       (insert_quote 2 (1, 2) (sample_standing\<lparr>q_dex := 2\<rparr>) quoted))
     (deliver tiny_wire sample_renv sample_delivery (insert_quote 2 (1, 2) (sample_standing\<lparr>q_dex := 2\<rparr>) quoted))) (1, 2) = Some l
   \<and> sample_standing \<in> set l"
  using republish_race [where w = tiny_wire, OF quoted_inv sample_renv_ok sample_renv_ok, of 2 1 "[(1, 2) \<mapsto> sample_standing]" "(1, 2)" sample_standing
      "sample_standing\<lparr>q_dex := 2\<rparr>" "(1, 2)" "hd (items sample_delivery)" sample_delivery, OF _ _ _ _ _ _ _ _ _ _ _ _ refl refl refl refl]
    two_conns_conns(2)
  by (simp add: quoted_quotes sample_standing_def sample_delivery_def)

end
