(* ===== verification/Ingest.thy ===== *)
theory Ingest
  imports Db
begin

text \<open>
  Note ingestion, \<open>ingest/ingest.rs\<close>: each iteration syncs with the node, marks the
  orders whose notes were consumed, stores the new orders and forwards those that
  were not stored before. What the protocol crates answer about a note is the record
  \<open>chain\<close>; what the node, the store and the channels do during one iteration is the
  record \<open>ingest_env\<close>. The adapter to the client library is modelled on the answers of
  that library.
\<close>

section \<open>Data\<close>

record 'n chain =
  ch_is_pswap :: "'n \<Rightarrow> bool"
  ch_parse :: "'n \<Rightarrow> Pswap option"
  ch_id :: "'n \<Rightarrow> OrderId"
  ch_write :: "'n \<Rightarrow> bytes"
  ch_id_bytes :: "OrderId \<Rightarrow> bytes"
  ch_account_bytes :: "nat \<Rightarrow> bytes"

record 'n SyncResult =
  sr_block_num :: u64
  sr_new_notes :: "'n list"
  sr_consumed_notes :: "OrderId list"

text \<open>
  Per field: the result of the sync, whether the store takes the two writes, how many
  sends the channels to the matcher accept before they are closed (\<open>None\<close>: all), and
  the clock read when the row of a note is built.
\<close>

record 'n ingest_env =
  ie_sync :: "'n SyncResult option"
  ie_mark_write :: bool
  ie_insert_write :: bool
  ie_consumed_tx :: "nat option"
  ie_order_tx :: "nat option"
  ie_now :: "'n \<Rightarrow> i64"

datatype ingest_error = SyncFailed | MarkFailed | InsertFailed | MatcherClosed

definition accepted :: "nat option \<Rightarrow> 'a list \<Rightarrow> 'a list" where
  "accepted closes_after xs = (case closes_after of None \<Rightarrow> xs | Some k \<Rightarrow> take k xs)"

section \<open>One iteration\<close>

definition ingest_record :: "'n chain \<Rightarrow> ('n \<Rightarrow> i64) \<Rightarrow> 'n \<Rightarrow> (NoteRow \<times> OrderRow \<times> IngestOrder) option" where
  "ingest_record ch now nt =
     (if \<not> ch_is_pswap ch nt then None
      else case from_note (ch_parse ch) nt of
        Inl _ \<Rightarrow> None
      | Inr ord \<Rightarrow>
          (let note_id_bytes = ch_id_bytes ch (ch_id ch nt); raw_data = ch_write ch nt in
           Some (\<lparr>nr_note_id = note_id_bytes, nr_account_id = ch_account_bytes ch (creator_id ord), nr_raw_data = raw_data\<rparr>,
                 \<lparr>or_note_id = note_id_bytes, or_account_id = ch_account_bytes ch (creator_id ord),
                  or_requested_asset = ch_account_bytes ch (requested_faucet_id ord),
                  or_requested_amount = requested_amount ord,
                  or_offered_asset = ch_account_bytes ch (offered_faucet_id ord),
                  or_offered_amount = offered_amount ord, or_timestamp = now nt, or_status = as_str Active\<rparr>,
                 \<lparr>io_note_id = ch_id ch nt, io_offered_token = offered_faucet_id ord,
                  io_requested_token = requested_faucet_id ord, io_offered_amount = offered_amount ord,
                  io_requested_amount = requested_amount ord, io_raw_note_data = raw_data\<rparr>)))"

text \<open>The result, the store, the consumed ids and the orders that reached the matcher's channels.\<close>

definition ingest_once :: "'n chain \<Rightarrow> 'n ingest_env \<Rightarrow> Db
    \<Rightarrow> (ingest_error + unit) \<times> Db \<times> OrderId list \<times> IngestOrder list" where
  "ingest_once ch env db =
     (case ie_sync env of
        None \<Rightarrow> (Inl SyncFailed, db, [], [])
      | Some sr \<Rightarrow>
        let consumed = sr_consumed_notes sr in
        if consumed \<noteq> [] \<and> \<not> ie_mark_write env then (Inl MarkFailed, db, [], [])
        else
          let db1 = (if consumed \<noteq> [] then snd (mark_orders_onchain_nullified (map (ch_id_bytes ch) consumed) db) else db);
              consumed_sent = accepted (ie_consumed_tx env) consumed;
              recs = List.map_filter (ingest_record ch (ie_now env)) (sr_new_notes sr)
          in if recs = [] then (Inr (), db1, consumed_sent, [])
             else if \<not> ie_insert_write env then (Inl InsertFailed, db1, consumed_sent, [])
             else
               let (inserted, db2) = insert_notes_batch (map fst recs) (map (fst \<circ> snd) recs) (sr_block_num sr) db1;
                   fwd = filter (\<lambda>o1. ch_id_bytes ch (io_note_id o1) \<in> inserted) (map (snd \<circ> snd) recs);
                   sent = accepted (ie_order_tx env) fwd
               in (if length sent < length fwd then Inl MatcherClosed else Inr (), db2, consumed_sent, sent))"

section \<open>The loop\<close>

record ingest_state =
  ig_db :: Db
  ig_consumed :: "OrderId list"
  ig_orders :: "IngestOrder list"
  ig_last_sync :: i64

definition ingest_iteration :: "'n chain \<Rightarrow> 'n ingest_env \<Rightarrow> i64 \<Rightarrow> ingest_state \<Rightarrow> ingest_state" where
  "ingest_iteration ch env now st =
     (let (res, db', consumed, os) = ingest_once ch env (ig_db st)
      in \<lparr>ig_db = db', ig_consumed = ig_consumed st @ consumed, ig_orders = ig_orders st @ os,
          ig_last_sync = (case res of Inl _ \<Rightarrow> ig_last_sync st | Inr _ \<Rightarrow> now)\<rparr>)"

text \<open>A finite prefix of the loop; the flag says that cancellation is observed after the iteration.\<close>

fun run_ingest :: "'n chain \<Rightarrow> ('n ingest_env \<times> i64 \<times> bool) list \<Rightarrow> ingest_state \<Rightarrow> ingest_state" where
  "run_ingest ch [] st = st"
| "run_ingest ch ((env, now, cancelled) # es) st =
     (let st' = ingest_iteration ch env now st in if cancelled then st' else run_ingest ch es st')"

section \<open>The adapter\<close>

record SyncSummary =
  sm_block_num :: u64
  sm_new_public_notes :: "OrderId list"
  sm_new_private_notes :: "OrderId list"
  sm_consumed_notes :: "OrderId list"

text \<open>\<open>get_note\<close>: the stored note, if it is there, readable and convertible.\<close>

definition adapter_sync_state :: "SyncSummary option \<Rightarrow> (OrderId \<Rightarrow> 'n option) \<Rightarrow> 'n SyncResult option" where
  "adapter_sync_state summary get_note =
     (case summary of
        None \<Rightarrow> None
      | Some s \<Rightarrow>
          Some \<lparr>sr_block_num = sm_block_num s,
                sr_new_notes = List.map_filter get_note (sm_new_public_notes s @ sm_new_private_notes s),
                sr_consumed_notes = sm_consumed_notes s\<rparr>)"

text \<open>The tags the client listens to; \<open>asset_ok\<close>: an asset of the faucet can be made, \<open>tag_ok\<close>: the client takes the tag.\<close>

definition subscribe_pair :: "(TokenId \<Rightarrow> bool) \<Rightarrow> (TokenId \<Rightarrow> TokenId \<Rightarrow> 't) \<Rightarrow> bool \<Rightarrow> TokenId \<Rightarrow> TokenId \<Rightarrow> 't set
    \<Rightarrow> bool \<times> 't set" where
  "subscribe_pair asset_ok create_tag tag_ok offered_id requested_id tags =
     (if \<not> asset_ok offered_id then (False, tags)
      else if \<not> asset_ok requested_id then (False, tags)
      else if tag_ok then (True, insert (create_tag offered_id requested_id) tags)
      else (False, tags))"

definition nullifier_ids :: "('n \<Rightarrow> 'f) \<Rightarrow> ('n \<Rightarrow> OrderId) \<Rightarrow> 'n list \<Rightarrow> 'f \<Rightarrow> OrderId option" where
  "nullifier_ids nullifier note_id nts = fold (\<lambda>nt m. m(nullifier nt \<mapsto> note_id nt)) nts Map.empty"

definition check_consumed_notes :: "('n \<Rightarrow> 'f) \<Rightarrow> ('n \<Rightarrow> OrderId) \<Rightarrow> ('f set \<Rightarrow> ('f \<times> nat option) list option) \<Rightarrow> 'n list
    \<Rightarrow> OrderId set option" where
  "check_consumed_notes nullifier note_id get_heights nts =
     (if nts = [] then Some {}
      else case get_heights (nullifier ` set nts) of
        None \<Rightarrow> None
      | Some heights \<Rightarrow>
          Some (fold (\<lambda>(f, h) consumed.
              if h \<noteq> None then (case nullifier_ids nullifier note_id nts f of None \<Rightarrow> consumed | Some i \<Rightarrow> insert i consumed)
              else consumed) heights {}))"

section \<open>What is stored for an order\<close>

text \<open>
  The order can be hydrated from the store: its two rows are there and decode to it.
\<close>

definition hydrates :: "'n chain \<Rightarrow> (bytes \<Rightarrow> OrderId option) \<Rightarrow> (bytes \<Rightarrow> TokenId option) \<Rightarrow> Db \<Rightarrow> IngestOrder \<Rightarrow> bool" where
  "hydrates ch read_id read_token db o1 \<longleftrightarrow>
     (\<exists>row nrow. t_orders db (ch_id_bytes ch (io_note_id o1)) = Some row
        \<and> t_notes db (ch_id_bytes ch (io_note_id o1)) = Some nrow
        \<and> decode_order read_id read_token row (nr_raw_data nrow) = Inr o1)"

definition readers_ok :: "'n chain \<Rightarrow> (bytes \<Rightarrow> OrderId option) \<Rightarrow> (bytes \<Rightarrow> TokenId option) \<Rightarrow> bool" where
  "readers_ok ch read_id read_token \<longleftrightarrow>
     (\<forall>i. read_id (ch_id_bytes ch i) = Some i) \<and> (\<forall>t. read_token (ch_account_bytes ch t) = Some t)"

definition db_paired :: "Db \<Rightarrow> bool" where
  "db_paired db \<longleftrightarrow> dom (t_notes db) = dom (t_orders db)"

definition sync_ok :: "'n chain \<Rightarrow> 'n ingest_env \<Rightarrow> bool" where
  "sync_ok ch env \<longleftrightarrow> (case ie_sync env of None \<Rightarrow> True | Some sr \<Rightarrow> distinct (map (ch_id ch) (sr_new_notes sr)))"

lemma ingest_record_Some:
  assumes "ingest_record ch now nt = Some (nr, orow, io)"
  shows "nr_note_id nr = ch_id_bytes ch (ch_id ch nt)" "or_note_id orow = ch_id_bytes ch (ch_id ch nt)"
    "io_note_id io = ch_id ch nt" "or_status orow = as_str Active"
    "readers_ok ch read_id read_token \<Longrightarrow> decode_order read_id read_token orow (nr_raw_data nr) = Inr io"
  using assms
  by (auto simp: ingest_record_def Let_def decode_order_def readers_ok_def split: if_splits sum.splits)

lemma readers_inj: "readers_ok ch read_id read_token \<Longrightarrow> inj (ch_id_bytes ch)"
  unfolding inj_def readers_ok_def by (metis option.inject)

lemma nullify_frame:
  "t_notes (snd (mark_orders_onchain_nullified ids db)) = t_notes db"
  "dom (t_orders (snd (mark_orders_onchain_nullified ids db))) = dom (t_orders db)"
  by (auto simp: mark_orders_onchain_nullified_def update_where_def Let_def split: option.splits)

lemma hydrates_nullify:
  assumes "hydrates ch read_id read_token db o1"
  shows "hydrates ch read_id read_token (snd (mark_orders_onchain_nullified ids db)) o1"
proof -
  obtain row nrow where r: "t_orders db (ch_id_bytes ch (io_note_id o1)) = Some row"
      "t_notes db (ch_id_bytes ch (io_note_id o1)) = Some nrow" "decode_order read_id read_token row (nr_raw_data nrow) = Inr o1"
    using assms by (auto simp: hydrates_def)
  have "decode_order read_id read_token (with_status row s) (nr_raw_data nrow) = Inr o1" for s
    using r(3) by (simp add: decode_order_def with_status_def split: option.splits)
  with r show ?thesis
    by (auto simp: hydrates_def mark_orders_onchain_nullified_def update_where_def Let_def)
qed

text \<open>The rows of one batch, with the ids of its notes distinct.\<close>

lemma batch_records:
  assumes "distinct (map (ch_id ch) nts)" "inj (ch_id_bytes ch)" "recs = List.map_filter (ingest_record ch now) nts"
  shows "distinct (map (io_note_id \<circ> snd \<circ> snd) recs)"
    "(nr, orow, io) \<in> set recs \<Longrightarrow> nr_note_id nr = ch_id_bytes ch (io_note_id io) \<and> or_note_id orow = ch_id_bytes ch (io_note_id io)
       \<and> or_status orow = as_str Active"
    "(nr, orow, io) \<in> set recs \<Longrightarrow> readers_ok ch read_id read_token \<Longrightarrow> decode_order read_id read_token orow (nr_raw_data nr) = Inr io"
proof -
  have "map (io_note_id \<circ> snd \<circ> snd) recs = map (ch_id ch) (filter (\<lambda>nt. ingest_record ch now nt \<noteq> None) nts)"
    unfolding assms(3)
  proof (induction nts)
    case (Cons nt nts)
    then show ?case
      by (cases "ingest_record ch now nt") (auto simp: List.map_filter_simps ingest_record_Some)
  qed (simp add: List.map_filter_simps)
  then show "distinct (map (io_note_id \<circ> snd \<circ> snd) recs)"
    using distinct_map_filter [OF assms(1)] by simp
  assume "(nr, orow, io) \<in> set recs"
  then obtain nt where r: "ingest_record ch now nt = Some (nr, orow, io)"
    unfolding assms(3) by (auto simp: List.map_filter_def)
  note R = ingest_record_Some [OF r]
  show "nr_note_id nr = ch_id_bytes ch (io_note_id io) \<and> or_note_id orow = ch_id_bytes ch (io_note_id io)
       \<and> or_status orow = as_str Active"
    using R(1-4) by simp
  assume "readers_ok ch read_id read_token"
  then show "decode_order read_id read_token orow (nr_raw_data nr) = Inr io"
    by (rule R(5))
qed

lemma insert_notes_origin:
  "t_notes (fold insert_note rs db) k = Some r \<Longrightarrow> t_notes db k = Some r \<or> (r \<in> set rs \<and> nr_note_id r = k)"
proof (induction rs arbitrary: db)
  case (Cons x rs)
  then have "t_notes (insert_note x db) k = Some r \<or> (r \<in> set rs \<and> nr_note_id r = k)"
    by simp
  then show ?case
    by (auto simp: insert_note_def split: if_splits)
qed simp

lemma insert_batch_hydrates:
  assumes rd: "readers_ok ch read_id read_token" and pr: "db_paired db"
    and ids: "distinct (map (ch_id ch) nts)" and recs: "recs = List.map_filter (ingest_record ch now) nts"
    and ins: "insert_notes_batch (map fst recs) (map (fst \<circ> snd) recs) block db = (inserted, db')"
  shows "db_paired db'" "dom (t_orders db) \<subseteq> dom (t_orders db')"
    "inserted = (\<lambda>io. ch_id_bytes ch (io_note_id io)) ` set (map (snd \<circ> snd) recs) - dom (t_orders db)"
    "hydrates ch read_id read_token db o1 \<Longrightarrow> hydrates ch read_id read_token db' o1"
    "io \<in> set (map (snd \<circ> snd) recs) \<Longrightarrow> ch_id_bytes ch (io_note_id io) \<in> inserted \<Longrightarrow>
       hydrates ch read_id read_token db' io \<and> (\<exists>row. t_orders db' (ch_id_bytes ch (io_note_id io)) = Some row \<and> or_status row = as_str Active)"
proof -
  note B = batch_records [OF ids readers_inj [OF rd] recs]
  have idr: "or_note_id orow = ch_id_bytes ch (io_note_id io) \<and> nr_note_id nr = ch_id_bytes ch (io_note_id io)" if "(nr, orow, io) \<in> set recs" for nr orow io
    using B(2) [OF that] by simp
  have "\<forall>r \<in> set (map (fst \<circ> snd) recs). status_check (or_status r)"
    using B(2) by (auto simp: status_check_def)
  note R = insert_notes_batch_result [OF this ins]
  have oid: "or_note_id ` set (map (fst \<circ> snd) recs) = (\<lambda>io. ch_id_bytes ch (io_note_id io)) ` set (map (snd \<circ> snd) recs)"
    using idr by force
  then show inserted: "inserted = (\<lambda>io. ch_id_bytes ch (io_note_id io)) ` set (map (snd \<circ> snd) recs) - dom (t_orders db)"
    using R by simp
  have nid: "nr_note_id ` set (map fst recs) = (\<lambda>io. ch_id_bytes ch (io_note_id io)) ` set (map (snd \<circ> snd) recs)"
    using idr by force
  have notes': "t_notes db' = t_notes (fold insert_note (map fst recs) db)"
    using ins insert_orders_result [of "map (fst \<circ> snd) recs" "fold insert_note (map fst recs) db" "{}"]
    by (auto simp: insert_notes_batch_def Let_def inserts_def split: prod.splits)
  have dn: "dom (t_notes db') = dom (t_notes db) \<union> nr_note_id ` set (map fst recs)"
    unfolding notes' by (rule insert_notes_dom)
  show "db_paired db'" "dom (t_orders db) \<subseteq> dom (t_orders db')"
    using R pr unfolding db_paired_def dn nid inserted by auto
  show "hydrates ch read_id read_token db o1 \<Longrightarrow> hydrates ch read_id read_token db' o1"
    using R unfolding hydrates_def by blast
  assume io: "io \<in> set (map (snd \<circ> snd) recs)" "ch_id_bytes ch (io_note_id io) \<in> inserted"
  let ?k = "ch_id_bytes ch (io_note_id io)"
  obtain nr orow where rc: "(nr, orow, io) \<in> set recs"
    using io(1) by force
  have uniq: "nr' = nr \<and> orow' = orow" if "(nr', orow', io') \<in> set recs" "ch_id_bytes ch (io_note_id io') = ?k" for nr' orow' io'
  proof -
    have "io_note_id io' = io_note_id io"
      using that(2) readers_inj [OF rd] by (simp add: inj_eq)
    moreover have "inj_on (io_note_id \<circ> snd \<circ> snd) (set recs)"
      using B(1) by (simp add: distinct_map)
    ultimately have "(nr', orow', io') = (nr, orow, io)"
      by (intro inj_onD [of "io_note_id \<circ> snd \<circ> snd", OF _ _ that(1) rc]) simp_all
    then show ?thesis
      by simp
  qed
  have k: "?k \<notin> dom (t_orders db)"
    using io(2) inserted by simp
  obtain row where row: "row \<in> set (map (fst \<circ> snd) recs)" "t_orders db' ?k = Some row" "or_note_id row = ?k"
    using R io(2) by blast
  then have orow: "t_orders db' ?k = Some orow"
    using uniq idr by force
  have "t_notes db ?k = None"
    using k pr unfolding db_paired_def by blast
  moreover have "t_notes db' ?k \<noteq> None"
    using dn nid io(1) by blast
  ultimately have "t_notes db' ?k = Some nr"
  proof -
    obtain nr' where n': "t_notes db' ?k = Some nr'"
      using \<open>t_notes db' ?k \<noteq> None\<close> by blast
    from insert_notes_origin [of "map fst recs" db ?k nr'] have "nr' \<in> set (map fst recs)" "nr_note_id nr' = ?k"
      using n' \<open>t_notes db ?k = None\<close> unfolding notes' by simp_all
    then show ?thesis
      using n' uniq idr by force
  qed
  with orow B(3) [OF rc rd] B(2) [OF rc]
  show "hydrates ch read_id read_token db' io \<and> (\<exists>row. t_orders db' ?k = Some row \<and> or_status row = as_str Active)"
    by (auto simp: hydrates_def)
qed

section \<open>Properties of ingestion\<close>

definition fresh_orders :: "'n chain \<Rightarrow> ('n \<Rightarrow> i64) \<Rightarrow> Db \<Rightarrow> 'n list \<Rightarrow> IngestOrder list" where
  "fresh_orders ch now db nts =
     filter (\<lambda>io. t_orders db (ch_id_bytes ch (io_note_id io)) = None)
       (map (snd \<circ> snd) (List.map_filter (ingest_record ch now) nts))"

definition forwarded_ok :: "'n chain \<Rightarrow> (bytes \<Rightarrow> OrderId option) \<Rightarrow> (bytes \<Rightarrow> TokenId option) \<Rightarrow> Db \<Rightarrow> Db \<Rightarrow> IngestOrder list \<Rightarrow> bool" where
  "forwarded_ok ch read_id read_token db db' os \<longleftrightarrow> distinct (map io_note_id os)
     \<and> (\<forall>o1 \<in> set os. t_orders db (ch_id_bytes ch (io_note_id o1)) = None \<and> hydrates ch read_id read_token db' o1)"

lemma accepted_subset: "set (accepted k xs) \<subseteq> set xs"
  by (auto simp: accepted_def dest: in_set_takeD split: option.splits)

lemma accepted_distinct: "distinct (map f xs) \<Longrightarrow> distinct (map f (accepted k xs))"
  by (auto simp: accepted_def take_map [symmetric] split: option.split)

lemma ingest_once_result:
  assumes rd: "readers_ok ch read_id read_token" and so: "sync_ok ch env" and pr: "db_paired db"
    and r: "ingest_once ch env db = (res, db', cs, os)"
  shows "db_paired db'" "dom (t_orders db) \<subseteq> dom (t_orders db')"
    "hydrates ch read_id read_token db o1 \<Longrightarrow> hydrates ch read_id read_token db' o1"
    "forwarded_ok ch read_id read_token db db' os"
    "res = Inr () \<Longrightarrow> \<exists>sr. ie_sync env = Some sr \<and> os = fresh_orders ch (ie_now env) db (sr_new_notes sr)"
proof -
  have "db_paired db' \<and> dom (t_orders db) \<subseteq> dom (t_orders db')
      \<and> (\<forall>o1. hydrates ch read_id read_token db o1 \<longrightarrow> hydrates ch read_id read_token db' o1)
      \<and> forwarded_ok ch read_id read_token db db' os
      \<and> (res = Inr () \<longrightarrow> (\<exists>sr. ie_sync env = Some sr \<and> os = fresh_orders ch (ie_now env) db (sr_new_notes sr)))"
  proof (cases "ie_sync env")
    case None
    then show ?thesis
      using r pr by (auto simp: ingest_once_def forwarded_ok_def)
  next
    case (Some sr)
    let ?C = "sr_consumed_notes sr"
    define db1 where "db1 = (if ?C \<noteq> [] then snd (mark_orders_onchain_nullified (map (ch_id_bytes ch) ?C) db) else db)"
    define recs where "recs = List.map_filter (ingest_record ch (ie_now env)) (sr_new_notes sr)"
    have d1: "dom (t_orders db1) = dom (t_orders db)" "t_notes db1 = t_notes db"
      by (simp_all add: db1_def nullify_frame)
    have p1: "db_paired db1"
      using pr by (simp add: db_paired_def d1)
    have h1: "hydrates ch read_id read_token db1 o1" if "hydrates ch read_id read_token db o1" for o1
      using that by (simp add: db1_def hydrates_nullify)
    have none: "t_orders db1 k = None \<longleftrightarrow> t_orders db k = None" for k
      using d1(1) by blast
    consider (mark) "?C \<noteq> [] \<and> \<not> ie_mark_write env"
      | (none) "\<not> (?C \<noteq> [] \<and> \<not> ie_mark_write env)" "recs = []"
      | (insert) "\<not> (?C \<noteq> [] \<and> \<not> ie_mark_write env)" "recs \<noteq> []" "\<not> ie_insert_write env"
      | (sent) "\<not> (?C \<noteq> [] \<and> \<not> ie_mark_write env)" "recs \<noteq> []" "ie_insert_write env"
      by blast
    then show ?thesis
    proof cases
      case mark
      then show ?thesis
        using r pr Some by (auto simp: ingest_once_def forwarded_ok_def Let_def)
    next
      case none
      then have "db' = db1" "os = []" "res = Inr ()"
        using r Some by (simp_all add: ingest_once_def Let_def db1_def recs_def split: if_splits)
      then show ?thesis
        using p1 d1 h1 Some none(2) by (simp add: forwarded_ok_def fresh_orders_def recs_def)
    next
      case insert
      then have "db' = db1" "os = []" "res = Inl InsertFailed"
        using r Some by (simp_all add: ingest_once_def Let_def db1_def recs_def split: if_splits)
      then show ?thesis
        using p1 d1 h1 by (simp add: forwarded_ok_def)
    next
      case sent
      obtain inserted db2 where i: "insert_notes_batch (map fst recs) (map (fst \<circ> snd) recs) (sr_block_num sr) db1 = (inserted, db2)"
        by fastforce
      let ?fwd = "filter (\<lambda>o1. ch_id_bytes ch (io_note_id o1) \<in> inserted) (map (snd \<circ> snd) recs)"
      have "ingest_once ch env db = (if length (accepted (ie_order_tx env) ?fwd) < length ?fwd then Inl MatcherClosed else Inr (),
          db2, accepted (ie_consumed_tx env) ?C, accepted (ie_order_tx env) ?fwd)"
        using Some sent i unfolding db1_def recs_def by (simp add: ingest_once_def Let_def)
      then have e: "db' = db2" "os = accepted (ie_order_tx env) ?fwd"
          "res = (if length os < length ?fwd then Inl MatcherClosed else Inr ())"
        unfolding r by (simp_all only: prod.inject)
      have ids: "distinct (map (ch_id ch) (sr_new_notes sr))"
        using so Some by (simp add: sync_ok_def)
      note I = insert_batch_hydrates [OF rd p1 ids recs_def i]
      have fwd: "?fwd = fresh_orders ch (ie_now env) db (sr_new_notes sr)"
        unfolding fresh_orders_def recs_def [symmetric] I(3) d1(1) by (auto intro!: filter_cong simp: domIff)
      have dist: "distinct (map io_note_id ?fwd)"
        by (rule distinct_map_filter) (use batch_records(1) [OF ids readers_inj [OF rd] recs_def] in \<open>simp only: map_map o_assoc\<close>)
      have "t_orders db (ch_id_bytes ch (io_note_id o1)) = None \<and> hydrates ch read_id read_token db' o1" if o: "o1 \<in> set os" for o1
      proof -
        have "o1 \<in> set ?fwd"
          by (rule subsetD [OF accepted_subset o [unfolded e(2)]])
        then have "o1 \<in> set (map (snd \<circ> snd) recs)" "ch_id_bytes ch (io_note_id o1) \<in> inserted"
          by simp_all
        with I(5) [OF this] I(3) none show ?thesis
          by (auto simp: e(1) domIff)
      qed
      then have "forwarded_ok ch read_id read_token db db' os"
        using accepted_distinct [OF dist] by (simp add: forwarded_ok_def e(2))
      moreover have "os = ?fwd" if "res = Inr ()"
        using that e(2,3) by (auto simp: accepted_def split: option.splits if_splits)
      ultimately show ?thesis
        using I(1,2,4) h1 d1(1) Some fwd unfolding e(1) by auto
    qed
  qed
  then show "db_paired db'" "dom (t_orders db) \<subseteq> dom (t_orders db')"
    "hydrates ch read_id read_token db o1 \<Longrightarrow> hydrates ch read_id read_token db' o1"
    "forwarded_ok ch read_id read_token db db' os"
    "res = Inr () \<Longrightarrow> \<exists>sr. ie_sync env = Some sr \<and> os = fresh_orders ch (ie_now env) db (sr_new_notes sr)"
    by blast+
qed

text \<open>Everything forwarded so far was forwarded once and can be hydrated.\<close>

definition ingest_inv :: "'n chain \<Rightarrow> (bytes \<Rightarrow> OrderId option) \<Rightarrow> (bytes \<Rightarrow> TokenId option) \<Rightarrow> ingest_state \<Rightarrow> bool" where
  "ingest_inv ch read_id read_token st \<longleftrightarrow> db_paired (ig_db st) \<and> distinct (map io_note_id (ig_orders st))
     \<and> (\<forall>o1 \<in> set (ig_orders st). hydrates ch read_id read_token (ig_db st) o1)"

lemma ingest_iteration_inv:
  assumes rd: "readers_ok ch read_id read_token" and so: "sync_ok ch env" and inv: "ingest_inv ch read_id read_token st"
  shows "ingest_inv ch read_id read_token (ingest_iteration ch env now st)"
    and "\<exists>os. ig_orders (ingest_iteration ch env now st) = ig_orders st @ os
      \<and> (\<forall>o1 \<in> set os. t_orders (ig_db st) (ch_id_bytes ch (io_note_id o1)) = None)"
    and "dom (t_orders (ig_db st)) \<subseteq> dom (t_orders (ig_db (ingest_iteration ch env now st)))"
proof -
  obtain res db' cs os where r: "ingest_once ch env (ig_db st) = (res, db', cs, os)"
    by (metis prod_cases4)
  have pr: "db_paired (ig_db st)"
    using inv by (simp add: ingest_inv_def)
  note R = ingest_once_result [OF rd so pr r]
  have st': "ig_db (ingest_iteration ch env now st) = db'" "ig_orders (ingest_iteration ch env now st) = ig_orders st @ os"
    by (simp_all add: ingest_iteration_def r)
  have F: "distinct (map io_note_id os)" "\<forall>o1 \<in> set os. t_orders (ig_db st) (ch_id_bytes ch (io_note_id o1)) = None"
      "\<forall>o1 \<in> set os. hydrates ch read_id read_token db' o1"
    using R(4) by (auto simp: forwarded_ok_def)
  have "io_note_id ` set (ig_orders st) \<inter> io_note_id ` set os = {}"
  proof -
    have "t_orders (ig_db st) (ch_id_bytes ch (io_note_id o1)) \<noteq> None" if "o1 \<in> set (ig_orders st)" for o1
      using inv that by (auto simp: ingest_inv_def hydrates_def)
    with F(2) show ?thesis
      by fastforce
  qed
  then show "ingest_inv ch read_id read_token (ingest_iteration ch env now st)"
    using inv F R(1,3) by (auto simp: ingest_inv_def st')
  show "\<exists>os. ig_orders (ingest_iteration ch env now st) = ig_orders st @ os
      \<and> (\<forall>o1 \<in> set os. t_orders (ig_db st) (ch_id_bytes ch (io_note_id o1)) = None)"
    using st' F(2) by blast
  show "dom (t_orders (ig_db st)) \<subseteq> dom (t_orders (ig_db (ingest_iteration ch env now st)))"
    using R(2) st' by simp
qed

lemma run_ingest_result:
  assumes rd: "readers_ok ch read_id read_token"
  shows "\<forall>(env, x) \<in> set es. sync_ok ch env \<Longrightarrow> ingest_inv ch read_id read_token st \<Longrightarrow>
    ingest_inv ch read_id read_token (run_ingest ch es st)
    \<and> (\<exists>os. ig_orders (run_ingest ch es st) = ig_orders st @ os
        \<and> (\<forall>o1 \<in> set os. t_orders (ig_db st) (ch_id_bytes ch (io_note_id o1)) = None))"
proof (induction es arbitrary: st)
  case (Cons e es)
  obtain env now cancelled where e: "e = (env, now, cancelled)" by (metis prod_cases3)
  let ?st = "ingest_iteration ch env now st"
  have "sync_ok ch env" and so: "\<forall>(env, x) \<in> set es. sync_ok ch env"
    using Cons.prems(1) by (simp_all add: e)
  note I = ingest_iteration_inv [OF rd \<open>sync_ok ch env\<close> Cons.prems(2), of now]
  obtain os where os: "ig_orders ?st = ig_orders st @ os" "\<forall>o1 \<in> set os. t_orders (ig_db st) (ch_id_bytes ch (io_note_id o1)) = None"
    using I(2) by blast
  show ?case
  proof (cases cancelled)
    case True
    then show ?thesis
      using I(1) os by (simp add: e Let_def)
  next
    case False
    obtain os' where "ingest_inv ch read_id read_token (run_ingest ch es ?st)" "ig_orders (run_ingest ch es ?st) = ig_orders ?st @ os'"
        "\<forall>o1 \<in> set os'. t_orders (ig_db ?st) (ch_id_bytes ch (io_note_id o1)) = None"
      using Cons.IH [OF so I(1)] by blast
    moreover have "t_orders (ig_db st) k = None" if "t_orders (ig_db ?st) k = None" for k
      using I(3) that by blast
    ultimately show ?thesis
      using False os by (auto simp: e Let_def)
  qed
qed simp


text \<open>
  C16: a note that arrives and is consumed within one sync ends up tradable. The iteration
  marks consumed notes before it stores the new ones, so the mark finds no row: the
  order is then stored as active and forwarded to the matcher although its note is
  gone.
\<close>

theorem consumed_on_arrival_stays_active:
  assumes "readers_ok ch read_id read_token" "sync_ok ch env" "db_paired db"
    and "ie_sync env = Some sr" "nt \<in> set (sr_new_notes sr)" "ch_id ch nt \<in> set (sr_consumed_notes sr)"
    and "ingest_record ch (ie_now env) nt = Some (nr, orow, io)" "t_orders db (ch_id_bytes ch (ch_id ch nt)) = None"
    and "ie_mark_write env" "ie_insert_write env" "ie_order_tx env = None"
  shows "\<exists>db' cs os. ingest_once ch env db = (Inr (), db', cs, os) \<and> io \<in> set os
    \<and> map_option or_status (t_orders db' (ch_id_bytes ch (ch_id ch nt))) = Some (as_str Active)"
proof -
  let ?k = "ch_id_bytes ch (ch_id ch nt)" and ?C = "sr_consumed_notes sr"
  define db1 where "db1 = snd (mark_orders_onchain_nullified (map (ch_id_bytes ch) ?C) db)"
  define recs where "recs = List.map_filter (ingest_record ch (ie_now env)) (sr_new_notes sr)"
  have C: "?C \<noteq> []" "\<exists>x. x \<in> set ?C"
    using assms(6) by auto
  have p1: "db_paired db1" and n1: "?k \<notin> dom (t_orders db1)"
    using assms(3,8) by (auto simp: db_paired_def db1_def nullify_frame)
  have ids: "distinct (map (ch_id ch) (sr_new_notes sr))"
    using assms(2,4) by (simp add: sync_ok_def)
  have rc: "(nr, orow, io) \<in> set recs"
    using assms(5,7) unfolding recs_def by (force simp: List.map_filter_def)
  then have io: "io \<in> set (map (snd \<circ> snd) recs)" and ne: "recs \<noteq> []"
    by force+
  obtain inserted db2 where i: "insert_notes_batch (map fst recs) (map (fst \<circ> snd) recs) (sr_block_num sr) db1 = (inserted, db2)"
    by fastforce
  note I = insert_batch_hydrates [OF assms(1) p1 ids recs_def i]
  have k: "ch_id_bytes ch (io_note_id io) = ?k"
    using ingest_record_Some(3) [OF assms(7)] by simp
  have ins: "?k \<in> inserted"
    unfolding I(3) using io n1 k by force
  let ?fwd = "filter (\<lambda>o1. ch_id_bytes ch (io_note_id o1) \<in> inserted) (map (snd \<circ> snd) recs)"
  have "ingest_once ch env db = (Inr (), db2, accepted (ie_consumed_tx env) ?C, ?fwd)"
    using assms(4,9-11) C(1) ne i unfolding db1_def recs_def by (simp add: ingest_once_def Let_def accepted_def)
  moreover have "io \<in> set ?fwd"
    using io ins k by simp
  moreover have "map_option or_status (t_orders db2 ?k) = Some (as_str Active)"
    using I(5) [OF io] ins k by auto
  ultimately show ?thesis
    by blast
qed

section \<open>The nullifier query\<close>

lemma nullifier_ids_inj:
  assumes "inj_on nullifier (set nts)" "nt \<in> set nts"
  shows "nullifier_ids nullifier note_id nts (nullifier nt) = Some (note_id nt)"
proof -
  have "fold (\<lambda>nt m. m(nullifier nt \<mapsto> note_id nt)) ns m f
      = (if f \<in> nullifier ` set ns then Some (note_id (the_inv_into (set nts) nullifier f)) else m f)"
    if "set ns \<subseteq> set nts" for ns m f
    using that
  proof (induction ns arbitrary: m)
    case (Cons n ns)
    have "the_inv_into (set nts) nullifier (nullifier n) = n"
      using the_inv_into_f_f [OF assms(1), of n] Cons.prems by simp
    with Cons show ?case
      by auto
  qed simp
  from this [of nts Map.empty "nullifier nt"] assms show ?thesis
    by (simp add: nullifier_ids_def the_inv_into_f_f)
qed

lemma nullifier_ids_dom: "nullifier_ids nullifier note_id nts f = Some i \<Longrightarrow> \<exists>nt \<in> set nts. nullifier nt = f \<and> note_id nt = i"
proof -
  have "fold (\<lambda>nt m. m(nullifier nt \<mapsto> note_id nt)) ns m f = Some i
      \<Longrightarrow> m f = Some i \<or> (\<exists>nt \<in> set ns. nullifier nt = f \<and> note_id nt = i)" for ns m
  proof (induction ns arbitrary: m)
    case (Cons n ns)
    from Cons.IH [of "m(nullifier n \<mapsto> note_id n)"] Cons.prems show ?case
      by (auto split: if_splits)
  qed simp
  then show "nullifier_ids nullifier note_id nts f = Some i \<Longrightarrow> \<exists>nt \<in> set nts. nullifier nt = f \<and> note_id nt = i"
    by (fastforce simp: nullifier_ids_def)
qed

text \<open>When the node reports the commit height of every nullifier it is asked about, the query returns the consumed notes.\<close>

lemma check_consumed_notes_exact:
  assumes "inj_on nullifier (set nts)"
    and "get_heights (nullifier ` set nts) = Some heights"
    and "\<forall>nt \<in> set nts. (\<exists>h. (nullifier nt, Some h) \<in> set heights) \<longleftrightarrow> spent nt"
  shows "check_consumed_notes nullifier note_id get_heights nts = Some (note_id ` {nt \<in> set nts. spent nt})"
proof -
  let ?ids = "nullifier_ids nullifier note_id nts"
  have fold: "fold (\<lambda>(f, h) C. if h \<noteq> None then (case ?ids f of None \<Rightarrow> C | Some i \<Rightarrow> insert i C) else C) hs C
      = C \<union> {i. \<exists>f h. (f, Some h) \<in> set hs \<and> ?ids f = Some i}" for hs C
  proof (induction hs arbitrary: C)
    case (Cons fh hs)
    obtain f h where "fh = (f, h)" by fastforce
    with Cons.IH show ?case
      by (cases h; cases "?ids f") auto
  qed simp
  have "{i. \<exists>f h. (f, Some h) \<in> set heights \<and> ?ids f = Some i} = note_id ` {nt \<in> set nts. spent nt}"
    using nullifier_ids_inj [OF assms(1), of _ note_id] nullifier_ids_dom [of nullifier note_id nts] assms(3) by (auto simp: image_iff) blast+
  then show ?thesis
    unfolding check_consumed_notes_def fold using assms(2) by (cases "nts = []") auto
qed

section \<open>Concrete instances\<close>

definition tiny_chain :: "(nat \<times> Pswap) chain" where
  "tiny_chain = \<lparr>ch_is_pswap = (\<lambda>_. True), ch_parse = (\<lambda>nt. Some (snd nt)), ch_id = fst, ch_write = (\<lambda>nt. [of_nat (fst nt)]),
     ch_id_bytes = (\<lambda>i. replicate i 0), ch_account_bytes = (\<lambda>t. replicate t 1)\<rparr>"

definition tiny_pswap :: "nat \<times> Pswap" where
  "tiny_pswap = (3, \<lparr>ps_offered_faucet = 1, ps_offered_amount = 200, ps_requested_faucet = 2, ps_requested_amount = 100, ps_creator = 7\<rparr>)"

definition tiny_sync :: "(nat \<times> Pswap) ingest_env" where
  "tiny_sync = \<lparr>ie_sync = Some \<lparr>sr_block_num = 5, sr_new_notes = [tiny_pswap], sr_consumed_notes = [3]\<rparr>,
     ie_mark_write = True, ie_insert_write = True, ie_consumed_tx = None, ie_order_tx = None, ie_now = (\<lambda>_. 0)\<rparr>"

definition read_len :: "bytes \<Rightarrow> nat option" where
  "read_len bs = Some (length bs)"

lemma tiny_readers: "readers_ok tiny_chain read_len read_len"
  by (simp add: readers_ok_def tiny_chain_def read_len_def)

lemma tiny_sync_ok: "sync_ok tiny_chain tiny_sync" "db_paired db_new"
  by (simp_all add: sync_ok_def tiny_sync_def db_paired_def db_new_def)


theorem consumed_on_arrival_stays_active_witness:
  "\<exists>db' cs os. ingest_once tiny_chain tiny_sync db_new = (Inr (), db', cs, os)
    \<and> map_option or_status (t_orders db' (replicate 3 0)) = Some (as_str Active)"
proof -
  obtain nr orow io where r: "ingest_record tiny_chain (ie_now tiny_sync) tiny_pswap = Some (nr, orow, io)"
    by (simp add: ingest_record_def tiny_chain_def tiny_pswap_def from_note_def Let_def)
  have sy: "ie_sync tiny_sync = Some \<lparr>sr_block_num = 5, sr_new_notes = [tiny_pswap], sr_consumed_notes = [3]\<rparr>"
    by (simp add: tiny_sync_def)
  have "\<exists>db' cs os. ingest_once tiny_chain tiny_sync db_new = (Inr (), db', cs, os) \<and> io \<in> set os
    \<and> map_option or_status (t_orders db' (ch_id_bytes tiny_chain (ch_id tiny_chain tiny_pswap))) = Some (as_str Active)"
    by (rule consumed_on_arrival_stays_active [OF tiny_readers tiny_sync_ok sy _ _ r])
      (simp_all add: tiny_sync_def tiny_pswap_def tiny_chain_def db_new_def)
  then show ?thesis
    by (auto simp: tiny_chain_def tiny_pswap_def)
qed

end
