(* ===== verification/Token_Admin.thy ===== *)
theory Token_Admin
  imports Ingest Std_Text
begin

text \<open>
  The token registry as the running solver uses it: the admin API of
  \<open>admin/admin.rs\<close>, the shared symbol cache of \<open>price/token_map.rs\<close>, and the
  registration side of \<open>pipeline.rs\<close> (start-up of the store, subscription of all
  pairs, the subscribe relay and the metadata fetch). The hex and account-id codecs
  and the client are parameters. The lemmas show that the cache is always what a
  restart would load, and that no pair of registered tokens goes unwatched.
\<close>

type_synonym TokenMap = "TokenId \<Rightarrow> string option"

record token_codec =
  tc_hex_decode :: "string \<Rightarrow> bytes option"
  tc_hex_encode :: "bytes \<Rightarrow> string"
  tc_read :: "bytes \<Rightarrow> TokenId option"
  tc_write :: "TokenId \<Rightarrow> bytes"

definition codec_ok :: "token_codec \<Rightarrow> bool" where
  "codec_ok tc \<longleftrightarrow> (\<forall>t. tc_read tc (tc_write tc t) = Some t)"

section \<open>The admin API\<close>

record AdminState =
  as_db :: Db
  as_subscribe :: "(TokenId \<times> TokenId) list"
  as_token_map :: TokenMap

text \<open>
  Per request: whether the store takes the write and answers the listing, how many
  sends the subscribe channel accepts before it is closed, the clock, and the order
  in which the table is read.
\<close>

record admin_env =
  ae_write :: bool
  ae_load :: bool
  ae_accepts :: "nat option"
  ae_now :: i64
  ae_order :: "bytes set \<Rightarrow> bytes list"

definition load_tokens_from_db :: "token_codec \<Rightarrow> admin_env \<Rightarrow> AdminState \<Rightarrow> TokenId list option" where
  "load_tokens_from_db tc env st =
     (if \<not> ae_load env then None
      else case load_registered_tokens (ae_order env) (tc_read tc) (as_db st) of Inl _ \<Rightarrow> None | Inr ts \<Rightarrow> Some ts)"

definition set_cache :: "TokenId \<Rightarrow> string option \<Rightarrow> AdminState \<Rightarrow> AdminState" where
  "set_cache token smb st =
     (case smb of
        Some s \<Rightarrow> st\<lparr>as_token_map := (as_token_map st)(token \<mapsto> s)\<rparr>
      | None \<Rightarrow> st\<lparr>as_token_map := (as_token_map st)(token := None)\<rparr>)"

definition both_directions :: "TokenId \<Rightarrow> TokenId list \<Rightarrow> (TokenId \<times> TokenId) list" where
  "both_directions new_token existing =
     concat (map (\<lambda>token. if token \<noteq> new_token then [(new_token, token), (token, new_token)] else []) existing)"

text \<open>\<open>None\<close>: the call failed, and the row may have been written.\<close>

definition admin_register_token :: "token_codec \<Rightarrow> admin_env \<Rightarrow> TokenId \<Rightarrow> string option \<Rightarrow> AdminState
    \<Rightarrow> bool option \<times> AdminState" where
  "admin_register_token tc env new_token external_symbol st =
     (if \<not> ae_write env then (None, st)
      else
        let (inserted, db') = register_token (ae_now env) (tc_write tc new_token) external_symbol (as_db st);
            st1 = st\<lparr>as_db := db'\<rparr>
        in if \<not> inserted then (Some False, st1)
           else
             let st2 = (if external_symbol \<noteq> None then set_cache new_token external_symbol st1 else st1)
             in (case load_tokens_from_db tc env st2 of
                   None \<Rightarrow> (None, st2)
                 | Some existing \<Rightarrow>
                     (Some True, st2\<lparr>as_subscribe := as_subscribe st2 @ accepted (ae_accepts env) (both_directions new_token existing)\<rparr>)))"

record TokenRequest =
  tr_token_id :: string
  tr_external_symbol :: "string option"

datatype AdminResponse = TokenResponses "string list" | Answer StatusCode string

definition status_only :: "StatusCode \<Rightarrow> AdminResponse" where
  "status_only c = Answer c []"

definition list_tokens :: "token_codec \<Rightarrow> admin_env \<Rightarrow> AdminState \<Rightarrow> AdminResponse \<times> AdminState" where
  "list_tokens tc env st =
     (case load_tokens_from_db tc env st of
        None \<Rightarrow> (status_only ST_INTERNAL_SERVER_ERROR, st)
      | Some ts \<Rightarrow> (TokenResponses (map (\<lambda>t. tc_hex_encode tc (tc_write tc t)) ts), st))"

text \<open>The id of a request: the decoded bytes and the token they read as.\<close>

definition request_token :: "token_codec \<Rightarrow> TokenRequest \<Rightarrow> (bytes \<times> TokenId) option" where
  "request_token tc req =
     (case tc_hex_decode tc (tr_token_id req) of
        None \<Rightarrow> None
      | Some bs \<Rightarrow> (case tc_read tc bs of None \<Rightarrow> None | Some token \<Rightarrow> Some (bs, token)))"

definition add_token :: "token_codec \<Rightarrow> admin_env \<Rightarrow> TokenRequest \<Rightarrow> AdminState \<Rightarrow> AdminResponse \<times> AdminState" where
  "add_token tc env req st =
     (case request_token tc req of
        None \<Rightarrow> (status_only ST_BAD_REQUEST, st)
      | Some (bs, token) \<Rightarrow>
          (case admin_register_token tc env token (tr_external_symbol req) st of
             (None, st') \<Rightarrow> (status_only ST_INTERNAL_SERVER_ERROR, st')
           | (Some True, st') \<Rightarrow> (Answer ST_CREATED ''registered'', st')
           | (Some False, st') \<Rightarrow> (Answer ST_OK ''already registered'', st')))"

definition update_token_symbol_handler :: "token_codec \<Rightarrow> admin_env \<Rightarrow> TokenRequest \<Rightarrow> AdminState \<Rightarrow> AdminResponse \<times> AdminState" where
  "update_token_symbol_handler tc env req st =
     (case request_token tc req of
        None \<Rightarrow> (status_only ST_BAD_REQUEST, st)
      | Some (bs, token) \<Rightarrow>
          if \<not> ae_write env then (status_only ST_INTERNAL_SERVER_ERROR, st)
          else
            let (updated, db') = update_token_symbol bs (tr_external_symbol req) (as_db st); st1 = st\<lparr>as_db := db'\<rparr>
            in if \<not> updated then (status_only ST_NOT_FOUND, st1)
               else (status_only ST_OK, set_cache token (tr_external_symbol req) st1))"

definition remove_token :: "token_codec \<Rightarrow> admin_env \<Rightarrow> TokenRequest \<Rightarrow> AdminState \<Rightarrow> AdminResponse \<times> AdminState" where
  "remove_token tc env req st =
     (case request_token tc req of
        None \<Rightarrow> (status_only ST_BAD_REQUEST, st)
      | Some (bs, token) \<Rightarrow>
          if \<not> ae_write env then (status_only ST_INTERNAL_SERVER_ERROR, st)
          else
            let (deleted, db') = unregister_token bs (as_db st); st1 = st\<lparr>as_db := db'\<rparr>
            in if deleted then (status_only ST_OK, set_cache token None st1)
               else (status_only ST_NOT_FOUND, st1))"

definition require_bearer_token :: "string \<Rightarrow> string option \<Rightarrow> bool" where
  "require_bearer_token expected header =
     (case Option.bind header (strip_prefix ''Bearer '') of Some t \<Rightarrow> t = expected | None \<Rightarrow> False)"

datatype AdminRequest = ListTokens | AddToken TokenRequest | UpdateSymbol TokenRequest | RemoveToken TokenRequest

text \<open>The routes: without an admin token there are none, with one they sit behind the bearer check.\<close>

definition admin_router :: "token_codec \<Rightarrow> admin_env \<Rightarrow> string option \<Rightarrow> string option \<Rightarrow> AdminRequest \<Rightarrow> AdminState
    \<Rightarrow> AdminResponse \<times> AdminState" where
  "admin_router tc env admin_token header req st =
     (case admin_token of
        None \<Rightarrow> (status_only ST_NOT_FOUND, st)
      | Some token \<Rightarrow>
          if \<not> require_bearer_token token header then (status_only ST_UNAUTHORIZED, st)
          else case req of
            ListTokens \<Rightarrow> list_tokens tc env st
          | AddToken r \<Rightarrow> add_token tc env r st
          | UpdateSymbol r \<Rightarrow> update_token_symbol_handler tc env r st
          | RemoveToken r \<Rightarrow> remove_token tc env r st)"

section \<open>Start-up and the subscribe relay\<close>

record boot_env =
  be_reset :: bool
  be_seed :: bool
  be_load :: bool
  be_now :: "TokenId \<Rightarrow> i64"
  be_order :: "bytes set \<Rightarrow> bytes list"

text \<open>\<open>None\<close>: start-up fails. The cache is replaced by what the store holds.\<close>

definition prepare_db :: "token_codec \<Rightarrow> boot_env \<Rightarrow> (TokenId \<times> string option) list \<Rightarrow> Db \<Rightarrow> (Db \<times> TokenMap) option" where
  "prepare_db tc env initial_tokens db =
     (if \<not> be_reset env then None
      else
        let db1 = snd (reset_all_settling_to_active db)
        in if \<not> be_seed env then None
           else
             let db2 = seed_tokens_from_config (be_now env) (tc_write tc) initial_tokens db1
             in if \<not> be_load env then None
                else case load_token_symbols (be_order env) (tc_read tc) db2 of
                  Inl _ \<Rightarrow> None
                | Inr loaded \<Rightarrow> Some (db2, loaded))"

text \<open>
  The client as registration uses it: whether an asset of a faucet can be made, the tag
  of a pair, whether the client takes a tag, and the answer to a metadata query
  (\<open>None\<close>: an error; \<open>Some None\<close>: no metadata).
\<close>

record 't reg_client =
  rc_asset_ok :: "TokenId \<Rightarrow> bool"
  rc_create_tag :: "TokenId \<Rightarrow> TokenId \<Rightarrow> 't"
  rc_tag_ok :: "TokenId \<Rightarrow> TokenId \<Rightarrow> bool"
  rc_metadata :: "TokenId \<Rightarrow> (u8 \<times> string) option option"
  rc_db_read :: bool
  rc_db_write :: bool

definition ensure_token_metadata :: "token_codec \<Rightarrow> 't reg_client \<Rightarrow> TokenId \<Rightarrow> Db \<Rightarrow> Db" where
  "ensure_token_metadata tc cl token db =
     (let key = tc_write tc token
      in if \<not> rc_db_read cl then db
         else case get_registered_token key db of
           None \<Rightarrow> db
         | Some row \<Rightarrow>
             if rt_decimals row \<noteq> None then db
             else case rc_metadata cl token of
               Some (Some (decimals, ticker)) \<Rightarrow>
                 if rc_db_write cl then snd (set_token_metadata key (Some (uint decimals)) (Some ticker) db) else db
             | _ \<Rightarrow> db)"

definition client_subscribe :: "'t reg_client \<Rightarrow> TokenId \<Rightarrow> TokenId \<Rightarrow> 't set \<Rightarrow> bool \<times> 't set" where
  "client_subscribe cl offered requested tags =
     subscribe_pair (rc_asset_ok cl) (rc_create_tag cl) (rc_tag_ok cl offered requested) offered requested tags"

fun subscribe_each :: "'t reg_client \<Rightarrow> (TokenId \<times> TokenId) list \<Rightarrow> 't set \<Rightarrow> 't set option" where
  "subscribe_each cl [] tags = Some tags"
| "subscribe_each cl ((a, b) # ps) tags =
     (case client_subscribe cl a b tags of (True, tags') \<Rightarrow> subscribe_each cl ps tags' | (False, _) \<Rightarrow> None)"

definition ordered_pairs :: "TokenId list \<Rightarrow> (TokenId \<times> TokenId) list" where
  "ordered_pairs ts =
     concat (map (\<lambda>i. map (\<lambda>j. (ts ! i, ts ! j)) (filter (\<lambda>j. i \<noteq> j) [0..<length ts])) [0..<length ts])"

definition subscribe_all_pairs :: "token_codec \<Rightarrow> 't reg_client \<Rightarrow> (bytes set \<Rightarrow> bytes list) \<Rightarrow> Db \<Rightarrow> 't set \<Rightarrow> (Db \<times> 't set) option" where
  "subscribe_all_pairs tc cl order db tags =
     (case load_registered_tokens order (tc_read tc) db of
        Inl _ \<Rightarrow> None
      | Inr ts \<Rightarrow>
          let db' = fold (ensure_token_metadata tc cl) ts db
          in (case subscribe_each cl (ordered_pairs ts) tags of None \<Rightarrow> None | Some tags' \<Rightarrow> Some (db', tags')))"

text \<open>One message of the relay; a refused subscription is logged and skipped.\<close>

definition relay_message :: "token_codec \<Rightarrow> 't reg_client \<Rightarrow> TokenId \<times> TokenId \<Rightarrow> Db \<times> 't set \<Rightarrow> Db \<times> 't set" where
  "relay_message tc cl msg s =
     (let (offered, requested) = msg; (db, tags) = s
      in (ensure_token_metadata tc cl requested (ensure_token_metadata tc cl offered db),
          snd (client_subscribe cl offered requested tags)))"

text \<open>
  The composition: the admin server runs from the start, the relay only once all pairs
  have been subscribed. \<open>clients\<close> and \<open>usual\<close> restrict how the client and the store behave
  in a step; both may change from step to step.
\<close>

record 't registry =
  rg_admin :: AdminState
  rg_tags :: "'t set"
  rg_relaying :: bool

inductive registry_step :: "token_codec \<Rightarrow> ('t reg_client \<Rightarrow> bool) \<Rightarrow> (admin_env \<Rightarrow> bool) \<Rightarrow> 't registry \<Rightarrow> 't registry \<Rightarrow> bool"
  for tc clients usual where
  request: "usual env \<Longrightarrow>
    registry_step tc clients usual r (r\<lparr>rg_admin := snd (admin_router tc env admin_token header req (rg_admin r))\<rparr>)"
| subscribe: "clients cl \<Longrightarrow> \<not> rg_relaying r \<Longrightarrow> walks order \<Longrightarrow>
    subscribe_all_pairs tc cl order (as_db (rg_admin r)) (rg_tags r) = Some (db', tags') \<Longrightarrow>
    registry_step tc clients usual r (r\<lparr>rg_admin := (rg_admin r)\<lparr>as_db := db'\<rparr>, rg_tags := tags', rg_relaying := True\<rparr>)"
| relay: "clients cl \<Longrightarrow> rg_relaying r \<Longrightarrow> as_subscribe (rg_admin r) = msg # rest \<Longrightarrow>
    relay_message tc cl msg (as_db (rg_admin r), rg_tags r) = (db', tags') \<Longrightarrow>
    registry_step tc clients usual r (r\<lparr>rg_admin := (rg_admin r)\<lparr>as_db := db', as_subscribe := rest\<rparr>, rg_tags := tags'\<rparr>)"

inductive_cases registry_stepE: "registry_step tc clients usual r s"

text \<open>The state after the store has been prepared, nothing subscribed yet.\<close>

definition registry_boot :: "token_codec \<Rightarrow> Db \<Rightarrow> 't registry \<Rightarrow> bool" where
  "registry_boot tc db0 r \<longleftrightarrow>
     (\<exists>env initial_tokens db m. walks (be_order env) \<and> prepare_db tc env initial_tokens db0 = Some (db, m)
        \<and> r = \<lparr>rg_admin = \<lparr>as_db = db, as_subscribe = [], as_token_map = m\<rparr>, rg_tags = {}, rg_relaying = False\<rparr>)"

section \<open>Reading the registry\<close>

definition canonical_tokens :: "token_codec \<Rightarrow> Db \<Rightarrow> bool" where
  "canonical_tokens tc db \<longleftrightarrow> finite (dom (t_tokens db))
     \<and> (\<forall>k row. t_tokens db k = Some row \<longrightarrow> rt_token_id row = k \<and> (\<exists>t. k = tc_write tc t))"

definition cache_of :: "token_codec \<Rightarrow> Db \<Rightarrow> TokenMap" where
  "cache_of tc db t = Option.bind (t_tokens db (tc_write tc t)) rt_external_symbol"

definition registered :: "token_codec \<Rightarrow> Db \<Rightarrow> TokenId set" where
  "registered tc db = {t. t_tokens db (tc_write tc t) \<noteq> None}"

lemma tc_inj: "codec_ok tc \<Longrightarrow> tc_write tc t = tc_write tc u \<longleftrightarrow> t = u"
  unfolding codec_ok_def by (metis option.inject)

lemma canonical_read:
  "codec_ok tc \<Longrightarrow> canonical_tokens tc db \<Longrightarrow> t_tokens db k = Some row \<Longrightarrow>
   \<exists>t. tc_read tc k = Some t \<and> k = tc_write tc t \<and> rt_token_id row = k"
  unfolding codec_ok_def canonical_tokens_def by metis

lemma symbols_of_rows:
  assumes "codec_ok tc" "\<forall>row \<in> set rows. \<exists>t. rt_token_id row = tc_write tc t" "distinct (map rt_token_id rows)"
  shows "symbols_of (tc_read tc) rows out =
    Inr (\<lambda>t. case map_of (map (\<lambda>row. (rt_token_id row, rt_external_symbol row)) rows) (tc_write tc t) of
               Some (Some y) \<Rightarrow> Some y | _ \<Rightarrow> out t)"
  using assms(2,3)
proof (induction rows arbitrary: out)
  case (Cons row rows)
  obtain t where t: "rt_token_id row = tc_write tc t" "tc_read tc (tc_write tc t) = Some t"
    using Cons.prems(1) assms(1) by (auto simp: codec_ok_def)
  have n: "map_of (map (\<lambda>row. (rt_token_id row, rt_external_symbol row)) rows) (tc_write tc t) = None"
    using Cons.prems(2) by (auto simp: map_of_eq_None_iff image_image t(1))
  have IH: "symbols_of (tc_read tc) rows out' =
    Inr (\<lambda>t. case map_of (map (\<lambda>row. (rt_token_id row, rt_external_symbol row)) rows) (tc_write tc t) of
               Some (Some y) \<Rightarrow> Some y | _ \<Rightarrow> out' t)" for out'
    using Cons.IH Cons.prems by simp
  show ?case
    using n by (cases "rt_external_symbol row")
      (auto simp: t IH tc_inj [OF assms(1)] fun_eq_iff split: option.split)
qed (simp add: fun_eq_iff)

lemma load_symbols:
  assumes "codec_ok tc" "walks order" "canonical_tokens tc db"
  shows "load_token_symbols order (tc_read tc) db = Inr (cache_of tc db)"
proof -
  have w: "distinct (order (dom (t_tokens db)))" "set (order (dom (t_tokens db))) = dom (t_tokens db)"
    using walksD [OF assms(2)] assms(3) by (simp_all add: canonical_tokens_def)
  have id: "rt_token_id (the (t_tokens db k)) = k" if "k \<in> dom (t_tokens db)" for k
    using assms(3) that by (auto simp: canonical_tokens_def)
  have ids: "map rt_token_id (get_registered_tokens order db) = order (dom (t_tokens db))"
    using id w(2) by (auto simp: get_registered_tokens_def intro: map_idI)
  have c: "\<forall>row \<in> set (get_registered_tokens order db). \<exists>t. rt_token_id row = tc_write tc t"
    using assms(3) w(2) by (auto simp: get_registered_tokens_def canonical_tokens_def)
  have "map (\<lambda>row. (rt_token_id row, rt_external_symbol row)) (get_registered_tokens order db)
      = map (\<lambda>k. (k, rt_external_symbol (the (t_tokens db k)))) (order (dom (t_tokens db)))"
    using id w(2) by (auto simp: get_registered_tokens_def)
  then show ?thesis
    unfolding load_token_symbols_def symbols_of_rows [OF assms(1) c w(1) [folded ids]]
    by (simp add: map_of_map_restrict cache_of_def restrict_map_def w(2) domIff fun_eq_iff split: option.split bind_split)
qed

lemma tokens_of_rows:
  assumes "codec_ok tc" "\<forall>row \<in> set rows. rt_token_id row = tc_write tc (f row)"
  shows "tokens_of (tc_read tc) rows = Inr (map f rows)"
  using assms(2) by (induction rows) (use assms(1) in \<open>auto simp: codec_ok_def\<close>)

lemma load_tokens:
  assumes "codec_ok tc" "walks order" "canonical_tokens tc db"
  obtains ts where "load_registered_tokens order (tc_read tc) db = Inr ts" "set ts = registered tc db" "distinct ts"
proof -
  have w: "distinct (order (dom (t_tokens db)))" "set (order (dom (t_tokens db))) = dom (t_tokens db)"
    using walksD [OF assms(2)] assms(3) by (simp_all add: canonical_tokens_def)
  define f where "f row = the (tc_read tc (rt_token_id row))" for row :: RegisteredTokenRow
  have f: "rt_token_id (the (t_tokens db k)) = k" "tc_write tc (f (the (t_tokens db k))) = k" if "k \<in> dom (t_tokens db)" for k
    using canonical_read [OF assms(1,3), of k "the (t_tokens db k)"] that by (auto simp: f_def)
  have l: "load_registered_tokens order (tc_read tc) db = Inr (map f (get_registered_tokens order db))"
    unfolding load_registered_tokens_def
    by (rule tokens_of_rows [OF assms(1)]) (use f w(2) in \<open>auto simp: get_registered_tokens_def\<close>)
  have m: "map (tc_write tc) (map f (get_registered_tokens order db)) = order (dom (t_tokens db))"
    using f w(2) by (auto simp: get_registered_tokens_def intro: map_idI)
  have "distinct (map f (get_registered_tokens order db))"
    using w(1) unfolding m [symmetric] distinct_map by (auto dest: inj_on_imageI2)
  moreover have "set (map f (get_registered_tokens order db)) = registered tc db"
  proof (intro set_eqI iffI)
    fix t
    assume "t \<in> set (map f (get_registered_tokens order db))"
    then have "tc_write tc t \<in> set (map (tc_write tc) (map f (get_registered_tokens order db)))"
      by auto
    then show "t \<in> registered tc db"
      unfolding m w(2) by (auto simp: registered_def)
  next
    fix t
    assume "t \<in> registered tc db"
    then have "tc_write tc t \<in> set (map (tc_write tc) (map f (get_registered_tokens order db)))"
      unfolding m w(2) by (auto simp: registered_def)
    then show "t \<in> set (map f (get_registered_tokens order db))"
      using tc_inj [OF assms(1)] by auto
  qed
  ultimately show thesis
    using that l by blast
qed

section \<open>The cache\<close>

definition admin_inv :: "token_codec \<Rightarrow> AdminState \<Rightarrow> bool" where
  "admin_inv tc st \<longleftrightarrow> canonical_tokens tc (as_db st) \<and> as_token_map st = cache_of tc (as_db st)"

lemma canonical_upd:
  "canonical_tokens tc db \<Longrightarrow> rt_token_id row = tc_write tc t \<Longrightarrow>
   canonical_tokens tc (db\<lparr>t_tokens := (t_tokens db)(tc_write tc t \<mapsto> row)\<rparr>)"
  unfolding canonical_tokens_def by auto

lemma canonical_del: "canonical_tokens tc db \<Longrightarrow> canonical_tokens tc (db\<lparr>t_tokens := (t_tokens db)(k := None)\<rparr>)"
  unfolding canonical_tokens_def by auto

lemma cache_of_upd:
  "codec_ok tc \<Longrightarrow> cache_of tc (db\<lparr>t_tokens := (t_tokens db)(tc_write tc t \<mapsto> row)\<rparr>) = (cache_of tc db)(t := rt_external_symbol row)"
  by (auto simp: cache_of_def fun_eq_iff tc_inj)

lemma cache_of_del:
  "codec_ok tc \<Longrightarrow> cache_of tc (db\<lparr>t_tokens := (t_tokens db)(tc_write tc t := None)\<rparr>) = (cache_of tc db)(t := None)"
  by (auto simp: cache_of_def fun_eq_iff tc_inj)

lemma set_cache_simps [simp]:
  "as_db (set_cache t y st) = as_db st" "as_subscribe (set_cache t y st) = as_subscribe st"
  "as_token_map (set_cache t y st) = (as_token_map st)(t := y)"
  by (simp_all add: set_cache_def split: option.split)

lemma admin_register_inv:
  assumes "codec_ok tc" "admin_inv tc st"
  shows "admin_inv tc (snd (admin_register_token tc env t y st))"
proof (cases "ae_write env \<and> t_tokens (as_db st) (tc_write tc t) = None")
  case True
  then have "cache_of tc (as_db st) t = None"
    by (simp add: cache_of_def)
  then have "(cache_of tc (as_db st))(t := None) = cache_of tc (as_db st)"
    by auto
  then show ?thesis
    using True assms
    by (auto simp: admin_register_token_def register_token_def admin_inv_def Let_def canonical_upd cache_of_upd fun_upd_idem split: option.split)
qed (use assms in \<open>auto simp: admin_register_token_def register_token_def admin_inv_def\<close>)

lemma request_cases:
  assumes "codec_ok tc" "admin_inv tc st"
  obtains (bad) "request_token tc req = None"
    | (unknown) bs t where "request_token tc req = Some (bs, t)" "t_tokens (as_db st) bs = None"
    | (known) t row where "request_token tc req = Some (tc_write tc t, t)" "t_tokens (as_db st) (tc_write tc t) = Some row"
        "rt_token_id row = tc_write tc t"
proof (cases "request_token tc req")
  case (Some p)
  obtain bs t where p: "p = (bs, t)"
    by (cases p)
  then have t: "tc_read tc bs = Some t"
    using Some by (auto simp: request_token_def split: option.splits)
  show thesis
  proof (cases "t_tokens (as_db st) bs")
    case (Some row)
    then have "bs = tc_write tc t" "rt_token_id row = tc_write tc t"
      using canonical_read [OF assms(1) _ Some] assms(2) t by (auto simp: admin_inv_def)
    then show thesis
      using known \<open>request_token tc req = Some p\<close> Some by (simp add: p)
  qed (use unknown Some p in simp)
qed (rule bad)

lemma update_handler_inv:
  assumes "codec_ok tc" "admin_inv tc st"
  shows "admin_inv tc (snd (update_token_symbol_handler tc env req st))"
  using assms
  by (cases rule: request_cases [OF assms, where req = req])
    (auto simp: update_token_symbol_handler_def update_token_symbol_def admin_inv_def canonical_upd cache_of_upd)

lemma remove_token_inv:
  assumes "codec_ok tc" "admin_inv tc st"
  shows "admin_inv tc (snd (remove_token tc env req st))"
  using assms
  by (cases rule: request_cases [OF assms, where req = req])
    (auto simp: remove_token_def unregister_token_def admin_inv_def canonical_del cache_of_del fun_upd_idem)

lemma add_token_state:
  "snd (add_token tc env req st) =
     (case request_token tc req of None \<Rightarrow> st | Some (bs, t) \<Rightarrow> snd (admin_register_token tc env t (tr_external_symbol req) st))"
  by (auto simp: add_token_def split: option.split prod.split bool.split)

lemma admin_router_inv:
  assumes "codec_ok tc" "admin_inv tc st"
  shows "admin_inv tc (snd (admin_router tc env admin_token header req st))"
proof -
  have "admin_inv tc (snd (add_token tc env r st))" for r
    using assms admin_register_inv [OF assms] by (simp add: add_token_state split: option.split)
  moreover have "snd (list_tokens tc env st) = st"
    by (simp add: list_tokens_def split: option.split)
  ultimately show ?thesis
    using assms update_handler_inv [OF assms, of env] remove_token_inv [OF assms, of env]
    by (auto simp: admin_router_def split: option.split AdminRequest.split)
qed

lemma ensure_metadata_keeps:
  assumes "canonical_tokens tc db"
  shows "canonical_tokens tc (ensure_token_metadata tc cl t db) \<and> cache_of tc (ensure_token_metadata tc cl t db) = cache_of tc db
    \<and> registered tc (ensure_token_metadata tc cl t db) = registered tc db"
proof -
  have "canonical_tokens tc (snd (set_token_metadata (tc_write tc t) d k db)) \<and> cache_of tc (snd (set_token_metadata (tc_write tc t) d k db)) = cache_of tc db
    \<and> registered tc (snd (set_token_metadata (tc_write tc t) d k db)) = registered tc db" for d k
    using assms by (auto simp: set_token_metadata_def canonical_tokens_def cache_of_def registered_def fun_eq_iff split: option.split)
  then show ?thesis
    using assms by (auto simp: ensure_token_metadata_def Let_def split: option.split)
qed

lemma ensure_metadata_fold_keeps:
  "canonical_tokens tc db \<Longrightarrow> canonical_tokens tc (fold (ensure_token_metadata tc cl) ts db)
    \<and> cache_of tc (fold (ensure_token_metadata tc cl) ts db) = cache_of tc db
    \<and> registered tc (fold (ensure_token_metadata tc cl) ts db) = registered tc db"
proof (induction ts arbitrary: db)
  case (Cons t ts)
  then show ?case
    using ensure_metadata_keeps [OF Cons.prems, of cl t] by simp
qed simp

section \<open>Start-up\<close>

lemma seed_tokens_typed:
  assumes "codec_ok tc"
  shows "canonical_tokens tc db \<Longrightarrow> canonical_tokens tc (seed_tokens_from_config now (tc_write tc) toks db)"
proof (induction toks arbitrary: db)
  case (Cons p toks)
  obtain t y where p: "p = (t, y)"
    by (cases p)
  have "canonical_tokens tc (snd (register_token (now t) (tc_write tc t) y db))"
    using Cons.prems by (simp add: register_token_def canonical_upd)
  then show ?case
    unfolding p seed_step by (rule Cons.IH)
qed (simp add: seed_tokens_from_config_def)

lemma prepare_db_result:
  assumes "codec_ok tc" "canonical_tokens tc db0" "walks (be_order env)" "be_reset env" "be_seed env" "be_load env"
  obtains db where "prepare_db tc env toks db0 = Some (db, cache_of tc db)" "canonical_tokens tc db"
proof -
  define db where "db = seed_tokens_from_config (be_now env) (tc_write tc) toks (snd (reset_all_settling_to_active db0))"
  have "canonical_tokens tc (snd (reset_all_settling_to_active db0))"
    using assms(2) by (simp add: canonical_tokens_def reset_all_settling_to_active_def update_where_def)
  then have "canonical_tokens tc db"
    unfolding db_def by (rule seed_tokens_typed [OF assms(1)])
  then show thesis
    using that assms by (simp add: prepare_db_def Let_def load_symbols flip: db_def)
qed

lemma prepare_db_boot:
  assumes "codec_ok tc" "canonical_tokens tc db0" "walks (be_order env)" "prepare_db tc env toks db0 = Some (db, m)"
  shows "m = cache_of tc db \<and> canonical_tokens tc db"
proof -
  have "be_reset env" "be_seed env" "be_load env"
    using assms(4) by (auto simp: prepare_db_def Let_def split: if_splits)
  from prepare_db_result [OF assms(1-3) this, of toks] assms(4) show ?thesis
    by auto
qed

lemma registry_boot_inv:
  assumes "codec_ok tc" "canonical_tokens tc db0" "registry_boot tc db0 r"
  shows "admin_inv tc (rg_admin r)" "\<not> rg_relaying r" "as_subscribe (rg_admin r) = []"
proof -
  obtain env toks db m where r: "walks (be_order env)" "prepare_db tc env toks db0 = Some (db, m)"
      "r = \<lparr>rg_admin = \<lparr>as_db = db, as_subscribe = [], as_token_map = m\<rparr>, rg_tags = {}, rg_relaying = False\<rparr>"
    using assms(3) unfolding registry_boot_def by (elim exE conjE) (rule that)
  from prepare_db_boot [OF assms(1,2) r(1,2)] show "admin_inv tc (rg_admin r)" "\<not> rg_relaying r" "as_subscribe (rg_admin r) = []"
    unfolding r(3) admin_inv_def by simp_all
qed

section \<open>The registry system\<close>

lemma registry_step_inv:
  assumes "codec_ok tc" "registry_step tc clients usual r s" "admin_inv tc (rg_admin r)"
  shows "admin_inv tc (rg_admin s)"
  using assms(2)
proof cases
  case (request env admin_token header req)
  then show ?thesis
    using admin_router_inv [OF assms(1,3)] by simp
next
  case (subscribe cl order db' tags')
  obtain ts where "load_registered_tokens order (tc_read tc) (as_db (rg_admin r)) = Inr ts"
      "db' = fold (ensure_token_metadata tc cl) ts (as_db (rg_admin r))"
    using subscribe(5) by (auto simp: subscribe_all_pairs_def split: sum.splits option.splits)
  then show ?thesis
    using ensure_metadata_fold_keeps [of tc "as_db (rg_admin r)" cl ts] assms(3) subscribe(1) by (simp add: admin_inv_def)
next
  case (relay cl msg rest db' tags')
  have c: "canonical_tokens tc (as_db (rg_admin r))"
    using assms(3) by (simp add: admin_inv_def)
  have "db' = fold (ensure_token_metadata tc cl) [fst msg, snd msg] (as_db (rg_admin r))"
    using relay(5) by (auto simp: relay_message_def split: prod.splits)
  then show ?thesis
    using ensure_metadata_fold_keeps [OF c, of cl "[fst msg, snd msg]"] assms(3) relay(1) by (simp add: admin_inv_def)
qed

interpretation registry_cache: invariant_system "\<lambda>r. codec_ok tc \<and> canonical_tokens tc db0 \<and> registry_boot tc db0 r"
    "registry_step tc clients usual" "\<lambda>r. codec_ok tc \<and> admin_inv tc (rg_admin r)"
  by unfold_locales (metis registry_boot_inv(1), metis registry_step_inv)


section \<open>Subscriptions\<close>

text \<open>A client that takes every tag, and a store that answers while the relay listens.\<close>

definition willing :: "(TokenId \<Rightarrow> TokenId \<Rightarrow> 't) \<Rightarrow> 't reg_client \<Rightarrow> bool" where
  "willing tag cl \<longleftrightarrow> rc_create_tag cl = tag \<and> (\<forall>t. rc_asset_ok cl t) \<and> (\<forall>a b. rc_tag_ok cl a b)"

definition answering :: "admin_env \<Rightarrow> bool" where
  "answering env \<longleftrightarrow> ae_load env \<and> ae_accepts env = None \<and> walks (ae_order env)"

text \<open>Every ordered pair of registered tokens is watched or on its way to the client.\<close>

definition pairs_watched :: "token_codec \<Rightarrow> (TokenId \<Rightarrow> TokenId \<Rightarrow> 't) \<Rightarrow> 't registry \<Rightarrow> bool" where
  "pairs_watched tc tag r \<longleftrightarrow>
     (\<forall>a b. a \<in> registered tc (as_db (rg_admin r)) \<longrightarrow> b \<in> registered tc (as_db (rg_admin r)) \<longrightarrow> a \<noteq> b \<longrightarrow>
        tag a b \<in> rg_tags r \<or> (a, b) \<in> set (as_subscribe (rg_admin r)))"

lemma set_both_directions: "set (both_directions t ts) = (\<Union>u \<in> set ts - {t}. {(t, u), (u, t)})"
  by (auto simp: both_directions_def)

lemma set_ordered_pairs:
  "distinct ts \<Longrightarrow> set (ordered_pairs ts) = {(a, b). a \<in> set ts \<and> b \<in> set ts \<and> a \<noteq> b}"
  by (fastforce simp: ordered_pairs_def in_set_conv_nth nth_eq_iff_index_eq)

lemma client_subscribe_willing:
  "willing tag cl \<Longrightarrow> client_subscribe cl a b tags = (True, insert (tag a b) tags)"
  by (simp add: willing_def client_subscribe_def subscribe_pair_def)

lemma subscribe_each_willing:
  "willing tag cl \<Longrightarrow> subscribe_each cl ps tags = Some (tags \<union> (\<lambda>(a, b). tag a b) ` set ps)"
  by (induction ps arbitrary: tags) (auto simp: client_subscribe_willing)

lemma registered_upd:
  "codec_ok tc \<Longrightarrow> registered tc (db\<lparr>t_tokens := (t_tokens db)(tc_write tc t \<mapsto> row)\<rparr>) = insert t (registered tc db)"
  by (auto simp: registered_def tc_inj)

lemma register_watches:
  assumes "codec_ok tc" "admin_inv tc st" "answering env" and st'_def: "st' = snd (admin_register_token tc env t y st)"
  shows "(registered tc (as_db st') = registered tc (as_db st) \<and> as_subscribe st' = as_subscribe st)
    \<or> (registered tc (as_db st') = insert t (registered tc (as_db st))
       \<and> set (as_subscribe st') = set (as_subscribe st) \<union> (\<Union>u \<in> registered tc (as_db st) - {t}. {(t, u), (u, t)}))"
proof (cases "ae_write env \<and> t_tokens (as_db st) (tc_write tc t) = None")
  case True
  define db' where "db' = snd (register_token (ae_now env) (tc_write tc t) y (as_db st))"
  have reg: "registered tc db' = insert t (registered tc (as_db st))" "canonical_tokens tc db'"
    "fst (register_token (ae_now env) (tc_write tc t) y (as_db st))"
    using True assms(1,2) by (simp_all add: db'_def register_token_def registered_upd admin_inv_def canonical_upd)
  obtain ts where ts: "load_registered_tokens (ae_order env) (tc_read tc) db' = Inr ts" "set ts = registered tc db'"
    using assms(3) unfolding answering_def by (elim conjE) (rule load_tokens [OF assms(1) _ reg(2)])
  have "as_db st' = db'" "as_subscribe st' = as_subscribe st @ both_directions t ts"
    using True reg(3) ts(1) assms(3)
    by (auto simp: st'_def admin_register_token_def load_tokens_from_db_def answering_def accepted_def
        db'_def Let_def split: prod.split)
  then show ?thesis
    using reg(1) ts(2) by (simp add: set_both_directions)
qed (auto simp: st'_def admin_register_token_def register_token_def)

lemma handlers_watch:
  assumes "codec_ok tc" "admin_inv tc st"
  shows "registered tc (as_db (snd (update_token_symbol_handler tc env req st))) = registered tc (as_db st)"
    "as_subscribe (snd (update_token_symbol_handler tc env req st)) = as_subscribe st"
    "registered tc (as_db (snd (remove_token tc env req st))) \<subseteq> registered tc (as_db st)"
    "as_subscribe (snd (remove_token tc env req st)) = as_subscribe st"
  by (auto simp: update_token_symbol_handler_def update_token_symbol_def remove_token_def unregister_token_def registered_def Let_def
      split: option.split)

lemma router_watches:
  assumes "codec_ok tc" "admin_inv tc st" "answering env" and st'_def: "st' = snd (admin_router tc env admin_token header req st)"
  shows "(registered tc (as_db st') \<subseteq> registered tc (as_db st) \<and> as_subscribe st' = as_subscribe st)
    \<or> (\<exists>t. registered tc (as_db st') = insert t (registered tc (as_db st))
       \<and> set (as_subscribe st') = set (as_subscribe st) \<union> (\<Union>u \<in> registered tc (as_db st) - {t}. {(t, u), (u, t)}))"
proof -
  have l: "snd (list_tokens tc env st) = st"
    by (simp add: list_tokens_def split: option.split)
  show ?thesis
  proof (cases "admin_token = None \<or> \<not> require_bearer_token (the admin_token) header")
    case False
    then obtain k where k: "admin_token = Some k" "require_bearer_token k header"
      by auto
    show ?thesis
    proof (cases req)
      case (AddToken r)
      show ?thesis
      proof (cases "request_token tc r")
        case (Some p)
        have "st' = snd (admin_register_token tc env (snd p) (tr_external_symbol r) st)"
          using k AddToken Some by (simp add: st'_def admin_router_def add_token_state split: prod.split)
        from register_watches [OF assms(1-3) this] show ?thesis
          by blast
      qed (simp add: st'_def admin_router_def add_token_state k AddToken)
    qed (simp_all add: st'_def admin_router_def k l handlers_watch [OF assms(1,2)])
  next
    case True
    then have "st' = st"
      by (cases admin_token) (auto simp: st'_def admin_router_def)
    then show ?thesis
      by simp
  qed
qed

lemma step_watches:
  assumes "codec_ok tc" "registry_step tc (willing tag) answering r s" "admin_inv tc (rg_admin r)"
    "rg_relaying r \<Longrightarrow> pairs_watched tc tag r"
  shows "rg_relaying s \<Longrightarrow> pairs_watched tc tag s"
  using assms(2)
proof cases
  case (request env admin_token header req)
  assume "rg_relaying s"
  then have w: "pairs_watched tc tag r"
    using assms(4) request by simp
  define st' where "st' = snd (admin_router tc env admin_token header req (rg_admin r))"
  have s: "rg_admin s = st'" "rg_tags s = rg_tags r"
    using request(1) by (simp_all add: st'_def)
  from router_watches [OF assms(1,3) request(2) st'_def] show ?thesis
  proof (elim disjE exE conjE)
    assume "registered tc (as_db st') \<subseteq> registered tc (as_db (rg_admin r))" "as_subscribe st' = as_subscribe (rg_admin r)"
    then show ?thesis
      using w unfolding pairs_watched_def s by (metis subsetD)
  next
    fix t
    assume n: "registered tc (as_db st') = insert t (registered tc (as_db (rg_admin r)))"
      "set (as_subscribe st') = set (as_subscribe (rg_admin r)) \<union> (\<Union>u \<in> registered tc (as_db (rg_admin r)) - {t}. {(t, u), (u, t)})"
    show ?thesis
      unfolding pairs_watched_def s
    proof (intro allI impI)
      fix a b
      assume ab: "a \<in> registered tc (as_db st')" "b \<in> registered tc (as_db st')" "a \<noteq> b"
      show "tag a b \<in> rg_tags r \<or> (a, b) \<in> set (as_subscribe st')"
      proof (cases "a = t \<or> b = t")
        case True
        then show ?thesis
          using ab unfolding n by blast
      next
        case False
        then show ?thesis
          using ab w unfolding n pairs_watched_def by simp
      qed
    qed
  qed
next
  case (subscribe cl order db' tags')
  have c: "canonical_tokens tc (as_db (rg_admin r))"
    using assms(3) by (simp add: admin_inv_def)
  obtain ts where ts: "load_registered_tokens order (tc_read tc) (as_db (rg_admin r)) = Inr ts"
      "set ts = registered tc (as_db (rg_admin r))" "distinct ts"
    by (rule load_tokens [OF assms(1) subscribe(4) c])
  have "db' = fold (ensure_token_metadata tc cl) ts (as_db (rg_admin r))"
      "tags' = rg_tags r \<union> (\<lambda>(a, b). tag a b) ` set (ordered_pairs ts)"
    using subscribe(5) by (auto simp: subscribe_all_pairs_def ts(1) subscribe_each_willing [OF subscribe(2)])
  then show ?thesis
    using ensure_metadata_fold_keeps [OF c, of cl ts] ts(2)
    by (auto simp: subscribe(1) pairs_watched_def set_ordered_pairs [OF ts(3)])
next
  case (relay cl msg rest db' tags')
  have c: "canonical_tokens tc (as_db (rg_admin r))"
    using assms(3) by (simp add: admin_inv_def)
  obtain a b where m: "msg = (a, b)"
    by (cases msg)
  have "db' = fold (ensure_token_metadata tc cl) [a, b] (as_db (rg_admin r))" "tags' = insert (tag a b) (rg_tags r)"
    using relay(5) by (auto simp: relay_message_def m client_subscribe_willing [OF relay(2)])
  then show ?thesis
    using ensure_metadata_fold_keeps [OF c, of cl "[a, b]"] assms(4) [OF relay(3)]
    by (auto simp: relay(1) relay(4) pairs_watched_def m)
qed

interpretation registry_pairs: invariant_system "\<lambda>r. codec_ok tc \<and> canonical_tokens tc db0 \<and> registry_boot tc db0 r"
    "registry_step tc (willing tag) answering"
    "\<lambda>r. codec_ok tc \<and> admin_inv tc (rg_admin r) \<and> (rg_relaying r \<longrightarrow> pairs_watched tc tag r)"
proof unfold_locales
  show "codec_ok tc \<and> admin_inv tc (rg_admin s) \<and> (rg_relaying s \<longrightarrow> pairs_watched tc tag s)"
    if "codec_ok tc \<and> canonical_tokens tc db0 \<and> registry_boot tc db0 s" for s
    using that registry_boot_inv [of tc db0 s] by simp
  show "codec_ok tc \<and> admin_inv tc (rg_admin t) \<and> (rg_relaying t \<longrightarrow> pairs_watched tc tag t)"
    if "codec_ok tc \<and> admin_inv tc (rg_admin s) \<and> (rg_relaying s \<longrightarrow> pairs_watched tc tag s)"
      "registry_step tc (willing tag) answering s t" for s t
    using registry_step_inv [of tc "willing tag" answering s t] step_watches [of tc tag s t] that by blast
qed


section \<open>A concrete run\<close>

text \<open>A codec that writes a token as that many zero bytes; two configured tokens, one request.\<close>

definition tiny_codec :: token_codec where
  "tiny_codec = \<lparr>tc_hex_decode = \<lambda>s. Some (map (\<lambda>_. 0) s), tc_hex_encode = map (\<lambda>_. CHR ''0''),
                 tc_read = \<lambda>bs. Some (length bs), tc_write = \<lambda>t. replicate t 0\<rparr>"

definition tiny_client :: "(TokenId \<times> TokenId) reg_client" where
  "tiny_client = \<lparr>rc_asset_ok = \<lambda>_. True, rc_create_tag = Pair, rc_tag_ok = \<lambda>_ _. True,
                  rc_metadata = \<lambda>_. Some (Some (6, ''T'')), rc_db_read = True, rc_db_write = True\<rparr>"

definition tiny_boot_env :: boot_env where
  "tiny_boot_env = \<lparr>be_reset = True, be_seed = True, be_load = True, be_now = \<lambda>_. 7, be_order = sorted_list_of_set\<rparr>"

definition tiny_admin_env :: admin_env where
  "tiny_admin_env = \<lparr>ae_write = True, ae_load = True, ae_accepts = None, ae_now = 9, ae_order = sorted_list_of_set\<rparr>"

definition tiny_db :: Db where
  "tiny_db = seed_tokens_from_config (\<lambda>_. 7) (tc_write tiny_codec) [(1, Some ''bitcoin''), (2, None)]
     (snd (reset_all_settling_to_active db_new))"

definition tiny_boot :: "(TokenId \<times> TokenId) registry" where
  "tiny_boot = \<lparr>rg_admin = \<lparr>as_db = tiny_db, as_subscribe = [], as_token_map = cache_of tiny_codec tiny_db\<rparr>, rg_tags = {}, rg_relaying = False\<rparr>"

definition tiny_request :: "(TokenId \<times> TokenId) registry \<Rightarrow> (TokenId \<times> TokenId) registry" where
  "tiny_request r = r\<lparr>rg_admin := snd (admin_router tiny_codec tiny_admin_env (Some ''key'') (Some ''Bearer key'')
     (AddToken \<lparr>tr_token_id = ''000'', tr_external_symbol = Some ''ethereum''\<rparr>) (rg_admin r))\<rparr>"

lemma tiny_codec_ok: "codec_ok tiny_codec"
  by (simp add: codec_ok_def tiny_codec_def)

lemma tiny_canonical: "canonical_tokens tiny_codec db_new"
  by (simp add: canonical_tokens_def db_new_def)

lemma tiny_envs: "walks (be_order tiny_boot_env)" "answering tiny_admin_env" "willing Pair tiny_client"
  by (simp_all add: tiny_boot_env_def answering_def tiny_admin_env_def walks_sorted_list willing_def tiny_client_def)

lemma tiny_boot_ok: "registry_boot tiny_codec db_new tiny_boot"
proof -
  obtain db where db: "prepare_db tiny_codec tiny_boot_env [(1, Some ''bitcoin''), (2, None)] db_new = Some (db, cache_of tiny_codec db)"
    by (rule prepare_db_result [OF tiny_codec_ok tiny_canonical tiny_envs(1)]) (simp_all add: tiny_boot_env_def)
  then have "db = tiny_db"
    by (auto simp: prepare_db_def tiny_boot_env_def tiny_db_def Let_def split: sum.splits)
  then show ?thesis
    unfolding registry_boot_def tiny_boot_def using db tiny_envs(1) by blast
qed

lemma tiny_request_step: "registry_step tiny_codec clients answering r (tiny_request r)"
  unfolding tiny_request_def by (rule registry_step.request) (rule tiny_envs(2))

lemma register_effect:
  assumes "codec_ok tc" "ae_write env" "t \<notin> registered tc (as_db st)"
  shows "registered tc (as_db (snd (admin_register_token tc env t (Some y) st))) = insert t (registered tc (as_db st))"
    "as_token_map (snd (admin_register_token tc env t (Some y) st)) = (as_token_map st)(t \<mapsto> y)"
  using assms by (simp_all add: registered_def admin_register_token_def register_token_def Let_def split: option.split)
    (use assms(1) in \<open>auto simp: tc_inj\<close>)

lemma tiny_request_effect:
  assumes "3 \<notin> registered tiny_codec (as_db (rg_admin r))"
  shows "registered tiny_codec (as_db (rg_admin (tiny_request r))) = insert 3 (registered tiny_codec (as_db (rg_admin r)))"
    "as_token_map (rg_admin (tiny_request r)) = (as_token_map (rg_admin r))(3 \<mapsto> ''ethereum'')"
proof -
  have "rg_admin (tiny_request r) = snd (admin_register_token tiny_codec tiny_admin_env 3 (Some ''ethereum'') (rg_admin r))"
    by (simp add: tiny_request_def admin_router_def require_bearer_token_def strip_prefix_def add_token_state
        request_token_def tiny_codec_def numeral_3_eq_3)
  then show "registered tiny_codec (as_db (rg_admin (tiny_request r))) = insert 3 (registered tiny_codec (as_db (rg_admin r)))"
    "as_token_map (rg_admin (tiny_request r)) = (as_token_map (rg_admin r))(3 \<mapsto> ''ethereum'')"
    using register_effect [OF tiny_codec_ok _ assms, of tiny_admin_env "''ethereum''"] by (simp_all add: tiny_admin_env_def)
qed

lemma registered_register:
  "codec_ok tc \<Longrightarrow> registered tc (snd (register_token now (tc_write tc t) y db)) = insert t (registered tc db)"
  by (auto simp: registered_def register_token_def tc_inj)

lemma tiny_registered: "registered tiny_codec tiny_db = {1, 2}"
proof -
  have "registered tiny_codec (snd (reset_all_settling_to_active db_new)) = {}"
    by (simp add: registered_def reset_all_settling_to_active_def update_where_def db_new_def)
  then show ?thesis
    by (auto simp: tiny_db_def seed_step seed_tokens_from_config_def registered_register [OF tiny_codec_ok])
qed


lemma tiny_subscribe:
  obtains r where "registry_step tiny_codec (willing Pair) answering tiny_boot r" "rg_relaying r"
    "registered tiny_codec (as_db (rg_admin r)) = {1, 2}"
proof -
  have c: "canonical_tokens tiny_codec tiny_db"
    using registry_boot_inv(1) [OF tiny_codec_ok tiny_canonical tiny_boot_ok] by (simp add: admin_inv_def tiny_boot_def)
  obtain ts where ts: "load_registered_tokens sorted_list_of_set (tc_read tiny_codec) tiny_db = Inr ts"
    by (rule load_tokens [OF tiny_codec_ok walks_sorted_list c])
  define db' where "db' = fold (ensure_token_metadata tiny_codec tiny_client) ts tiny_db"
  have d: "registered tiny_codec db' = {1, 2}"
    using ensure_metadata_fold_keeps [OF c, of tiny_client ts] by (simp add: db'_def tiny_registered)
  obtain tags' where "subscribe_all_pairs tiny_codec tiny_client sorted_list_of_set tiny_db {} = Some (db', tags')"
    by (simp add: subscribe_all_pairs_def ts subscribe_each_willing [OF tiny_envs(3)] db'_def)
  then have "registry_step tiny_codec (willing Pair) answering tiny_boot
      (tiny_boot\<lparr>rg_admin := (rg_admin tiny_boot)\<lparr>as_db := db'\<rparr>, rg_tags := tags', rg_relaying := True\<rparr>)"
    by (intro registry_step.subscribe [where cl = tiny_client and order = sorted_list_of_set])
      (simp_all add: tiny_boot_def tiny_envs walks_sorted_list)
  then show thesis
    by (rule that) (simp_all add: d)
qed


end
