(* ===== verification/Config.thy ===== *)
theory Config
  imports Std_Text
begin

text \<open>
  The configuration, \<open>config.rs\<close>: the engine section with the defaults the loader
  fills in for omitted fields, the precision of served prices, and the validation a
  loaded configuration passes. Reading and writing the file is not modelled.
\<close>

type_synonym u16 = "16 word"
type_synonym u32 = "32 word"
type_synonym usize = "64 word"

section \<open>Sections of the file\<close>

record RpcConfig =
  rpc_endpoint :: string
  rpc_timeout_ms :: u64
  prover_endpoint :: "string option"

record SolverAccountConfig =
  account_id :: string
  keystore_path :: string
  app_db_path :: string
  executor_store_path :: string
  ingest_store_path :: string
  read_pool_size :: u32

definition default_read_pool_size :: u32 where
  "default_read_pool_size = 4"

record AssetPairConfig =
  pair_name :: string
  asset_x_faucet_id :: string
  asset_x_external_symbol :: "string option"
  asset_y_faucet_id :: string
  asset_y_external_symbol :: "string option"

record EngineConfig =
  pulse_interval_ms :: u64
  fetch_interval_ms :: u64
  price_interval_ms :: u64
  triangular_enabled :: bool
  admin_port :: u16
  debug_mode :: bool
  obs_port :: u16
  readiness_freshness_secs :: u64
  price_api_base_url :: "string option"
  price_query_port :: u16
  price_query_bind :: string
  price_query_max_inflight :: usize
  price_query_max_batch :: usize
  price_query_timeout_ms :: u64
  price_precision :: string
  price_vs_currency :: string
  price_staleness_secs :: u64
  swap_proving_estimate_ms :: u64
  swap_block_time_ms :: u64
  swap_offmarket_tolerance_bps :: u64
  router_enabled :: bool
  router_bind :: string
  router_port :: u16
  router_max_connections :: usize
  router_max_msg_bytes :: usize
  router_quote_ttl_ms :: u64
  router_inflight_ttl_ms :: u64

record SolverConfig =
  rpc_config :: RpcConfig
  solver_config :: SolverAccountConfig
  config_pairs :: "AssetPairConfig list"
  engine_config :: EngineConfig

section \<open>Defaults\<close>

definition default_true :: bool where "default_true = True"
definition default_admin_port :: u16 where "default_admin_port = 3001"
definition default_obs_port :: u16 where "default_obs_port = 9090"
definition default_readiness_freshness_secs :: u64 where "default_readiness_freshness_secs = 60"
definition default_price_query_port :: u16 where "default_price_query_port = 8080"
definition default_price_query_bind :: string where "default_price_query_bind = ''127.0.0.1''"
definition default_price_query_max_inflight :: usize where "default_price_query_max_inflight = 128"
definition default_price_query_max_batch :: usize where "default_price_query_max_batch = 50"
definition default_price_query_timeout_ms :: u64 where "default_price_query_timeout_ms = 3000"
definition default_price_precision :: string where "default_price_precision = ''full''"
definition default_price_vs_currency :: string where "default_price_vs_currency = ''usd''"
definition default_price_staleness_secs :: u64 where "default_price_staleness_secs = 30"
definition default_swap_proving_estimate_ms :: u64 where "default_swap_proving_estimate_ms = 2000"
definition default_swap_block_time_ms :: u64 where "default_swap_block_time_ms = 6000"
definition default_swap_offmarket_tolerance_bps :: u64 where "default_swap_offmarket_tolerance_bps = 50"
definition default_router_bind :: string where "default_router_bind = ''127.0.0.1''"
definition default_router_port :: u16 where "default_router_port = 8090"
definition default_router_max_connections :: usize where "default_router_max_connections = 64"
definition default_router_max_msg_bytes :: usize where "default_router_max_msg_bytes = 16384"
definition default_router_quote_ttl_ms :: u64 where "default_router_quote_ttl_ms = 20000"
definition default_router_inflight_ttl_ms :: u64 where "default_router_inflight_ttl_ms = 30000"

text \<open>The engine section of a file that gives the three mandatory fields only.\<close>

definition minimal_engine :: "u64 \<Rightarrow> u64 \<Rightarrow> u64 \<Rightarrow> EngineConfig" where
  "minimal_engine pulse fetch price =
     \<lparr>pulse_interval_ms = pulse, fetch_interval_ms = fetch, price_interval_ms = price,
      triangular_enabled = default_true, admin_port = default_admin_port, debug_mode = False, obs_port = default_obs_port,
      readiness_freshness_secs = default_readiness_freshness_secs, price_api_base_url = None,
      price_query_port = default_price_query_port, price_query_bind = default_price_query_bind,
      price_query_max_inflight = default_price_query_max_inflight, price_query_max_batch = default_price_query_max_batch,
      price_query_timeout_ms = default_price_query_timeout_ms, price_precision = default_price_precision,
      price_vs_currency = default_price_vs_currency, price_staleness_secs = default_price_staleness_secs,
      swap_proving_estimate_ms = default_swap_proving_estimate_ms, swap_block_time_ms = default_swap_block_time_ms,
      swap_offmarket_tolerance_bps = default_swap_offmarket_tolerance_bps, router_enabled = False,
      router_bind = default_router_bind, router_port = default_router_port,
      router_max_connections = default_router_max_connections, router_max_msg_bytes = default_router_max_msg_bytes,
      router_quote_ttl_ms = default_router_quote_ttl_ms, router_inflight_ttl_ms = default_router_inflight_ttl_ms\<rparr>"

section \<open>Precision and validation\<close>

datatype PricePrecision = Full | Fixed u8

definition parse_precision :: "string \<Rightarrow> PricePrecision option" where
  "parse_precision s =
     (if eq_ignore_ascii_case s ''full'' then Some Full
      else case parse_unsigned s of
        None \<Rightarrow> None
      | Some n \<Rightarrow> if n \<le> 18 then Some (Fixed n) else None)"

datatype config_error = ReadFailed | ParseFailed | BadPricePrecision | EmptyVsCurrency

definition validate :: "SolverConfig \<Rightarrow> config_error + unit" where
  "validate self =
     (if parse_precision (price_precision (engine_config self)) = None then Inl BadPricePrecision
      else if trim (price_vs_currency (engine_config self)) = [] then Inl EmptyVsCurrency
      else Inr ())"

text \<open>\<open>content\<close>: the text of the file, if it can be read; \<open>from_str\<close>: the TOML reader.\<close>

definition load_config :: "(string \<Rightarrow> SolverConfig option) \<Rightarrow> string option \<Rightarrow> config_error + SolverConfig" where
  "load_config from_str content =
     (case content of
        None \<Rightarrow> Inl ReadFailed
      | Some txt \<Rightarrow>
          (case from_str txt of
             None \<Rightarrow> Inl ParseFailed
           | Some config \<Rightarrow> (case validate config of Inl e \<Rightarrow> Inl e | Inr _ \<Rightarrow> Inr config)))"

section \<open>Facts\<close>

lemma full_not_number: "eq_ignore_ascii_case (to_string w) ''full'' = False"
proof -
  obtain c s where cs: "to_string w = c # s" "is_digit c"
    using show_nat_digits [of "unat w"] by (cases "to_string w") (auto simp: to_string_def)
  then have "ascii_lower c = c" "c \<noteq> CHR ''f''"
    by (auto simp: ascii_lower_def is_digit_def Let_def)
  then show ?thesis
    by (auto simp: eq_ignore_ascii_case_def cs ascii_lower_def)
qed

lemma parse_precision_number: "parse_precision (to_string (n :: u8)) = (if n \<le> 18 then Some (Fixed n) else None)"
  by (simp add: parse_precision_def full_not_number parse_to_string)

lemma loaded_precision: "load_config from_str content = Inr config \<Longrightarrow> \<exists>p. parse_precision (price_precision (engine_config config)) = Some p"
  by (auto simp: load_config_def validate_def split: option.splits if_splits)

lemma minimal_valid: "validate \<lparr>rpc_config = r, solver_config = s, config_pairs = ps, engine_config = minimal_engine a b c\<rparr> = Inr ()"
  by (simp add: validate_def minimal_engine_def parse_precision_def default_price_precision_def eq_ignore_ascii_case_def
      default_price_vs_currency_def trim_def is_space_def)

end
