(* ===== verification/Price_Loop.thy ===== *)
theory Price_Loop
  imports Price_Feed Std_Text
begin

text \<open>
  The price service: the polling loop of \<open>price/price.rs\<close> and the CoinGecko client
  of \<open>price/coingecko.rs\<close>. Prices are 64-bit floats in the source; the operations
  applied to them (finiteness, the sign test, rounding to cents) are a parameter, as
  is the answer of the HTTP client to a request. The lemmas show that what the
  matcher and the price API see is always the last good poll, and which tokens a
  poll prices.
\<close>

type_synonym SharedTokenMap = "TokenId \<Rightarrow> string option"

record 'f PriceData =
  usd :: 'f

type_synonym 'f PreciseSnapshot = "TokenId \<Rightarrow> 'f PriceData option"

text \<open>\<open>is_finite\<close>, \<open>>= 0.0\<close>, \<open>(x * 100.0).round() as u64\<close> and \<open>cents as f64 / 100.0\<close>.\<close>

record 'f f64_ops =
  f_is_finite :: "'f \<Rightarrow> bool"
  f_ge_zero :: "'f \<Rightarrow> bool"
  f_to_cents :: "'f \<Rightarrow> UsdCents"
  f_of_cents :: "UsdCents \<Rightarrow> 'f"

section \<open>Clients\<close>

text \<open>A client answers a list of tokens with their prices, or fails.\<close>

type_synonym 'f PriceClient = "TokenId list \<Rightarrow> 'f PreciseSnapshot option"

record 'f MockPriceClient =
  mock_prices :: "'f PreciseSnapshot"

definition MockPriceClient_new :: "'f f64_ops \<Rightarrow> PriceSnapshot \<Rightarrow> 'f MockPriceClient" where
  "MockPriceClient_new F ps = \<lparr>mock_prices = \<lambda>t. map_option (\<lambda>c. \<lparr>usd = f_of_cents F c\<rparr>) (ps t)\<rparr>"

definition mock_fetch_prices :: "'f MockPriceClient \<Rightarrow> 'f PriceClient" where
  "mock_fetch_prices self tokens = Some (mock_prices self)"

definition COINGECKO_BASE :: string where
  "COINGECKO_BASE = ''https://api.coingecko.com/api/v3/simple/price''"

record HttpPriceClient =
  api_key :: "string option"
  token_map :: SharedTokenMap
  base_url :: string
  vs_currency :: string

text \<open>\<open>tls_ok\<close>: the HTTP client can be built.\<close>

definition new_with_base :: "bool \<Rightarrow> SharedTokenMap \<Rightarrow> string option \<Rightarrow> string \<Rightarrow> string \<Rightarrow> HttpPriceClient option" where
  "new_with_base tls_ok m key base vs =
     (if tls_ok then Some \<lparr>api_key = key, token_map = m, base_url = base, vs_currency = vs\<rparr> else None)"

definition HttpPriceClient_new :: "bool \<Rightarrow> SharedTokenMap \<Rightarrow> string option \<Rightarrow> HttpPriceClient option" where
  "HttpPriceClient_new tls_ok m key = new_with_base tls_ok m key COINGECKO_BASE ''usd''"

text \<open>
  The answer to a GET: the send fails, or a status and the JSON body as nested maps
  (\<open>None\<close>: the body does not parse). The second argument of \<open>get\<close> is the API-key header.
\<close>

datatype 'f http_reply = SendFailed | Reply nat "(string \<Rightarrow> (string \<Rightarrow> 'f option) option) option"

definition requested_tokens :: "SharedTokenMap \<Rightarrow> TokenId list \<Rightarrow> TokenId list" where
  "requested_tokens m tokens = filter (\<lambda>t. m t \<noteq> None) tokens"

definition price_url :: "HttpPriceClient \<Rightarrow> string list \<Rightarrow> string" where
  "price_url self ids =
     base_url self @ ''?ids='' @ join_with '','' ids @ ''&vs_currencies='' @ vs_currency self @ ''&precision=full''"

definition price_of_body :: "'f f64_ops \<Rightarrow> HttpPriceClient \<Rightarrow> (string \<Rightarrow> (string \<Rightarrow> 'f option) option) \<Rightarrow> string \<Rightarrow> 'f PriceData option" where
  "price_of_body F self body smb =
     (case Option.bind (body smb) (\<lambda>m. m (vs_currency self)) of
        None \<Rightarrow> None
      | Some x \<Rightarrow> if f_is_finite F x \<and> f_ge_zero F x then Some \<lparr>usd = x\<rparr> else None)"

definition http_fetch_prices :: "'f f64_ops \<Rightarrow> (TokenId set \<Rightarrow> TokenId list) \<Rightarrow> (string \<Rightarrow> string option \<Rightarrow> 'f http_reply)
    \<Rightarrow> HttpPriceClient \<Rightarrow> 'f PriceClient" where
  "http_fetch_prices F order get self tokens =
     (let requested = requested_tokens (token_map self) tokens
      in if requested = [] then Some Map.empty
         else
           let ids = map (\<lambda>t. the (token_map self t)) (order (set requested))
           in (case get (price_url self ids) (api_key self) of
                 SendFailed \<Rightarrow> None
               | Reply status body \<Rightarrow>
                   if status = 429 then None
                   else if \<not> (200 \<le> status \<and> status < 300) then None
                   else case body of
                     None \<Rightarrow> None
                   | Some bd \<Rightarrow>
                       Some (\<lambda>t. if t \<in> set requested then price_of_body F self bd (the (token_map self t)) else None)))"

section \<open>The loop\<close>

definition to_cents :: "'f f64_ops \<Rightarrow> 'f PreciseSnapshot \<Rightarrow> PriceSnapshot" where
  "to_cents F precise t = map_option (\<lambda>d. f_to_cents F (usd d)) (precise t)"

record 'f price_state =
  ps_cents :: PriceSnapshot
  ps_precise :: "'f PreciseSnapshot"
  ps_last_update :: "64 word"

text \<open>
  One poll: the client and the clock as they are then (\<open>None\<close>: the clock is before the
  epoch), and the keys of the token map in the order the map gives them.
\<close>

record 'f poll =
  po_client :: "'f PriceClient"
  po_tokens :: "TokenId list"
  po_clock :: "64 word option"

definition poll_prices :: "'f f64_ops \<Rightarrow> 'f poll \<Rightarrow> 'f price_state \<Rightarrow> 'f price_state" where
  "poll_prices F p st =
     (case po_client p (po_tokens p) of
        None \<Rightarrow> st
      | Some precise \<Rightarrow>
          \<lparr>ps_cents = to_cents F precise, ps_precise = precise,
           ps_last_update = (case po_clock p of None \<Rightarrow> ps_last_update st | Some now \<Rightarrow> now)\<rparr>)"

text \<open>A finite prefix of the loop.\<close>

fun run_price_feed :: "'f f64_ops \<Rightarrow> 'f poll list \<Rightarrow> 'f price_state \<Rightarrow> 'f price_state" where
  "run_price_feed F [] st = st"
| "run_price_feed F (p # ps) st = run_price_feed F ps (poll_prices F p st)"

definition price_start :: "'f price_state" where
  "price_start = \<lparr>ps_cents = Map.empty, ps_precise = Map.empty, ps_last_update = 0\<rparr>"

section \<open>What a poll prices\<close>

lemma run_price_feed_append: "run_price_feed F (ps @ qs) st = run_price_feed F qs (run_price_feed F ps st)"
  by (induction ps arbitrary: st) simp_all

lemma failed_polls_keep:
  "(\<forall>p \<in> set ps. po_client p (po_tokens p) = None) \<Longrightarrow> run_price_feed F ps st = st"
  by (induction ps arbitrary: st) (simp_all add: poll_prices_def)

lemma cents_of_precise: "ps_cents st = to_cents F (ps_precise st) \<Longrightarrow> ps_cents (run_price_feed F ps st) = to_cents F (ps_precise (run_price_feed F ps st))"
proof (induction ps arbitrary: st)
  case (Cons p ps)
  have "ps_cents (poll_prices F p st) = to_cents F (ps_precise (poll_prices F p st))"
    using Cons.prems by (simp add: poll_prices_def split: option.split)
  from Cons.IH [OF this] show ?case
    by simp
qed simp

lemma http_fetch_priced:
  assumes "http_fetch_prices F order get self tokens = Some precise" "precise t = Some d"
  shows "t \<in> set tokens \<and> token_map self t \<noteq> None \<and> f_is_finite F (usd d) \<and> f_ge_zero F (usd d)"
  using assms
  by (auto simp: http_fetch_prices_def requested_tokens_def price_of_body_def Let_def split: if_splits http_reply.splits option.splits)

text \<open>
  The snapshots are the last good poll. Whatever the polls of the loop bring, if
  one succeeds and all later ones fail, the matcher sees exactly the rounded prices of
  that poll, the price API its full-precision prices, and the refresh time is that
  poll's clock. With the HTTP client every token priced by it had an external symbol
  at that poll and a finite, non-negative price; all others read as unpriced.
\<close>

theorem price_feed_last_good:
  assumes "po_client p = http_fetch_prices F order get self" "po_client p (po_tokens p) = Some precise" "po_clock p = Some now"
    "\<forall>q \<in> set later. po_client q (po_tokens q) = None"
    "st = run_price_feed F (earlier @ p # later) price_start"
  shows "ps_precise st = precise \<and> ps_last_update st = now
    \<and> (\<forall>t. price_cents (from_watch (ps_cents st)) t = map_option (\<lambda>d. f_to_cents F (usd d)) (precise t))
    \<and> (\<forall>t d. precise t = Some d \<longrightarrow> t \<in> set (po_tokens p) \<and> token_map self t \<noteq> None \<and> f_is_finite F (usd d) \<and> f_ge_zero F (usd d))"
proof -
  have st: "st = poll_prices F p (run_price_feed F earlier price_start)"
    using failed_polls_keep [OF assms(4)] by (simp add: assms(5) run_price_feed_append)
  have "t \<in> set (po_tokens p) \<and> token_map self t \<noteq> None \<and> f_is_finite F (usd d) \<and> f_ge_zero F (usd d)" if "precise t = Some d" for t d
    using http_fetch_priced [of F order get self "po_tokens p" precise t d] assms(1,2) that by simp
  then show ?thesis
    using assms(2,3) by (simp add: st poll_prices_def to_cents_def price_cents_def from_watch_def)
qed

text \<open>Prices in tenths of a cent; one token without a symbol, one with a negative price.\<close>

definition milli_ops :: "int f64_ops" where
  "milli_ops = \<lparr>f_is_finite = \<lambda>_. True, f_ge_zero = \<lambda>x. 0 \<le> x, f_to_cents = \<lambda>x. word_of_int ((x + 5) div 10),
                f_of_cents = \<lambda>c. 10 * uint c\<rparr>"

definition sample_http :: HttpPriceClient where
  "sample_http = \<lparr>api_key = None, token_map = [1 \<mapsto> ''eth'', 2 \<mapsto> ''bad''], base_url = COINGECKO_BASE, vs_currency = ''usd''\<rparr>"

definition sample_get :: "string \<Rightarrow> string option \<Rightarrow> int http_reply" where
  "sample_get url key =
     (if url = COINGECKO_BASE @ ''?ids=eth,bad&vs_currencies=usd&precision=full''
      then Reply 200 (Some [''eth'' \<mapsto> [''usd'' \<mapsto> 12346], ''bad'' \<mapsto> [''usd'' \<mapsto> - 5]]) else Reply 429 None)"

definition sample_poll :: "int poll" where
  "sample_poll = \<lparr>po_client = http_fetch_prices milli_ops (\<lambda>_. [1, 2]) sample_get sample_http, po_tokens = [1, 2], po_clock = Some 50\<rparr>"

definition failing_poll :: "int poll" where
  "failing_poll = \<lparr>po_client = \<lambda>_. None, po_tokens = [], po_clock = Some 90\<rparr>"

lemma sample_poll_ok: "po_client sample_poll (po_tokens sample_poll) = Some [1 \<mapsto> \<lparr>usd = 12346\<rparr>]"
  by (simp add: sample_poll_def http_fetch_prices_def requested_tokens_def sample_http_def sample_get_def price_url_def
      price_of_body_def milli_ops_def fun_eq_iff)

theorem price_feed_last_good_witness:
  "(let st = run_price_feed milli_ops [failing_poll, sample_poll, failing_poll] price_start
    in ps_last_update st = 50 \<and> price_cents (from_watch (ps_cents st)) 1 = Some 1235 \<and> price_cents (from_watch (ps_cents st)) 2 = None)"
proof -
  have "po_client sample_poll = http_fetch_prices milli_ops (\<lambda>_. [1, 2]) sample_get sample_http" "po_clock sample_poll = Some 50"
    "\<forall>q \<in> set [failing_poll]. po_client q (po_tokens q) = None"
    by (simp_all add: sample_poll_def failing_poll_def)
  from price_feed_last_good [OF this(1) sample_poll_ok this(2,3) refl, of "[failing_poll]"] show ?thesis
    by (simp add: Let_def milli_ops_def)
qed

end
