(* ===== verification/Price_Api.thy ===== *)
theory Price_Api
  imports Config Swap_Eta Price_Loop Db
begin

text \<open>
  The public price-query API, \<open>price_api.rs\<close>: the price of one token, a batch of
  prices, and the swap estimate, with the error every failing step answers, the
  cache headers and the concurrency guard. The account-id and float text formats are
  a parameter, as are the outcome of a store read and the clock of a request. The
  lemmas classify every outcome and tie a served price to the poll it came from.
\<close>

type_synonym Query = "string \<Rightarrow> string option"

record 'f api_lib =
  al_from_hex :: "string \<Rightarrow> string + TokenId"
  al_to_hex :: "TokenId \<Rightarrow> string"
  al_write :: "TokenId \<Rightarrow> bytes"
  al_debug :: "string \<Rightarrow> string"
  al_show :: "'f \<Rightarrow> string"
  al_show_fixed :: "nat \<Rightarrow> 'f \<Rightarrow> string"
  al_ops :: "'f float_ops"

record api_env =
  en_db_ok :: "bytes \<Rightarrow> bool"
  en_now :: i64
  en_now_median :: i64

section \<open>Configuration and state\<close>

record PriceApiConfig =
  pc_bind :: string
  pc_port :: u16
  pc_max_inflight :: usize
  pc_max_batch :: usize
  pc_timeout_ms :: u64
  pc_vs_currency :: string
  pc_precision :: string
  pc_staleness_secs :: u64
  pc_price_interval_ms :: u64
  pc_swap_matching_trigger_ms :: u64
  pc_swap_sync_ms :: u64
  pc_swap_proving_ms :: u64
  pc_swap_block_ms :: u64
  pc_swap_offmarket_tol_bps :: u64

record 'f PriceApiState =
  pa_precise :: "'f PreciseSnapshot"
  pa_db :: Db
  pa_last_price_update :: i64
  pa_vs_currency :: string
  pa_default_precision :: PricePrecision
  pa_staleness_secs :: i64
  pa_max_batch :: usize
  pa_swap :: SwapBookSnapshot
  pa_stats :: SettlementStats
  pa_swap_eta_secs :: u64
  pa_swap_offmarket_tol_bps :: u64

definition div_ceil :: "u64 \<Rightarrow> u64 \<Rightarrow> u64" where
  "div_ceil x d = (if x mod d = 0 then x div d else x div d + 1)"

text \<open>The state the server thread builds; the sum of the four terms wraps.\<close>

definition price_api_state :: "PriceApiConfig \<Rightarrow> 'f PreciseSnapshot \<Rightarrow> Db \<Rightarrow> i64 \<Rightarrow> SwapBookSnapshot \<Rightarrow> SettlementStats \<Rightarrow> 'f PriceApiState" where
  "price_api_state cfg precise db refreshed swap_rx stats_rx =
     \<lparr>pa_precise = precise, pa_db = db, pa_last_price_update = refreshed, pa_vs_currency = pc_vs_currency cfg,
      pa_default_precision = (case parse_precision (pc_precision cfg) of None \<Rightarrow> Full | Some p \<Rightarrow> p),
      pa_staleness_secs = pc_staleness_secs cfg, pa_max_batch = pc_max_batch cfg, pa_swap = swap_rx, pa_stats = stats_rx,
      pa_swap_eta_secs = div_ceil (pc_swap_sync_ms cfg + pc_swap_matching_trigger_ms cfg + pc_swap_proving_ms cfg + pc_swap_block_ms cfg) 1000,
      pa_swap_offmarket_tol_bps = pc_swap_offmarket_tol_bps cfg\<rparr>"

section \<open>Responses\<close>

record PriceResponse =
  pr_faucet_id :: string
  pr_ticker :: "string option"
  pr_vs_currency :: string
  pr_price :: string
  pr_precision :: string
  pr_decimals :: "u8 option"
  pr_as_of :: i64
  pr_stale :: bool
  pr_source :: string

datatype ApiError = BadFaucetId string | BadAmount string | BadRequest string | UnknownFaucet | NoPrice
  | Stale i64 | BadPrecision string | BatchTooLarge usize | Internal

definition into_response :: "ApiError \<Rightarrow> StatusCode \<times> string \<times> string" where
  "into_response e =
     (case e of
        BadFaucetId m \<Rightarrow> (ST_BAD_REQUEST, ''bad_faucet_id'', m)
      | BadAmount m \<Rightarrow> (ST_BAD_REQUEST, ''bad_amount'', m)
      | BadRequest m \<Rightarrow> (ST_BAD_REQUEST, ''bad_request'', m)
      | UnknownFaucet \<Rightarrow> (ST_NOT_FOUND, ''unknown_faucet'', ''faucet not registered'')
      | NoPrice \<Rightarrow> (ST_SERVICE_UNAVAILABLE, ''no_price'', ''no price for this token yet'')
      | Stale as_of \<Rightarrow> (ST_SERVICE_UNAVAILABLE, ''stale'',
          ''prices are stale; last update '' @ show_i64 as_of @ '' (use ?allow_stale=true to override)'')
      | BadPrecision m \<Rightarrow> (ST_BAD_REQUEST, ''bad_precision'', m)
      | BatchTooLarge mx \<Rightarrow> (ST_BAD_REQUEST, ''batch_too_large'', ''at most '' @ to_string mx @ '' ids per request'')
      | Internal \<Rightarrow> (ST_INTERNAL_SERVER_ERROR, ''internal'', ''internal error''))"

section \<open>Helpers\<close>

definition precision_label :: "PricePrecision \<Rightarrow> string" where
  "precision_label p = (case p of Full \<Rightarrow> ''full'' | Fixed n \<Rightarrow> to_string n)"

definition format_price :: "'f api_lib \<Rightarrow> 'f \<Rightarrow> PricePrecision \<Rightarrow> string" where
  "format_price L x p = (case p of Full \<Rightarrow> al_show L x | Fixed n \<Rightarrow> al_show_fixed L (unat n) x)"

definition resolve_precision :: "'f api_lib \<Rightarrow> 'f PriceApiState \<Rightarrow> Query \<Rightarrow> ApiError + PricePrecision" where
  "resolve_precision L st q =
     (case q ''precision'' of
        Some p \<Rightarrow>
          (case parse_precision p of
             Some r \<Rightarrow> Inr r
           | None \<Rightarrow> Inl (BadPrecision (''must be '' @ [CHR 0x22] @ ''full'' @ [CHR 0x22] @ '' or 0..=18, got '' @ al_debug L p)))
      | None \<Rightarrow> Inr (pa_default_precision st))"

definition wants_stale :: "Query \<Rightarrow> bool" where
  "wants_stale q = (case q ''allow_stale'' of None \<Rightarrow> False | Some v \<Rightarrow> v = ''true'' \<or> v = ''1'')"

definition staleness :: "api_env \<Rightarrow> 'f PriceApiState \<Rightarrow> i64 \<times> bool" where
  "staleness env st =
     (let as_of = pa_last_price_update st
      in (as_of, sint (saturating_sub_i64 (en_now env) as_of) > sint (pa_staleness_secs st)))"

text \<open>\<open>None\<close>: the read fails.\<close>

definition fetch_token_row :: "api_env \<Rightarrow> 'f PriceApiState \<Rightarrow> bytes \<Rightarrow> RegisteredTokenRow option option" where
  "fetch_token_row env st key = (if en_db_ok env key then Some (get_registered_token key (pa_db st)) else None)"

definition row_of :: "api_env \<Rightarrow> 'f PriceApiState \<Rightarrow> bytes \<Rightarrow> ApiError + RegisteredTokenRow" where
  "row_of env st key =
     (case fetch_token_row env st key of
        None \<Rightarrow> Inl Internal
      | Some None \<Rightarrow> Inl UnknownFaucet
      | Some (Some row) \<Rightarrow> Inr row)"

definition quote_one :: "'f api_lib \<Rightarrow> api_env \<Rightarrow> 'f PriceApiState \<Rightarrow> string \<Rightarrow> PricePrecision \<Rightarrow> i64 \<Rightarrow> bool \<Rightarrow> ApiError + PriceResponse" where
  "quote_one L env st faucet_hex precision as_of stale =
     (case al_from_hex L faucet_hex of
        Inl e \<Rightarrow> Inl (BadFaucetId e)
      | Inr token \<Rightarrow>
          (case row_of env st (al_write L token) of
             Inl e \<Rightarrow> Inl e
           | Inr row \<Rightarrow>
               (case pa_precise st token of
                  None \<Rightarrow> Inl NoPrice
                | Some d \<Rightarrow>
                    Inr \<lparr>pr_faucet_id = al_to_hex L token, pr_ticker = rt_ticker row, pr_vs_currency = pa_vs_currency st,
                         pr_price = format_price L (usd d) precision, pr_precision = precision_label precision,
                         pr_decimals = map_option word_of_int (rt_decimals row), pr_as_of = as_of, pr_stale = stale,
                         pr_source = ''coingecko''\<rparr>)))"

section \<open>Handlers\<close>

definition get_price :: "'f api_lib \<Rightarrow> api_env \<Rightarrow> 'f PriceApiState \<Rightarrow> string \<Rightarrow> Query \<Rightarrow> ApiError + PriceResponse" where
  "get_price L env st faucet_id q =
     (case resolve_precision L st q of
        Inl e \<Rightarrow> Inl e
      | Inr precision \<Rightarrow>
          (let (as_of, stale) = staleness env st
           in if stale \<and> \<not> wants_stale q then Inl (Stale as_of)
              else quote_one L env st faucet_id precision as_of stale))"

definition batch_ids :: "Query \<Rightarrow> string list" where
  "batch_ids q =
     filter (\<lambda>s. s \<noteq> []) (map trim (split_on CHR '','' (case q ''ids'' of None \<Rightarrow> [] | Some s \<Rightarrow> s)))"

definition collect_price :: "'f api_lib \<Rightarrow> api_env \<Rightarrow> 'f PriceApiState \<Rightarrow> PricePrecision \<Rightarrow> i64 \<Rightarrow> bool \<Rightarrow> string
    \<Rightarrow> (string \<Rightarrow> PriceResponse option) \<Rightarrow> string \<Rightarrow> PriceResponse option" where
  "collect_price L env st precision as_of stale ident out =
     (case quote_one L env st ident precision as_of stale of
        Inl _ \<Rightarrow> out
      | Inr resp \<Rightarrow> out(pr_faucet_id resp \<mapsto> resp))"

definition get_prices :: "'f api_lib \<Rightarrow> api_env \<Rightarrow> 'f PriceApiState \<Rightarrow> Query \<Rightarrow> ApiError + (string \<Rightarrow> PriceResponse option)" where
  "get_prices L env st q =
     (let ids = batch_ids q
      in if length ids > unat (pa_max_batch st) then Inl (BatchTooLarge (pa_max_batch st))
         else case resolve_precision L st q of
           Inl e \<Rightarrow> Inl e
         | Inr precision \<Rightarrow>
             (let (as_of, stale) = staleness env st
              in if stale \<and> \<not> wants_stale q then Inl (Stale as_of)
                 else Inr (fold (collect_price L env st precision as_of stale) ids Map.empty)))"

record SwapEtaResponse =
  se_offered_faucet :: string
  se_requested_faucet :: string
  se_offered_amount :: string
  se_requested_amount :: string
  se_can_fill :: bool
  se_off_market :: "bool option"
  se_estimated_seconds :: "u64 option"
  se_market_price :: "string option"
  se_median24h_seconds :: "u64 option"

definition parse_amount :: "'f api_lib \<Rightarrow> Query \<Rightarrow> string \<Rightarrow> ApiError + u64" where
  "parse_amount L q key =
     (case q key of
        None \<Rightarrow> Inl (BadAmount (''missing `'' @ key @ ''`''))
      | Some raw \<Rightarrow>
          (case parse_unsigned raw of
             None \<Rightarrow> Inl (BadAmount (''`'' @ key @ ''` must be a u64, got '' @ al_debug L raw))
           | Some v \<Rightarrow> if v = 0 then Inl (BadAmount (''`'' @ key @ ''` must be > 0'')) else Inr v))"

definition parse_faucet :: "'f api_lib \<Rightarrow> Query \<Rightarrow> string \<Rightarrow> ApiError + TokenId" where
  "parse_faucet L q key =
     (case q key of
        None \<Rightarrow> Inl (BadFaucetId (''missing `'' @ key @ ''`''))
      | Some raw \<Rightarrow>
          (case al_from_hex L raw of
             Inl e \<Rightarrow> Inl (BadFaucetId (''`'' @ key @ ''`: '' @ e))
           | Inr t \<Rightarrow> Inr t))"

text \<open>The oracle prices the estimate may use: none when the feed is stale.\<close>

definition oracle_prices :: "api_env \<Rightarrow> 'f PriceApiState \<Rightarrow> TokenId \<Rightarrow> TokenId \<Rightarrow> 'f option \<times> 'f option" where
  "oracle_prices env st a b =
     (if snd (staleness env st) then (None, None)
      else (map_option usd (pa_precise st a), map_option usd (pa_precise st b)))"

text \<open>The body of the answer once the request is accepted, and its \<open>Cache-Control\<close> header.\<close>

definition swap_eta_body :: "'f api_lib \<Rightarrow> api_env \<Rightarrow> 'f PriceApiState \<Rightarrow> TokenId \<Rightarrow> TokenId \<Rightarrow> u64 \<Rightarrow> u64
    \<Rightarrow> RegisteredTokenRow \<Rightarrow> RegisteredTokenRow \<Rightarrow> SwapEtaResponse" where
  "swap_eta_body L env st a b off_amt req_amt row_a row_b =
     (let d_a = map_option word_of_int (rt_decimals row_a);
          d_b = map_option word_of_int (rt_decimals row_b);
          can_fill = eval_can_fill off_amt req_amt (pa_swap st (b, a));
          (usd_a, usd_b) = oracle_prices env st a b;
          (off_market, market_price) = eval_off_market (al_ops L) off_amt d_a usd_a req_amt d_b usd_b (pa_swap_offmarket_tol_bps st);
          now = (if sint (en_now_median env) < 0 then 0 else en_now_median env)
      in \<lparr>se_offered_faucet = al_to_hex L a, se_requested_faucet = al_to_hex L b,
          se_offered_amount = to_string off_amt, se_requested_amount = to_string req_amt,
          se_can_fill = can_fill, se_off_market = off_market,
          se_estimated_seconds = (if can_fill then Some (pa_swap_eta_secs st) else None),
          se_market_price = market_price, se_median24h_seconds = median_secs (pa_stats st) (a, b) now\<rparr>)"

definition get_swap_eta :: "'f api_lib \<Rightarrow> api_env \<Rightarrow> 'f PriceApiState \<Rightarrow> Query \<Rightarrow> ApiError + string \<times> SwapEtaResponse" where
  "get_swap_eta L env st q =
     (case parse_faucet L q ''offered_faucet'' of Inl e \<Rightarrow> Inl e | Inr a \<Rightarrow>
     (case parse_faucet L q ''requested_faucet'' of Inl e \<Rightarrow> Inl e | Inr b \<Rightarrow>
      if a = b then Inl (BadRequest ''offered_faucet and requested_faucet must differ'')
      else
     (case parse_amount L q ''offered_amount'' of Inl e \<Rightarrow> Inl e | Inr off_amt \<Rightarrow>
     (case parse_amount L q ''requested_amount'' of Inl e \<Rightarrow> Inl e | Inr req_amt \<Rightarrow>
     (case row_of env st (al_write L a) of Inl e \<Rightarrow> Inl e | Inr row_a \<Rightarrow>
     (case row_of env st (al_write L b) of Inl e \<Rightarrow> Inl e | Inr row_b \<Rightarrow>
      Inr (''no-store'', swap_eta_body L env st a b off_amt req_amt row_a row_b)))))))"

section \<open>The server\<close>

text \<open>The guard takes a permit for the time of a request, or sheds it with 503.\<close>

definition concurrency_guard :: "usize \<Rightarrow> (StatusCode + usize)" where
  "concurrency_guard permits = (if permits = 0 then Inl ST_SERVICE_UNAVAILABLE else Inr (permits - 1))"

definition initial_permits :: "PriceApiConfig \<Rightarrow> usize" where
  "initial_permits cfg = max (pc_max_inflight cfg) 1"

definition cache_control :: "PriceApiConfig \<Rightarrow> string option \<Rightarrow> string" where
  "cache_control cfg own =
     (case own of Some h \<Rightarrow> h | None \<Rightarrow> ''public, max-age='' @ to_string (max (pc_price_interval_ms cfg div 1000) 1))"

text \<open>Permits left and requests being served.\<close>

inductive guard_step :: "usize \<times> 'r list \<Rightarrow> usize \<times> 'r list \<Rightarrow> bool" where
  admit: "concurrency_guard p = Inr p' \<Longrightarrow> guard_step (p, rs) (p', rs @ [r])"
| shed: "concurrency_guard p = Inl c \<Longrightarrow> guard_step (p, rs) (p, rs)"
| finish: "i < length rs \<Longrightarrow> guard_step (p, rs) (p + 1, take i rs @ drop (Suc i) rs)"

inductive_cases guard_stepE: "guard_step s t"

section \<open>The guard\<close>

definition guard_inv :: "PriceApiConfig \<Rightarrow> usize \<times> 'r list \<Rightarrow> bool" where
  "guard_inv cfg s \<longleftrightarrow> unat (fst s) + length (snd s) = unat (initial_permits cfg)"

lemma guard_step_inv:
  assumes "guard_inv cfg s" "guard_step s t"
  shows "guard_inv cfg t"
  using assms(2)
proof cases
  case (admit p p' rs r)
  then have "p \<noteq> 0" "p' = p - 1"
    by (auto simp: concurrency_guard_def split: if_splits)
  then have "unat p = Suc (unat p')"
    using unat_sub_le [of 1 p] unat_gt_0 [of p] by (auto simp: word_le_nat_alt Suc_le_eq simp del: unat_gt_0)
  then show ?thesis
    using assms(1) by (simp add: admit guard_inv_def)
next
  case (shed p c rs)
  then show ?thesis
    using assms(1) by simp
next
  case (finish i rs p)
  then have "unat (p + 1) = unat p + 1"
    using assms(1) unat_u64_lt [of "initial_permits cfg"] by (subst unat_add_no_wrap) (simp_all add: guard_inv_def)
  then show ?thesis
    using assms(1) finish by (simp add: guard_inv_def)
qed

interpretation guard_system: invariant_system "\<lambda>s. s = (initial_permits cfg, [])" guard_step "guard_inv cfg"
  by unfold_locales (simp add: guard_inv_def, rule guard_step_inv)


definition sample_api_config :: PriceApiConfig where
  "sample_api_config = \<lparr>pc_bind = ''127.0.0.1'', pc_port = 8080, pc_max_inflight = 1, pc_max_batch = 2, pc_timeout_ms = 3000,
     pc_vs_currency = ''usd'', pc_precision = ''2'', pc_staleness_secs = 30, pc_price_interval_ms = 10000,
     pc_swap_matching_trigger_ms = 1000, pc_swap_sync_ms = 1500, pc_swap_proving_ms = 2000, pc_swap_block_ms = 6000,
     pc_swap_offmarket_tol_bps = 50\<rparr>"


section \<open>Served prices\<close>

lemma row_of_Inr: "row_of env st key = Inr row \<longleftrightarrow> en_db_ok env key \<and> t_tokens (pa_db st) key = Some row"
  by (auto simp: row_of_def fetch_token_row_def get_registered_token_def split: option.splits)

lemma quote_one_Inr:
  "quote_one L env st h p as_of stale = Inr resp \<longleftrightarrow>
     (\<exists>t row d. al_from_hex L h = Inr t \<and> en_db_ok env (al_write L t) \<and> t_tokens (pa_db st) (al_write L t) = Some row
        \<and> pa_precise st t = Some d
        \<and> resp = \<lparr>pr_faucet_id = al_to_hex L t, pr_ticker = rt_ticker row, pr_vs_currency = pa_vs_currency st,
             pr_price = format_price L (usd d) p, pr_precision = precision_label p,
             pr_decimals = map_option word_of_int (rt_decimals row), pr_as_of = as_of, pr_stale = stale, pr_source = ''coingecko''\<rparr>)"
  by (auto simp: quote_one_def row_of_def fetch_token_row_def get_registered_token_def split: sum.splits option.splits if_splits)

lemma stale_iff:
  assumes "0 \<le> sint (en_now env)" "0 \<le> sint (pa_last_price_update st)"
  shows "snd (staleness env st) \<longleftrightarrow> sint (en_now env) - sint (pa_last_price_update st) > sint (pa_staleness_secs st)"
proof -
  have "sint (en_now env) < 2 ^ 63" "sint (pa_last_price_update st) < 2 ^ 63"
    using sint_lt [of "en_now env"] sint_lt [of "pa_last_price_update st"] by simp_all
  then show ?thesis
    using assms by (simp add: staleness_def Let_def saturating_sub_i64_exact)
qed

text \<open>The last good poll of a run, if there is one.\<close>

lemma run_price_feed_source:
  assumes "ps_precise (run_price_feed F polls st) t = Some d" "\<forall>p \<in> set polls. po_clock p \<noteq> None"
  shows "ps_precise st t = Some d \<and> ps_last_update (run_price_feed F polls st) = ps_last_update st
    \<or> (\<exists>p precise c. p \<in> set polls \<and> po_client p (po_tokens p) = Some precise \<and> po_clock p = Some c \<and> precise t = Some d
          \<and> ps_last_update (run_price_feed F polls st) = c)"
  using assms
proof (induction polls arbitrary: st)
  case (Cons p polls)
  obtain c where c: "po_clock p = Some c"
    using Cons.prems(2) by auto
  have "ps_precise (run_price_feed F polls (poll_prices F p st)) t = Some d" "\<forall>p \<in> set polls. po_clock p \<noteq> None"
    using Cons.prems by simp_all
  from Cons.IH [OF this] show ?case
    by (cases "po_client p (po_tokens p)") (auto simp: poll_prices_def c)
qed simp

text \<open>
  C20: a served price is a recent poll. When the API reads the snapshot and the refresh
  time the polling loop publishes, and a request that does not ask for stale prices is
  answered, then the token is registered and the price is, in the requested format,
  the one some successful poll reported for it, at most the configured number of
  seconds before the request; the answer carries that poll's time and is not marked
  stale.
\<close>

theorem served_price_fresh:
  assumes "get_price L env st faucet q = Inr resp" "\<not> wants_stale q"
    "pa_precise st = ps_precise s" "pa_last_price_update st = ps_last_update s" "s = run_price_feed F polls price_start"
    "list_all (\<lambda>p. \<exists>c. po_clock p = Some c \<and> 0 \<le> sint c) polls" "0 \<le> sint (en_now env)"
  shows "\<exists>t row p c precise d prec. al_from_hex L faucet = Inr t \<and> t_tokens (pa_db st) (al_write L t) = Some row
    \<and> p \<in> set polls \<and> po_client p (po_tokens p) = Some precise \<and> po_clock p = Some c \<and> precise t = Some d
    \<and> resolve_precision L st q = Inr prec \<and> pr_price resp = format_price L (usd d) prec
    \<and> sint (en_now env) - sint c \<le> sint (pa_staleness_secs st) \<and> pr_as_of resp = c \<and> \<not> pr_stale resp"
proof -
  obtain prec where prec: "resolve_precision L st q = Inr prec"
    using assms(1) by (auto simp: get_price_def split: sum.splits)
  have ns: "\<not> snd (staleness env st)" and q1: "quote_one L env st faucet prec (pa_last_price_update st) False = Inr resp"
    using assms(1,2) by (auto simp: get_price_def prec staleness_def Let_def split: if_splits)
  obtain t row d where t: "al_from_hex L faucet = Inr t" "t_tokens (pa_db st) (al_write L t) = Some row" "pa_precise st t = Some d"
      "pr_price resp = format_price L (usd d) prec" "pr_as_of resp = pa_last_price_update st" "\<not> pr_stale resp"
    using q1 by (auto simp: quote_one_Inr)
  have clocks: "\<forall>p \<in> set polls. po_clock p \<noteq> None"
    using assms(6) by (auto simp: list_all_iff)
  from run_price_feed_source [of F polls price_start t d, OF _ clocks] obtain p precise c where p: "p \<in> set polls"
      "po_client p (po_tokens p) = Some precise" "po_clock p = Some c" "precise t = Some d" "ps_last_update s = c"
    using t(3) unfolding assms(3,5) by (auto simp: price_start_def)
  have "0 \<le> sint c"
    using assms(6) p(1,3) by (auto simp: list_all_iff)
  then have "sint (en_now env) - sint c \<le> sint (pa_staleness_secs st)"
    using stale_iff [OF assms(7), of st] ns p(5) assms(4) by simp
  moreover have "pr_as_of resp = c"
    using t(5) p(5) assms(4) by simp
  ultimately show ?thesis
    using t(1,2,4,6) p(1-4) prec by blast
qed

definition sample_lib :: "int api_lib" where
  "sample_lib = \<lparr>al_from_hex = \<lambda>s. if list_all is_digit s then Inr (digits_val s) else Inl ''bad hex'', al_to_hex = show_nat,
     al_write = \<lambda>t. replicate t 0, al_debug = \<lambda>s. s, al_show = \<lambda>x. show_nat (nat x), al_show_fixed = \<lambda>n x. show_nat (nat x div 10 ^ (3 - n)),
     al_ops = \<lparr>f_positive = \<lambda>x. 0 < x, f_cents = \<lambda>x. word_of_int (x div 10), f_ratio_text = \<lambda>x y. show_nat (nat (x div y))\<rparr>\<rparr>"

definition sample_env_api :: api_env where
  "sample_env_api = \<lparr>en_db_ok = \<lambda>_. True, en_now = 70, en_now_median = 70\<rparr>"

definition sample_feed :: "int price_state" where
  "sample_feed = run_price_feed milli_ops [failing_poll, sample_poll, failing_poll] price_start"

definition sample_tokens_db :: Db where
  "sample_tokens_db = snd (register_token 5 [0] (Some ''eth'') (snd (register_token 5 [0, 0] None db_new)))"

definition sample_api :: "OrderBook \<Rightarrow> int PriceApiState" where
  "sample_api bk = price_api_state sample_api_config (ps_precise sample_feed) sample_tokens_db (ps_last_update sample_feed)
     (snapshot_best_levels bk) SettlementStats_new"

lemma sample_feed_values: "ps_precise sample_feed = [1 \<mapsto> \<lparr>usd = 12346\<rparr>]" "ps_last_update sample_feed = 50"
proof -
  have "po_client failing_poll (po_tokens failing_poll) = None" "po_clock sample_poll = Some 50"
    by (simp_all add: failing_poll_def sample_poll_def)
  then show "ps_precise sample_feed = [1 \<mapsto> \<lparr>usd = 12346\<rparr>]" "ps_last_update sample_feed = 50"
    using sample_poll_ok by (simp_all add: sample_feed_def poll_prices_def)
qed

lemma sample_api_values:
  "pa_precise (sample_api bk) = [1 \<mapsto> \<lparr>usd = 12346\<rparr>]" "pa_last_price_update (sample_api bk) = 50"
  "pa_staleness_secs (sample_api bk) = 30" "pa_db (sample_api bk) = sample_tokens_db" "pa_swap (sample_api bk) = snapshot_best_levels bk"
  "pa_default_precision (sample_api bk) = Fixed 2"
  by (simp_all add: sample_api_def price_api_state_def sample_feed_values sample_api_config_def parse_precision_def eq_ignore_ascii_case_def
      ascii_lower_def parse_unsigned_def is_digit_def digits_val_def digit_val_def)

lemma sample_tokens: "t_tokens sample_tokens_db [0] \<noteq> None" "t_tokens sample_tokens_db [0, 0] \<noteq> None"
  by (simp_all add: sample_tokens_db_def register_token_def db_new_def)

theorem served_price_fresh_witness:
  "\<exists>resp. get_price sample_lib sample_env_api (sample_api sample_book) ''1'' Map.empty = Inr resp \<and> pr_price resp = ''1234''
     \<and> pr_as_of resp = 50 \<and> \<not> pr_stale resp"
proof -
  obtain row where row: "t_tokens sample_tokens_db [0] = Some row"
    using sample_tokens(1) by auto
  have h: "al_from_hex sample_lib ''1'' = Inr 1" "al_write sample_lib 1 = [0]"
    by (simp_all add: sample_lib_def is_digit_def digits_val_def digit_val_def)
  have st: "staleness sample_env_api (sample_api sample_book) = (50, False)"
    by (simp add: staleness_def Let_def sample_api_values saturating_sub_i64_exact sample_env_api_def)
  have "en_db_ok sample_env_api k" for k
    by (simp add: sample_env_api_def)
  then obtain resp where r: "get_price sample_lib sample_env_api (sample_api sample_book) ''1'' Map.empty = Inr resp"
      "pr_price resp = format_price sample_lib 12346 (Fixed 2)"
    using row by (auto simp: get_price_def resolve_precision_def sample_api_values st quote_one_Inr h simp del: One_nat_def)
  have "format_price sample_lib 12346 (Fixed 2) = ''1234''"
    by (simp add: format_price_def sample_lib_def show_nat.simps char_of_def bit_0)
  moreover obtain p c where "po_clock p = Some c" "pr_as_of resp = c" "\<not> pr_stale resp" "p \<in> set [failing_poll, sample_poll, failing_poll]"
      "po_client p (po_tokens p) \<noteq> None"
    using served_price_fresh [OF r(1) _ _ _ sample_feed_def]
    by (auto simp: wants_stale_def sample_api_values sample_feed_values failing_poll_def sample_poll_def sample_env_api_def)
  ultimately show ?thesis
    using r by (auto simp: failing_poll_def sample_poll_def)
qed

lemma quote_one_unique:
  assumes "inj (al_to_hex L)" "quote_one L env st h p as_of stale = Inr r" "quote_one L env st h' p as_of stale = Inr r'"
    "pr_faucet_id r = pr_faucet_id r'"
  shows "r = r'"
  using assms(2-4) by (auto simp: quote_one_Inr inj_eq [OF assms(1)])

lemma collect_prices:
  assumes "inj (al_to_hex L)"
  shows "fold (collect_price L env st p as_of stale) ids Map.empty h = Some r \<longleftrightarrow>
    (\<exists>ident \<in> set ids. quote_one L env st ident p as_of stale = Inr r \<and> pr_faucet_id r = h)"
proof (induction ids arbitrary: r rule: rev_induct)
  case (snoc i ids)
  show ?case
  proof (cases "quote_one L env st i p as_of stale")
    case (Inr r0)
    have "r = r0" if "pr_faucet_id r0 = h" "ident \<in> set ids" "quote_one L env st ident p as_of stale = Inr r" "pr_faucet_id r = h" for ident
      using quote_one_unique [OF assms that(3) Inr] that by simp
    then show ?thesis
      using snoc Inr by (auto simp: collect_price_def)
  qed (use snoc in \<open>auto simp: collect_price_def\<close>)
qed simp

lemma get_prices_exact:
  assumes "get_prices L env st q = Inr out" "inj (al_to_hex L)" "\<And>k. en_db_ok env k"
  shows "length (batch_ids q) \<le> unat (pa_max_batch st)
    \<and> (out (al_to_hex L t) \<noteq> None \<longleftrightarrow>
         (\<exists>ident \<in> set (batch_ids q). al_from_hex L ident = Inr t) \<and> t_tokens (pa_db st) (al_write L t) \<noteq> None \<and> pa_precise st t \<noteq> None)"
proof -
  obtain p as_of stale where o: "out = fold (collect_price L env st p as_of stale) (batch_ids q) Map.empty"
    using assms(1) by (auto simp: get_prices_def Let_def split: if_splits sum.splits prod.splits)
  have "out (al_to_hex L t) \<noteq> None \<longleftrightarrow> (\<exists>r. out (al_to_hex L t) = Some r)"
    by auto
  also have "\<dots> \<longleftrightarrow> (\<exists>ident \<in> set (batch_ids q). al_from_hex L ident = Inr t) \<and> t_tokens (pa_db st) (al_write L t) \<noteq> None \<and> pa_precise st t \<noteq> None"
    unfolding o collect_prices [OF assms(2)] quote_one_Inr using assms(3) by (fastforce dest: injD [OF assms(2)])
  finally show ?thesis
    using assms(1) by (auto simp: get_prices_def Let_def split: if_splits)
qed

section \<open>The swap estimate\<close>

lemma parse_amount_Inr: "parse_amount L q k = Inr v \<Longrightarrow> v \<noteq> 0 \<and> (\<exists>raw. q k = Some raw \<and> parse_unsigned raw = Some v)"
  by (auto simp: parse_amount_def split: option.splits if_splits)

lemma get_swap_eta_Inr:
  assumes "get_swap_eta L env st q = Inr (hdr, resp)"
  obtains a b x y row_a row_b where "parse_faucet L q ''offered_faucet'' = Inr a" "parse_faucet L q ''requested_faucet'' = Inr b" "a \<noteq> b"
    "parse_amount L q ''offered_amount'' = Inr x" "parse_amount L q ''requested_amount'' = Inr y"
    "t_tokens (pa_db st) (al_write L a) = Some row_a" "t_tokens (pa_db st) (al_write L b) = Some row_b"
    "hdr = ''no-store''" "resp = swap_eta_body L env st a b x y row_a row_b"
  using assms unfolding get_swap_eta_def
  by (auto split: sum.splits if_splits simp: row_of_Inr)

lemma swap_eta_body_fields:
  "se_can_fill (swap_eta_body L env st a b x y ra rb) = eval_can_fill x y (pa_swap st (b, a))"
  "se_estimated_seconds (swap_eta_body L env st a b x y ra rb) =
     (if se_can_fill (swap_eta_body L env st a b x y ra rb) then Some (pa_swap_eta_secs st) else None)"
  "se_offered_amount (swap_eta_body L env st a b x y ra rb) = to_string x"
  "se_requested_amount (swap_eta_body L env st a b x y ra rb) = to_string y"
  "snd (staleness env st) \<Longrightarrow> se_off_market (swap_eta_body L env st a b x y ra rb) = None
     \<and> se_market_price (swap_eta_body L env st a b x y ra rb) = None"
  by (simp_all add: swap_eta_body_def Let_def oracle_prices_def eval_off_market_def split: prod.split)

text \<open>
  C21: the swap estimate is sound. When the API reads a snapshot the matcher published
  of a well-formed book and a request is answered, both tokens are registered and
  distinct and both amounts positive and echoed exactly; if the answer says the order
  can fill, the book holds a best order of the opposite pair that is profitable to
  match with it, and an estimate is given exactly then; from a stale price feed no
  market verdict is derived; and the answer is never cached.
\<close>

theorem swap_eta_sound:
  assumes "get_swap_eta L env st q = Inr (hdr, resp)" "pa_swap st = snapshot_best_levels bk" "wf_book bk"
  shows "\<exists>a b x y. parse_faucet L q ''offered_faucet'' = Inr a \<and> parse_faucet L q ''requested_faucet'' = Inr b \<and> a \<noteq> b
    \<and> al_write L a \<in> dom (t_tokens (pa_db st)) \<and> al_write L b \<in> dom (t_tokens (pa_db st))
    \<and> x \<noteq> 0 \<and> y \<noteq> 0 \<and> parse_unsigned (se_offered_amount resp) = Some x \<and> parse_unsigned (se_requested_amount resp) = Some y
    \<and> (se_can_fill resp \<longrightarrow> (\<exists>best. fst (best_order b a bk) = Some best
          \<and> (\<forall>incoming. offered incoming = x \<longrightarrow> requested incoming = y \<longrightarrow> is_profitable_with incoming best)))
    \<and> (se_estimated_seconds resp = (if se_can_fill resp then Some (pa_swap_eta_secs st) else None))
    \<and> (snd (staleness env st) \<longrightarrow> se_off_market resp = None \<and> se_market_price resp = None)
    \<and> hdr = ''no-store''"
proof -
  obtain a b x y ra rb where r: "parse_faucet L q ''offered_faucet'' = Inr a" "parse_faucet L q ''requested_faucet'' = Inr b" "a \<noteq> b"
      "parse_amount L q ''offered_amount'' = Inr x" "parse_amount L q ''requested_amount'' = Inr y"
      "t_tokens (pa_db st) (al_write L a) = Some ra" "t_tokens (pa_db st) (al_write L b) = Some rb"
      "hdr = ''no-store''" "resp = swap_eta_body L env st a b x y ra rb"
    by (rule get_swap_eta_Inr [OF assms(1)])
  have "\<exists>best. fst (best_order b a bk) = Some best \<and> is_profitable_with incoming best"
    if "se_can_fill resp" "offered incoming = x" "requested incoming = y" for incoming
    using can_fill_is_profitable [OF assms(3), of incoming b a] that by (simp add: r(9) swap_eta_body_fields assms(2))
  moreover obtain incoming :: Order where "offered incoming = x" "requested incoming = y"
    by (rule that [of "\<lparr>order_id = 0, offered_token = 0, requested_token = 0, offered = x, requested = y, requested_remaining = y\<rparr>"])
      simp_all
  ultimately have "se_can_fill resp \<longrightarrow> (\<exists>best. fst (best_order b a bk) = Some best
          \<and> (\<forall>incoming. offered incoming = x \<longrightarrow> requested incoming = y \<longrightarrow> is_profitable_with incoming best))"
    by (metis option.inject)
  then show ?thesis
    using r(1-3,6-8) parse_amount_Inr [OF r(4)] parse_amount_Inr [OF r(5)]
    by (intro exI [of _ a] exI [of _ b] exI [of _ x] exI [of _ y]) (auto simp: r(9) swap_eta_body_fields parse_to_string)
qed

theorem swap_eta_sound_witness:
  "\<exists>resp best. get_swap_eta sample_lib sample_env_api (sample_api sample_book)
      [''offered_faucet'' \<mapsto> ''1'', ''requested_faucet'' \<mapsto> ''2'', ''offered_amount'' \<mapsto> ''100'', ''requested_amount'' \<mapsto> ''+190'']
        = Inr (''no-store'', resp)
     \<and> se_can_fill resp \<and> fst (best_order 2 1 sample_book) = Some best \<and> is_profitable_with sample_ask best"
proof -
  define q where "q = [''offered_faucet'' \<mapsto> ''1'', ''requested_faucet'' \<mapsto> ''2'', ''offered_amount'' \<mapsto> ''100'', ''requested_amount'' \<mapsto> ''+190'']"
  note digits = is_digit_def digits_val_def digit_val_def
  have f: "parse_faucet sample_lib q ''offered_faucet'' = Inr 1" "parse_faucet sample_lib q ''requested_faucet'' = Inr 2"
    by (simp_all add: parse_faucet_def q_def sample_lib_def digits)
  have m: "parse_amount sample_lib q ''offered_amount'' = Inr 100" "parse_amount sample_lib q ''requested_amount'' = Inr 190"
    by (simp_all add: parse_amount_def q_def parse_unsigned_def digits)
  obtain ra rb where "t_tokens sample_tokens_db [0] = Some ra" "t_tokens sample_tokens_db [0, 0] = Some rb"
    using sample_tokens by auto
  then have "row_of sample_env_api (sample_api sample_book) (al_write sample_lib 1) = Inr ra"
      "row_of sample_env_api (sample_api sample_book) (al_write sample_lib 2) = Inr rb"
    by (simp_all add: row_of_Inr sample_env_api_def sample_api_values sample_lib_def numeral_2_eq_2)
  then have r: "get_swap_eta sample_lib sample_env_api (sample_api sample_book) q
      = Inr (''no-store'', swap_eta_body sample_lib sample_env_api (sample_api sample_book) 1 2 100 190 ra rb)"
    by (simp add: get_swap_eta_def f m)
  have "eval_can_fill 100 190 (snapshot_best_levels sample_book (2, 1))"
    by code_simp
  then have c: "se_can_fill (swap_eta_body sample_lib sample_env_api (sample_api sample_book) 1 2 100 190 ra rb)"
    by (simp add: swap_eta_body_fields sample_api_values)
  have "\<exists>best. fst (best_order 2 1 sample_book) = Some best \<and> is_profitable_with sample_ask best"
    using swap_eta_sound [OF r _ sample_books_wf(3)] c
    by (auto simp: sample_api_values f swap_eta_body_fields parse_to_string sample_ask_def)
  with r c show ?thesis
    unfolding q_def by blast
qed

end
