(* ===== verification/Obs.thy ===== *)
theory Obs
  imports Ingest Std_Text
begin

text \<open>
  The observability server, \<open>obs.rs\<close>: liveness and readiness. Readiness reads the
  time of the last successful sync that the ingest loop publishes; the lemmas show
  what an answer of 200 says about that loop.
\<close>

record ObsState =
  obs_last_sync :: i64
  obs_readiness_freshness_secs :: u64

definition ObsState_new :: "i64 \<Rightarrow> u64 \<Rightarrow> ObsState" where
  "ObsState_new unix_now freshness = \<lparr>obs_last_sync = unix_now, obs_readiness_freshness_secs = freshness\<rparr>"

definition health :: "StatusCode \<times> string" where
  "health = (ST_OK, ''ok'')"

text \<open>\<open>conn\<close>: the error text when no connection can be had; the threshold is compared as \<open>i64\<close>.\<close>

definition readyz :: "string option \<Rightarrow> i64 \<Rightarrow> ObsState \<Rightarrow> StatusCode \<times> string" where
  "readyz conn now st =
     (case conn of
        Some e \<Rightarrow> (ST_SERVICE_UNAVAILABLE, ''db unreachable: '' @ e)
      | None \<Rightarrow>
          (let age = saturating_sub_i64 now (obs_last_sync st)
           in if sint age > sint (obs_readiness_freshness_secs st)
              then (ST_SERVICE_UNAVAILABLE, ''sync stale: '' @ show_i64 age @ ''s since last successful sync (threshold ''
                      @ to_string (obs_readiness_freshness_secs st) @ ''s)'')
              else (ST_OK, ''ready'')))"

section \<open>Readiness and the ingest loop\<close>

definition synced_at :: "('n ingest_env \<times> i64 \<times> bool) list \<Rightarrow> i64 \<Rightarrow> bool" where
  "synced_at es t \<longleftrightarrow> (\<exists>env cancelled. (env, t, cancelled) \<in> set es \<and> ie_sync env \<noteq> None)"

lemma synced_at_Cons: "synced_at ((env, t', cancelled) # es) t \<longleftrightarrow> t = t' \<and> ie_sync env \<noteq> None \<or> synced_at es t"
  by (auto simp: synced_at_def)

lemma last_sync_source:
  "ig_last_sync (run_ingest ch es st) = ig_last_sync st \<or> synced_at es (ig_last_sync (run_ingest ch es st))"
proof (induction es arbitrary: st)
  case (Cons e es)
  obtain env now cancelled where e: "e = (env, now, cancelled)"
    by (cases e)
  let ?st = "ingest_iteration ch env now st"
  have one: "ig_last_sync ?st = ig_last_sync st \<or> ie_sync env \<noteq> None \<and> ig_last_sync ?st = now"
    by (cases "ie_sync env") (auto simp: ingest_iteration_def ingest_once_def Let_def split: prod.split sum.split)
  show ?case
  proof (cases cancelled)
    case True
    then show ?thesis
      using one by (auto simp: e Let_def synced_at_Cons)
  next
    case False
    then have "run_ingest ch (e # es) st = run_ingest ch es ?st"
      by (simp add: e Let_def)
    then show ?thesis
      using Cons.IH [of ?st] one unfolding e synced_at_Cons by metis
  qed
qed simp

text \<open>
  C22: ready means synced. When readiness reads the time the ingest loop publishes, the
  threshold fits a signed integer and the clocks are after the epoch, \<open>/readyz\<close>
  answers 200 only if the store hands out a connection and the solver started, or the
  client finished a sync, within the threshold.
\<close>

theorem ready_means_synced:
  assumes "readyz conn now st = (ST_OK, body)"
    "obs_last_sync st = ig_last_sync (run_ingest ch es \<lparr>ig_db = db, ig_consumed = [], ig_orders = [], ig_last_sync = started\<rparr>)"
    "unat (obs_readiness_freshness_secs st) < 2 ^ 63" "0 \<le> sint now" "0 \<le> sint started"
    "list_all (\<lambda>(env, c, cancelled). 0 \<le> sint c) es"
  shows "conn = None \<and> (\<exists>c. sint now - sint c \<le> int (unat (obs_readiness_freshness_secs st))
    \<and> (c = started \<or> synced_at es c))"
proof -
  let ?c = "obs_last_sync st"
  have src: "?c = started \<or> synced_at es ?c"
    using last_sync_source [of ch es "\<lparr>ig_db = db, ig_consumed = [], ig_orders = [], ig_last_sync = started\<rparr>"] assms(2) by simp
  then have "0 \<le> sint ?c"
    using assms(5,6) by (auto simp: list_all_iff synced_at_def)
  moreover have "sint ?c < 2 ^ 63" "sint now < 2 ^ 63"
    using sint_lt [of ?c] sint_lt [of now] by simp_all
  ultimately have "sint (saturating_sub_i64 now ?c) = sint now - sint ?c"
    using assms(4) by (simp add: saturating_sub_i64_exact)
  then have "conn = None \<and> sint now - sint ?c \<le> int (unat (obs_readiness_freshness_secs st))"
    using assms(1) small_signed [OF assms(3)] by (auto simp: readyz_def Let_def split: option.splits if_splits)
  then show ?thesis
    using src by blast
qed

text \<open>A sync at time 95, then a failing one.\<close>

definition sample_syncs :: "((nat \<times> Pswap) ingest_env \<times> i64 \<times> bool) list" where
  "sample_syncs =
     [(\<lparr>ie_sync = Some \<lparr>sr_block_num = 1, sr_new_notes = [], sr_consumed_notes = []\<rparr>, ie_mark_write = True, ie_insert_write = True,
        ie_consumed_tx = None, ie_order_tx = None, ie_now = \<lambda>_. 95\<rparr>, 95, False),
      (\<lparr>ie_sync = None, ie_mark_write = True, ie_insert_write = True,
        ie_consumed_tx = None, ie_order_tx = None, ie_now = \<lambda>_. 98\<rparr>, 98, False)]"

theorem ready_means_synced_witness:
  "readyz None 100 (ObsState_new 95 60) = (ST_OK, ''ready'')
   \<and> (\<exists>c. sint (100 :: i64) - sint c \<le> 60 \<and> (c = 7 \<or> synced_at sample_syncs c))"
proof -
  have r: "readyz None 100 (ObsState_new 95 60) = (ST_OK, ''ready'')"
    by (simp add: readyz_def ObsState_new_def Let_def saturating_sub_i64_exact)
  have "obs_last_sync (ObsState_new 95 60) = ig_last_sync (run_ingest tiny_chain sample_syncs \<lparr>ig_db = db_new, ig_consumed = [], ig_orders = [], ig_last_sync = 7\<rparr>)"
    by (simp add: ObsState_new_def sample_syncs_def ingest_iteration_def ingest_once_def List.map_filter_def)
  from ready_means_synced [OF r this] show ?thesis
    using r by (simp add: ObsState_new_def sample_syncs_def)
qed

end
