(* ===== verification/Lp_Client.thy ===== *)
theory Lp_Client
  imports Router_Props "HOL-Library.Sublist"
begin

text \<open>
  The liquidity-provider SDK, \<open>lp-sdk/src/client.rs\<close>: posting quotes, the quoting
  loop, the handshake, and the supervisor that keeps a connection to the router alive.
  The supervisor is a function of the actions of its surroundings (messages posted,
  frames received, writes, drops, reconnection attempts, the client going away); the
  socket, the asset constructor and error texts are parameters. The lemmas show the
  protocol of the event stream, the bounds of the backoff, that no quote posted before
  a drop reaches the wire after it, and that both sides of the link understand each
  other.
\<close>

type_synonym u32 = "32 word"

section \<open>Errors and events\<close>

text \<open>Times in milliseconds.\<close>

definition RECONNECT_MIN :: nat where "RECONNECT_MIN = 500"
definition RECONNECT_MAX :: nat where "RECONNECT_MAX = 30000"
definition STABLE_UPTIME :: nat where "STABLE_UPTIME = 10000"

datatype LpError =
    AuthRejected
  | Transport string
  | Closed string
  | InvalidQuote string
  | ProtocolError string string
  | ConsumeError string

record 'n Handover =
  ho_note :: 'n
  ho_fill_amount :: u64

datatype 'n LpEvent =
    EvAuthOk
  | EvAsk "PairSpec list"
  | EvHandover "'n Handover"
  | EvError LpError
  | EvReconnecting u32
  | EvReconnected
  | EvDisconnected string

fun event_from :: "'n ServerMsg \<Rightarrow> 'n LpEvent" where
  "event_from AuthOk = EvAuthOk"
| "event_from (Ask pairs) = EvAsk pairs"
| "event_from (HandoverMsg nt fill_amount) = EvHandover \<lparr>ho_note = nt, ho_fill_amount = fill_amount\<rparr>"
| "event_from (ErrorMsg code msg) = EvError (ProtocolError code msg)"

text \<open>\<open>create_args\<close>: the note arguments, or the message of an error.\<close>

definition consume_args :: "(u64 \<Rightarrow> u64 \<Rightarrow> string + 'w) \<Rightarrow> u64 \<Rightarrow> u64 \<Rightarrow> LpError + 'w" where
  "consume_args create_args account_fill note_fill =
     (case create_args account_fill note_fill of Inl e \<Rightarrow> Inl (ConsumeError e) | Inr args \<Rightarrow> Inr args)"

section \<open>Posting quotes\<close>

text \<open>The queue of the connection task, and whether the task is still there to take messages.\<close>

definition lp_send :: "bool \<Rightarrow> ClientMsg \<Rightarrow> ClientMsg list \<Rightarrow> (LpError + unit) \<times> ClientMsg list" where
  "lp_send alive msg queue =
     (if alive then (Inr (), queue @ [msg]) else (Inl (Closed ''client dropped; connection task gone''), queue))"

definition lp_quote :: "bool \<Rightarrow> FungibleAsset \<Rightarrow> FungibleAsset \<Rightarrow> u64 option \<Rightarrow> ClientMsg list \<Rightarrow> (LpError + unit) \<times> ClientMsg list" where
  "lp_quote alive offered_asset requested_asset valid_for_ms queue =
     (if asset_amount offered_asset = 0 \<or> asset_amount requested_asset = 0
      then (Inl (InvalidQuote ''quote amounts must be > 0''), queue)
      else lp_send alive (QuoteMsg offered_asset requested_asset valid_for_ms) queue)"

text \<open>
  One tick of the quoting loop over the remaining pairs; the flag says that the loop
  goes on. \<open>asset_new\<close>: the asset, if the amount is allowed.
\<close>

fun quote_tick :: "(TokenId \<Rightarrow> u64 \<Rightarrow> FungibleAsset option) \<Rightarrow> (PairSpec \<Rightarrow> (u64 \<times> u64) option) \<Rightarrow> bool
    \<Rightarrow> PairSpec list \<Rightarrow> ClientMsg list \<Rightarrow> bool \<times> ClientMsg list" where
  "quote_tick asset_new price alive [] queue = (True, queue)"
| "quote_tick asset_new price alive (pair # pairs) queue =
     (case price pair of
        None \<Rightarrow> quote_tick asset_new price alive pairs queue
      | Some (off_amt, req_amt) \<Rightarrow>
          (case (asset_new (ps_offered pair) off_amt, asset_new (ps_requested pair) req_amt) of
             (Some a, Some b) \<Rightarrow>
               (case lp_quote alive a b None queue of
                  (Inl (Closed _), queue') \<Rightarrow> (False, queue')
                | (_, queue') \<Rightarrow> quote_tick asset_new price alive pairs queue')
           | _ \<Rightarrow> quote_tick asset_new price alive pairs queue))"

text \<open>A finite prefix of the loop: per tick the prices and whether the connection task is there.\<close>

fun quote_loop :: "(TokenId \<Rightarrow> u64 \<Rightarrow> FungibleAsset option) \<Rightarrow> PairSpec list
    \<Rightarrow> ((PairSpec \<Rightarrow> (u64 \<times> u64) option) \<times> bool) list \<Rightarrow> ClientMsg list \<Rightarrow> ClientMsg list" where
  "quote_loop asset_new pairs [] queue = queue"
| "quote_loop asset_new pairs ((price, alive) # ticks) queue =
     (if \<not> alive then queue
      else case quote_tick asset_new price alive pairs queue of
        (True, queue') \<Rightarrow> quote_loop asset_new pairs ticks queue'
      | (False, queue') \<Rightarrow> queue')"

section \<open>The handshake\<close>

datatype ws_result = WsOpen | WsHttp nat string | WsFailed string

text \<open>
  \<open>bad_url\<close>: the message of the error when the url does not parse; \<open>header_ok\<close>: the
  header value is allowed; \<open>connect\<close>: the outcome of the upgrade.
\<close>

definition connect_and_auth :: "(string \<Rightarrow> string option) \<Rightarrow> (string \<Rightarrow> bool) \<Rightarrow> (string \<Rightarrow> string \<Rightarrow> ws_result)
    \<Rightarrow> string \<Rightarrow> string \<Rightarrow> LpError + unit" where
  "connect_and_auth bad_url header_ok connect url token =
     (case bad_url url of
        Some e \<Rightarrow> Inl (Transport (''invalid router url '' @ url @ '': '' @ e))
      | None \<Rightarrow>
          if \<not> header_ok (''Bearer '' @ token) then Inl (Transport ''token has invalid header characters'')
          else case connect url (''Bearer '' @ token) of
            WsOpen \<Rightarrow> Inr ()
          | WsHttp status e \<Rightarrow> if status = 401 then Inl AuthRejected else Inl (Transport e)
          | WsFailed e \<Rightarrow> Inl (Transport e))"

section \<open>The supervisor\<close>

datatype link_phase = Live | Backing | Stopped

record 'n lp_link =
  ll_phase :: link_phase
  ll_attempt :: u32
  ll_delay :: nat
  ll_queue :: "ClientMsg list"
  ll_wire :: "bytes list"
  ll_events :: "'n LpEvent list"
  ll_events_open :: bool

definition emit :: "'n LpEvent \<Rightarrow> 'n lp_link \<Rightarrow> 'n lp_link" where
  "emit e l = (if ll_events_open l then l\<lparr>ll_events := ll_events l @ [e]\<rparr> else l)"

text \<open>The state in which the supervisor takes over the first socket.\<close>

definition lp_connect :: "'n lp_link" where
  "lp_connect = emit EvAuthOk \<lparr>ll_phase = Live, ll_attempt = 0, ll_delay = RECONNECT_MIN, ll_queue = [], ll_wire = [],
     ll_events = [], ll_events_open = True\<rparr>"

datatype InFrame = InBinary bytes | InClose | InOther | InFailed | InEnd

definition link_dropped :: "nat \<Rightarrow> 'n lp_link \<Rightarrow> 'n lp_link" where
  "link_dropped uptime l =
     (if uptime \<ge> STABLE_UPTIME then l\<lparr>ll_phase := Backing, ll_attempt := 0, ll_delay := RECONNECT_MIN\<rparr>
      else l\<lparr>ll_phase := Backing\<rparr>)"

text \<open>The connection ends: for good when the client is gone, otherwise to be retried.\<close>

definition reader_ended :: "nat \<Rightarrow> 'n lp_link \<Rightarrow> 'n lp_link" where
  "reader_ended uptime l = (if ll_events_open l then link_dropped uptime l else l\<lparr>ll_phase := Stopped\<rparr>)"

definition reader_item :: "'n wire \<Rightarrow> nat \<Rightarrow> InFrame \<Rightarrow> 'n lp_link \<Rightarrow> 'n lp_link" where
  "reader_item w uptime item l =
     (case item of
        InBinary bs \<Rightarrow>
          (case read_from_bytes (server_codec w) bs of
             Some AuthOk \<Rightarrow> l
           | Some m \<Rightarrow> if ll_events_open l then emit (event_from m) l else reader_ended uptime l
           | None \<Rightarrow> l)
      | InOther \<Rightarrow> l
      | _ \<Rightarrow> reader_ended uptime l)"

text \<open>The sender takes the first queued message; a failed write loses it and drops the link.\<close>

definition sender_item :: "'n wire \<Rightarrow> bool \<Rightarrow> nat \<Rightarrow> 'n lp_link \<Rightarrow> 'n lp_link" where
  "sender_item w write_ok uptime l =
     (case ll_queue l of
        [] \<Rightarrow> l
      | msg # rest \<Rightarrow>
          if write_ok then l\<lparr>ll_queue := rest, ll_wire := ll_wire l @ [ClientMsg_write w msg]\<rparr>
          else link_dropped uptime (l\<lparr>ll_queue := rest\<rparr>))"

text \<open>One round of the retry loop; success discards what was queued during the outage.\<close>

definition reconnect_round :: "(LpError \<Rightarrow> string) \<Rightarrow> LpError + unit \<Rightarrow> 'n lp_link \<Rightarrow> 'n lp_link" where
  "reconnect_round render result l =
     (if \<not> ll_events_open l then l\<lparr>ll_phase := Stopped\<rparr>
      else
        let attempt = (if ll_attempt l = - 1 then - 1 else ll_attempt l + 1);
            l1 = emit (EvReconnecting attempt) (l\<lparr>ll_attempt := attempt\<rparr>);
            l2 = l1\<lparr>ll_delay := min (ll_delay l1 * 2) RECONNECT_MAX\<rparr>
        in (case result of
              Inr _ \<Rightarrow> emit EvReconnected (l2\<lparr>ll_phase := Live, ll_queue := [], ll_wire := []\<rparr>)
            | Inl AuthRejected \<Rightarrow> (emit (EvDisconnected (render AuthRejected)) l2)\<lparr>ll_phase := Stopped\<rparr>
            | Inl _ \<Rightarrow> l2))"

datatype lp_action =
    Post ClientMsg
  | Receive nat InFrame
  | Write nat bool
  | Attempt "LpError + unit"
  | DropClient
  | SenderNotices
  | SendersDropped

text \<open>
  \<open>SenderNotices\<close>: the outbound loop sees that the event receiver is gone;
  \<open>SendersDropped\<close>: every handle is gone and the queue is drained.
\<close>

fun lp_act :: "'n wire \<Rightarrow> (LpError \<Rightarrow> string) \<Rightarrow> lp_action \<Rightarrow> 'n lp_link \<Rightarrow> 'n lp_link" where
  "lp_act w render (Post msg) l = l\<lparr>ll_queue := snd (lp_send (ll_phase l \<noteq> Stopped) msg (ll_queue l))\<rparr>"
| "lp_act w render (Receive uptime item) l = (if ll_phase l = Live then reader_item w uptime item l else l)"
| "lp_act w render (Write uptime ok) l = (if ll_phase l = Live then sender_item w ok uptime l else l)"
| "lp_act w render (Attempt result) l = (if ll_phase l = Backing then reconnect_round render result l else l)"
| "lp_act w render DropClient l = l\<lparr>ll_events_open := False\<rparr>"
| "lp_act w render SenderNotices l = (if ll_phase l = Live \<and> \<not> ll_events_open l then l\<lparr>ll_phase := Stopped\<rparr> else l)"
| "lp_act w render SendersDropped l = (if ll_phase l = Live \<and> ll_queue l = [] then l\<lparr>ll_phase := Stopped\<rparr> else l)"

definition supervise :: "'n wire \<Rightarrow> (LpError \<Rightarrow> string) \<Rightarrow> lp_action list \<Rightarrow> 'n lp_link \<Rightarrow> 'n lp_link" where
  "supervise w render acts l = fold (lp_act w render) acts l"

section \<open>The event stream and the backoff\<close>

text \<open>What the documentation of the event type promises, as an automaton.\<close>

datatype ev_state = Fresh | Up | Retrying | Over

fun ev_next :: "ev_state \<Rightarrow> 'n LpEvent \<Rightarrow> ev_state option" where
  "ev_next Fresh EvAuthOk = Some Up"
| "ev_next Up (EvAsk _) = Some Up"
| "ev_next Up (EvHandover _) = Some Up"
| "ev_next Up (EvError _) = Some Up"
| "ev_next Up (EvReconnecting _) = Some Retrying"
| "ev_next Retrying (EvReconnecting _) = Some Retrying"
| "ev_next Retrying EvReconnected = Some Up"
| "ev_next Retrying (EvDisconnected _) = Some Over"
| "ev_next _ _ = None"

definition ev_run :: "'n LpEvent list \<Rightarrow> ev_state option" where
  "ev_run es = fold (\<lambda>e s. Option.bind s (\<lambda>q. ev_next q e)) es (Some Fresh)"

lemma ev_run_append [simp]: "ev_run (es @ fs) = fold (\<lambda>e s. Option.bind s (\<lambda>q. ev_next q e)) fs (ev_run es)"
  by (simp add: ev_run_def)

definition link_inv :: "'n lp_link \<Rightarrow> bool" where
  "link_inv l \<longleftrightarrow> RECONNECT_MIN \<le> ll_delay l \<and> ll_delay l \<le> RECONNECT_MAX \<and> ev_run (ll_events l) \<noteq> None
     \<and> (ev_run (ll_events l) = Some Over \<longrightarrow> ll_phase l = Stopped)
     \<and> (ll_events_open l \<longrightarrow> (ll_phase l = Live \<longrightarrow> ev_run (ll_events l) = Some Up)
          \<and> (ll_phase l = Backing \<longrightarrow> ev_run (ll_events l) \<in> {Some Up, Some Retrying}))"

lemma lp_connect_inv: "link_inv lp_connect"
  by (simp add: link_inv_def lp_connect_def emit_def ev_run_def RECONNECT_MIN_def RECONNECT_MAX_def)

lemma link_dropped_inv: "link_inv l \<Longrightarrow> ll_phase l = Live \<Longrightarrow> link_inv (link_dropped u l)"
  by (auto simp: link_inv_def link_dropped_def RECONNECT_MIN_def RECONNECT_MAX_def)

lemma stopped_inv: "link_inv l \<Longrightarrow> link_inv (l\<lparr>ll_phase := Stopped\<rparr>)"
  by (auto simp: link_inv_def)

lemma reader_item_inv:
  assumes "link_inv l" "ll_phase l = Live"
  shows "link_inv (reader_item w u item l)"
proof -
  have e: "link_inv (reader_ended u l)"
    using assms by (simp add: reader_ended_def link_dropped_inv stopped_inv)
  moreover have "link_inv (emit (EvAsk ps) l)" "link_inv (emit (EvHandover h) l)" "link_inv (emit (EvError err) l)" for ps h err
    using assms by (auto simp: link_inv_def emit_def)
  ultimately show ?thesis
    using assms(1) by (cases item) (auto simp: reader_item_def split: option.split ServerMsg.split)
qed

lemma reconnect_round_inv:
  assumes "link_inv l" "ll_phase l = Backing"
  shows "link_inv (reconnect_round render result l)"
proof (cases "ll_events_open l")
  case True
  then have "ev_run (ll_events l) \<in> {Some Up, Some Retrying}" "RECONNECT_MIN \<le> ll_delay l"
    using assms by (auto simp: link_inv_def)
  moreover have "RECONNECT_MIN \<le> min (ll_delay l * 2) RECONNECT_MAX"
    using \<open>RECONNECT_MIN \<le> ll_delay l\<close> by (simp add: RECONNECT_MIN_def RECONNECT_MAX_def)
  ultimately show ?thesis
    using True assms(2)
    by (auto simp: reconnect_round_def link_inv_def emit_def Let_def split: sum.split LpError.split)
qed (use assms in \<open>simp add: reconnect_round_def stopped_inv\<close>)

lemma lp_act_inv:
  assumes "link_inv l"
  shows "link_inv (lp_act w render a l)"
proof (cases a)
  case (Post msg)
  then show ?thesis
    using assms by (simp add: link_inv_def lp_send_def)
next
  case (Write u ok)
  have "link_inv (link_dropped u (l\<lparr>ll_queue := rest\<rparr>))" if "ll_phase l = Live" for rest
    by (rule link_dropped_inv) (use assms that in \<open>simp_all add: link_inv_def\<close>)
  then show ?thesis
    using assms Write by (auto simp: sender_item_def link_inv_def split: list.split)
qed (use assms in \<open>auto simp: reader_item_inv reconnect_round_inv stopped_inv\<close>, auto simp: link_inv_def)

interpretation link_system: invariant_system "\<lambda>l. l = lp_connect" "\<lambda>l l'. \<exists>a. l' = lp_act w render a l" link_inv
  by unfold_locales (auto simp: lp_connect_inv lp_act_inv)

lemma supervise_steps: "(\<lambda>l l'. \<exists>a. l' = lp_act w render a l)\<^sup>*\<^sup>* l (supervise w render acts l)"
proof (induction acts arbitrary: l)
  case (Cons a acts)
  show ?case
    using Cons.IH [of "lp_act w render a l"] by (auto simp: supervise_def intro: converse_rtranclp_into_rtranclp)
qed (simp add: supervise_def)

lemma supervise_inv: "link_inv (supervise w render acts lp_connect)"
  by (rule link_system.reachable_inv [OF refl supervise_steps])

lemma min_mult_cap:
  fixes x k cap :: nat
  assumes "0 < k"
  shows "min (min x cap * k) cap = min (x * k) cap"
proof (cases "x \<le> cap")
  case False
  have "cap * 1 \<le> cap * k" "cap * 1 \<le> x * k"
    using assms False by (intro mult_le_mono; simp)+
  with False show ?thesis
    by simp
qed simp

lemma failing_attempts:
  assumes "ll_phase l = Backing" "ll_events_open l" "ll_delay l \<le> RECONNECT_MAX"
  shows "ll_delay (supervise w render (replicate n (Attempt (Inl (Transport e)))) l) = min (ll_delay l * 2 ^ n) RECONNECT_MAX
    \<and> ll_phase (supervise w render (replicate n (Attempt (Inl (Transport e)))) l) = Backing"
  using assms
proof (induction n arbitrary: l)
  case (Suc n)
  define l' where "l' = lp_act w render (Attempt (Inl (Transport e))) l"
  have "ll_phase l' = Backing" "ll_events_open l'" "ll_delay l' = min (ll_delay l * 2) RECONNECT_MAX"
    using Suc.prems by (simp_all add: l'_def reconnect_round_def emit_def Let_def)
  moreover have "supervise w render (replicate (Suc n) (Attempt (Inl (Transport e)))) l = supervise w render (replicate n (Attempt (Inl (Transport e)))) l'"
    by (simp only: supervise_def l'_def replicate_Suc fold_simps)
  ultimately show ?case
    using Suc.IH [of l'] min_mult_cap [of "2 ^ n" "ll_delay l * 2" RECONNECT_MAX] by (simp only: power_Suc) (simp add: mult.assoc)
qed (simp add: supervise_def)

text \<open>
  C12: the event stream keeps its documented protocol and the backoff its bounds.
  Whatever the router, the network and the client do, the events are one \<open>AuthOk\<close>,
  then asks, handovers and errors, interrupted by runs of \<open>Reconnecting\<close> that end
  in \<open>Reconnected\<close> or in a final \<open>Disconnected\<close>; after it the supervisor has stopped.
  Every sleep lies between half a second and thirty seconds, and after a drop of a
  stable connection the n-th attempt in a row waits half a second times two to the n,
  capped.
\<close>

theorem link_protocol:
  assumes "l = supervise w render acts lp_connect"
  shows "ev_run (ll_events l) \<noteq> None \<and> (ev_run (ll_events l) = Some Over \<longrightarrow> ll_phase l = Stopped)
    \<and> 500 \<le> ll_delay l \<and> ll_delay l \<le> 30000
    \<and> (ll_events_open l \<longrightarrow>
         ll_delay (supervise w render (replicate n (Attempt (Inl (Transport e)))) (link_dropped 10000 l)) = min (500 * 2 ^ n) 30000)"
proof -
  have "ll_phase (link_dropped 10000 l) = Backing" "ll_delay (link_dropped 10000 l) = 500"
      "ll_events_open (link_dropped 10000 l) = ll_events_open l"
    by (simp_all add: link_dropped_def STABLE_UPTIME_def RECONNECT_MIN_def)
  then show ?thesis
    using failing_attempts [of "link_dropped 10000 l" w render n e] supervise_inv [of w render acts]
    by (auto simp: assms link_inv_def RECONNECT_MIN_def RECONNECT_MAX_def)
qed

theorem link_protocol_witness:
  "ev_run (ll_events (supervise tiny_wire (\<lambda>_. ''rejected'') [Receive 3 InClose, Attempt (Inl (Transport ''down'')), Attempt (Inr ())] lp_connect))
     = Some Up
   \<and> ll_delay (supervise tiny_wire (\<lambda>_. ''rejected'') [Receive 3 InClose, Attempt (Inl (Transport ''down'')), Attempt (Inr ())] lp_connect) \<le> 30000"
  using link_protocol [OF refl, of tiny_wire "\<lambda>_. ''rejected''" "[Receive 3 InClose, Attempt (Inl (Transport ''down'')), Attempt (Inr ())]"]
  by (simp add: supervise_def lp_connect_def emit_def reader_item_def reader_ended_def link_dropped_def reconnect_round_def Let_def
      STABLE_UPTIME_def ev_run_def)

section \<open>No stale quotes\<close>

definition posted :: "lp_action list \<Rightarrow> ClientMsg list" where
  "posted acts = List.map_filter (\<lambda>a. case a of Post m \<Rightarrow> Some m | _ \<Rightarrow> None) acts"

lemma posted_simps [simp]:
  "posted [] = []" "posted (a # acts) = (case a of Post m \<Rightarrow> m # posted acts | _ \<Rightarrow> posted acts)"
  "posted (acts @ acts') = posted acts @ posted acts'"
  by (auto simp: posted_def List.map_filter_def split: lp_action.split)

text \<open>Without a successful attempt, a link that is live was live all along.\<close>

lemma live_before:
  "a \<noteq> Attempt (Inr ()) \<Longrightarrow> ll_phase (lp_act w render a l) = Live \<Longrightarrow> ll_phase l = Live"
  by (cases a) (auto simp: reconnect_round_def Let_def emit_def split: if_splits sum.splits LpError.splits)

lemma live_account:
  assumes "ll_phase (supervise w render acts l) = Live" "Attempt (Inr ()) \<notin> set acts"
    "ll_wire l @ map (ClientMsg_write w) (ll_queue l) = map (ClientMsg_write w) before"
  shows "ll_phase l = Live \<and> ll_wire (supervise w render acts l) @ map (ClientMsg_write w) (ll_queue (supervise w render acts l))
    = map (ClientMsg_write w) (before @ posted acts)"
  using assms(1,2)
proof (induction acts rule: rev_induct)
  case (snoc a acts)
  define m where "m = supervise w render acts l"
  have m: "supervise w render (acts @ [a]) l = lp_act w render a m"
    by (simp add: supervise_def m_def)
  have live: "ll_phase m = Live"
    using snoc.prems live_before [of a w render m] by (auto simp: m)
  then have IH: "ll_phase l = Live" "ll_wire m @ map (ClientMsg_write w) (ll_queue m) = map (ClientMsg_write w) (before @ posted acts)"
    using snoc by (simp_all add: m_def)
  have "ll_phase (lp_act w render a m) = Live"
    using snoc.prems(1) by (simp add: m)
  then have "ll_wire (lp_act w render a m) @ map (ClientMsg_write w) (ll_queue (lp_act w render a m))
      = (ll_wire m @ map (ClientMsg_write w) (ll_queue m)) @ map (ClientMsg_write w) (posted [a])"
    using live by (cases a) (auto simp: lp_send_def reader_item_def reader_ended_def link_dropped_def sender_item_def emit_def
        split: InFrame.splits option.splits ServerMsg.splits if_splits list.splits)
  then show ?case
    using IH by (simp add: m)
qed (use assms in \<open>simp add: supervise_def\<close>)

text \<open>
  C11: no stale quote is put on the wire. After a reconnection, as long as the link
  stays up, the frames written to the new socket are, in order, the first of the
  messages posted since the link came up; nothing that was queued before or during
  the outage is sent.
\<close>

theorem no_stale_quote:
  assumes "ll_phase l = Backing" "m = lp_act w render (Attempt (Inr ())) l" "ll_phase m = Live"
    "k = supervise w render acts m" "ll_phase k = Live" "Attempt (Inr ()) \<notin> set acts"
  shows "prefix (ll_wire k) (map (ClientMsg_write w) (posted acts))"
proof -
  have "ll_wire m = []" "ll_queue m = []"
    using assms(1-3) by (auto simp: reconnect_round_def Let_def emit_def split: if_splits)
  then have "ll_wire k @ map (ClientMsg_write w) (ll_queue k) = map (ClientMsg_write w) (posted acts)"
    using live_account [of w render acts m "[]"] assms(4-6) by simp
  then show ?thesis
    by (metis prefixI)
qed

definition other_quote_msg :: ClientMsg where
  "other_quote_msg = QuoteMsg \<lparr>faucet_id = 2, asset_amount = 6\<rparr> \<lparr>faucet_id = 1, asset_amount = 4\<rparr> None"

theorem no_stale_quote_witness:
  "ll_wire (supervise tiny_wire (\<lambda>_. []) [Post sample_quote_msg, Receive 3 InClose, Attempt (Inr ()), Post other_quote_msg, Write 5 True] lp_connect)
     = [ClientMsg_write tiny_wire other_quote_msg]
   \<and> prefix [ClientMsg_write tiny_wire other_quote_msg] (map (ClientMsg_write tiny_wire) (posted [Post other_quote_msg, Write 5 True]))"
proof -
  define l where "l = supervise tiny_wire (\<lambda>_. []) [Post sample_quote_msg, Receive 3 InClose] lp_connect"
  define m where "m = lp_act tiny_wire (\<lambda>_. []) (Attempt (Inr ())) l"
  define k where "k = supervise tiny_wire (\<lambda>_. []) [Post other_quote_msg, Write 5 True] m"
  have l: "ll_phase l = Backing" "ll_events_open l"
    by (simp_all add: l_def supervise_def lp_connect_def emit_def lp_send_def reader_item_def reader_ended_def link_dropped_def)
  then have m: "ll_phase m = Live" "ll_wire m = []" "ll_queue m = []"
    by (simp_all add: m_def reconnect_round_def emit_def Let_def)
  then have k: "ll_phase k = Live" "ll_wire k = [ClientMsg_write tiny_wire other_quote_msg]"
    by (simp_all add: k_def supervise_def lp_send_def sender_item_def)
  have "k = supervise tiny_wire (\<lambda>_. []) [Post sample_quote_msg, Receive 3 InClose, Attempt (Inr ()), Post other_quote_msg, Write 5 True] lp_connect"
    by (simp only: k_def m_def l_def supervise_def fold_simps)
  with k no_stale_quote [OF l(1) m_def m(1) k_def k(1)] show ?thesis
    by simp
qed

section \<open>Client and router\<close>

lemma lp_quote_accepted:
  assumes "lp_quote alive a b v queue = (Inr (), queue')"
  shows "alive" "asset_amount a \<noteq> 0" "asset_amount b \<noteq> 0" "queue' = queue @ [QuoteMsg a b v]"
  using assms by (auto simp: lp_quote_def lp_send_def split: if_splits)

lemma quote_registers:
  assumes "lawful_wire w" "asset_amount a \<noteq> 0" "asset_amount b \<noteq> 0"
  shows "\<exists>q. q_dex q = d \<and> q_supply q = asset_amount a \<and> q_demand q = asset_amount b
    \<and> conn_item w why env now d (WsBinary (ClientMsg_write w (QuoteMsg a b v))) st
        = republish env (insert_quote d (faucet_id b, faucet_id a) q st)"
proof -
  have "read_from_bytes (client_codec w) (ClientMsg_write w (QuoteMsg a b v)) = Some (QuoteMsg a b v)"
    using lawful_read_from_bytes [OF client_lawful [OF assms(1)], of "QuoteMsg a b v"] by (simp add: client_codec_def)
  then show ?thesis
    using assms(2,3)
    by (intro exI [of _ "\<lparr>q_dex = d, q_pair = (faucet_id b, faucet_id a), q_supply = asset_amount a, q_demand = asset_amount b,
        q_expires_at = saturating_add now (case v of None \<Rightarrow> quote_ttl_ms (rs_cfg st) | Some v \<Rightarrow> min v (quote_ttl_ms (rs_cfg st)))\<rparr>"])
      (simp add: conn_item_def handle_client_msg_def register_quote_def Let_def)
qed

lemma reader_handover:
  assumes "lawful_wire w" "ll_events_open l"
  shows "ll_events (reader_item w u (InBinary (handover_frame w (enc (w_note w) nt) amount)) l)
    = ll_events l @ [EvHandover \<lparr>ho_note = nt, ho_fill_amount = amount\<rparr>]"
proof -
  have "handover_frame w (enc (w_note w) nt) amount = enc (server_codec w) (HandoverMsg nt amount)"
    by (simp add: handover_frame_def server_codec_def)
  then have "read_from_bytes (server_codec w) (handover_frame w (enc (w_note w) nt) amount) = Some (HandoverMsg nt amount)"
    using lawful_read_from_bytes [OF server_lawful [OF assms(1)]] by simp
  then show ?thesis
    using assms(2) by (simp add: reader_item_def emit_def)
qed



end
