(* ===== verification/Mirror.thy ===== *)
theory Mirror
  imports Ingest Matching_Types Std_Text "HOL-Library.Sublist"
begin

text \<open>
  The mock mirror, \<open>mock-mirror/src/mirror.rs\<close> and \<open>config.rs\<close>: a test service that
  answers user orders with counter-orders the solver can match. Modelled are its
  configuration, the retried submission, the arithmetic of a counter-order, parsing,
  the tick and the claiming of payments; the client library, the random bit and the
  parsing of identifiers are parameters. The lemmas show that a retried submission
  lands at most once, and which counter-orders the solver's gate accepts.
\<close>

section \<open>Configuration\<close>

record RpcCfg =
  rc_endpoint :: string
  rc_timeout_ms :: u64
  rc_network :: string
  rc_prover_endpoint :: "string option"
  rc_prover_timeout_ms :: u64

definition default_prover_timeout_ms :: u64 where
  "default_prover_timeout_ms = 30000"

datatype NetworkId = Devnet | Testnet | Mainnet

definition network_id :: "RpcCfg \<Rightarrow> NetworkId option" where
  "network_id self =
     (let n = map ascii_lower (rc_network self)
      in if n = ''devnet'' then Some Devnet else if n = ''testnet'' then Some Testnet
         else if n = ''mainnet'' then Some Mainnet else None)"

text \<open>\<open>'p\<close>: the probability, a 64-bit float.\<close>

record 'p SettingsCfg =
  solver_account_id :: string
  spread_bps :: u64
  partial_fill_probability :: 'p
  max_mirrors_per_tick :: nat
  sync_interval_ms :: u64
  seed :: u64
  allow_mainnet :: bool

record MockAccountCfg =
  mock_account_id :: "string option"
  mock_keystore_path :: string
  mock_store_path :: string
  mock_account_file :: "string option"

record PairCfg =
  token_a_faucet_id :: string
  token_b_faucet_id :: string

record InventoryCfg =
  inv_faucet_id :: string
  low_water :: u64

record 'p MockConfig =
  mc_rpc :: RpcCfg
  mc_mock :: MockAccountCfg
  mc_settings :: "'p SettingsCfg"
  mc_pairs :: "PairCfg list"
  mc_inventory :: "InventoryCfg list"

datatype mock_config_error = UnknownNetwork | BadSpread | BadProbability | LooksLikeMainnet

fun contains_str :: "string \<Rightarrow> string \<Rightarrow> bool" where
  "contains_str pat [] = (pat = [])"
| "contains_str pat (c # s) = (take (length pat) (c # s) = pat \<or> contains_str pat s)"

definition mock_validate :: "('p \<Rightarrow> bool) \<Rightarrow> 'p MockConfig \<Rightarrow> mock_config_error + unit" where
  "mock_validate in_unit_interval self =
     (if network_id (mc_rpc self) = None then Inl UnknownNetwork
      else if spread_bps (mc_settings self) = 0 \<or> spread_bps (mc_settings self) \<ge> 10000 then Inl BadSpread
      else if \<not> in_unit_interval (partial_fill_probability (mc_settings self)) then Inl BadProbability
      else if \<not> allow_mainnet (mc_settings self) \<and> contains_str ''mainnet'' (map ascii_lower (rc_endpoint (mc_rpc self)))
      then Inl LooksLikeMainnet
      else Inr ())"

section \<open>Submission with backoff\<close>

definition MAX_SUBMIT_RETRIES :: nat where "MAX_SUBMIT_RETRIES = 5"
definition INITIAL_SUBMIT_BACKOFF :: nat where "INITIAL_SUBMIT_BACKOFF = 500"
definition MAX_SUBMIT_BACKOFF :: nat where "MAX_SUBMIT_BACKOFF = 30000"

datatype ClientError = RpcError string | TransactionProvingError string | OtherClientError string

fun is_transient :: "ClientError \<Rightarrow> bool" where
  "is_transient (RpcError _) = True"
| "is_transient (TransactionProvingError _) = True"
| "is_transient (OtherClientError _) = False"

text \<open>
  Per attempt: the nonce read after the sync that precedes a retry (\<open>None\<close>: it cannot
  be read), an error of building the request, and the error of the submission.
\<close>

record attempt =
  at_nonce :: "u64 option"
  at_build :: "string option"
  at_reply :: "ClientError option"

datatype submit_error = BuildFailed string | SubmitFailed ClientError

text \<open>
  The loop with the attempts that remain: the result, the sleeps and the attempts that
  submitted. \<open>None\<close>: the loop runs out, which the source marks unreachable.
\<close>

fun submit_rounds :: "(nat \<Rightarrow> attempt) \<Rightarrow> u64 option \<Rightarrow> nat \<Rightarrow> nat \<Rightarrow> ((submit_error + unit) \<times> nat list \<times> nat list) option" where
  "submit_rounds env nonce_before 0 backoff = None"
| "submit_rounds env nonce_before (Suc n) backoff =
     (let k = MAX_SUBMIT_RETRIES - n; a = env k
      in if k > 0 \<and> (case (nonce_before, at_nonce a) of (Some before, Some now) \<Rightarrow> now \<noteq> before | _ \<Rightarrow> False)
         then Some (Inr (), [], [])
         else case at_build a of
           Some e \<Rightarrow> Some (Inl (BuildFailed e), [], [])
         | None \<Rightarrow>
             (case at_reply a of
                None \<Rightarrow> Some (Inr (), [], [k])
              | Some e \<Rightarrow>
                  if is_transient e \<and> k < MAX_SUBMIT_RETRIES
                  then map_option (\<lambda>(r, sleeps, subs). (r, backoff # sleeps, k # subs))
                         (submit_rounds env nonce_before n (min (backoff * 2) MAX_SUBMIT_BACKOFF))
                  else Some (Inl (SubmitFailed e), [], [k])))"

definition submit_with_backoff :: "(nat \<Rightarrow> attempt) \<Rightarrow> u64 option \<Rightarrow> ((submit_error + unit) \<times> nat list \<times> nat list) option" where
  "submit_with_backoff env nonce_before = submit_rounds env nonce_before (MAX_SUBMIT_RETRIES + 1) INITIAL_SUBMIT_BACKOFF"

section \<open>Counter-orders\<close>

definition mul_div :: "u64 \<Rightarrow> u64 \<Rightarrow> u64 \<Rightarrow> u64" where
  "mul_div a num den = as_u64 (as_u128 a * as_u128 num div as_u128 den)"

definition favorable_counter :: "u64 \<Rightarrow> u64 \<Rightarrow> u64 \<Rightarrow> u64 \<Rightarrow> u64 \<Rightarrow> (u64 \<times> u64) option" where
  "favorable_counter off_amt req_amt spread fill_num fill_den =
     (let counter_offered = mul_div req_amt fill_num fill_den;
          scaled_a = mul_div off_amt fill_num fill_den
      in if counter_offered = 0 \<or> scaled_a = 0 then None
         else
           let counter_requested = min (mul_div scaled_a (10000 - spread) 10000) (saturating_sub scaled_a 1)
           in if counter_requested = 0 then None else Some (counter_offered, counter_requested))"

definition parse_pswap :: "'n chain \<Rightarrow> 'n \<Rightarrow> Pswap option" where
  "parse_pswap ch nt =
     (if \<not> ch_is_pswap ch nt then None
      else case ch_parse ch nt of
        None \<Rightarrow> None
      | Some ps \<Rightarrow> if ps_offered_amount ps = 0 \<or> ps_requested_amount ps = 0 then None else Some ps)"

text \<open>The generator steps its state and yields the top 53 bits, read as a fraction of \<open>2^53\<close>.\<close>

definition next_unit :: "u64 \<Rightarrow> u64 \<times> u64" where
  "next_unit state = (let s = state * 6364136223846793005 + 1442695040888963407 in (drop_bit 11 s, s))"

section \<open>The tick\<close>

record counter_order =
  co_for :: OrderId
  co_offered_faucet :: TokenId
  co_offered_amount :: u64
  co_requested_faucet :: TokenId
  co_requested_amount :: u64

text \<open>
  Per tick: the stored note of an id, whether an asset can be made, whether the counter
  note can be built, the nonce before its submission and what the attempts meet, and
  whether a drawn fraction is below the configured probability.
\<close>

record 'n mirror_env =
  me_note :: "OrderId \<Rightarrow> 'n option"
  me_asset_ok :: "TokenId \<Rightarrow> u64 \<Rightarrow> bool"
  me_build_ok :: "OrderId \<Rightarrow> bool"
  me_nonce :: "OrderId \<Rightarrow> u64 option"
  me_attempts :: "OrderId \<Rightarrow> nat \<Rightarrow> attempt"
  me_partial :: "u64 \<Rightarrow> bool"

datatype note_decision = Skip u64 | Abort | Mirror u64 counter_order

definition submitted :: "(nat \<Rightarrow> attempt) \<Rightarrow> u64 option \<Rightarrow> bool" where
  "submitted env nonce_before = (case submit_with_backoff env nonce_before of Some (Inr _, _) \<Rightarrow> True | _ \<Rightarrow> False)"

definition decide_note :: "'n chain \<Rightarrow> 'n mirror_env \<Rightarrow> u64 \<Rightarrow> nat \<Rightarrow> nat \<Rightarrow> OrderId \<Rightarrow> u64 \<Rightarrow> note_decision" where
  "decide_note ch env spread mock_id solver_id oid rng =
     (case Option.bind (me_note env oid) (parse_pswap ch) of
        None \<Rightarrow> Skip rng
      | Some ord \<Rightarrow>
          if ps_creator ord = mock_id \<or> ps_creator ord = solver_id then Skip rng
          else
            let (u, rng') = next_unit rng;
                (fnum, fden) = (if me_partial env u then (1, 2) else (1, 1))
            in (case favorable_counter (ps_offered_amount ord) (ps_requested_amount ord) spread fnum fden of
                  None \<Rightarrow> Skip rng'
                | Some (counter_offered, counter_requested) \<Rightarrow>
                    if \<not> me_asset_ok env (ps_requested_faucet ord) counter_offered then Abort
                    else if \<not> me_asset_ok env (ps_offered_faucet ord) counter_requested then Abort
                    else Mirror rng' \<lparr>co_for = oid, co_offered_faucet = ps_requested_faucet ord, co_offered_amount = counter_offered,
                                      co_requested_faucet = ps_offered_faucet ord, co_requested_amount = counter_requested\<rparr>))"

text \<open>The loop over the new notes: whether it aborted, the generator, the orders considered and the counters posted.\<close>

fun mirror_notes :: "'n chain \<Rightarrow> 'n mirror_env \<Rightarrow> u64 \<Rightarrow> nat \<Rightarrow> nat \<Rightarrow> nat \<Rightarrow> OrderId list \<Rightarrow> u64 \<Rightarrow> nat \<Rightarrow> counter_order list
    \<Rightarrow> bool \<times> u64 \<times> counter_order list" where
  "mirror_notes ch env spread cap mock_id solver_id [] rng considered done_so_far = (False, rng, done_so_far)"
| "mirror_notes ch env spread cap mock_id solver_id (oid # ids) rng considered done_so_far =
     (if considered \<ge> cap then (False, rng, done_so_far)
      else case decide_note ch env spread mock_id solver_id oid rng of
        Abort \<Rightarrow> (True, snd (next_unit rng), done_so_far)
      | Skip rng' \<Rightarrow> mirror_notes ch env spread cap mock_id solver_id ids rng' considered done_so_far
      | Mirror rng' c \<Rightarrow>
          mirror_notes ch env spread cap mock_id solver_id ids rng' (considered + 1)
            (if me_build_ok env oid \<and> submitted (me_attempts env oid) (me_nonce env oid) then done_so_far @ [c] else done_so_far))"

text \<open>
  Claiming: the committed notes of the client, \<open>None\<close> for a record that is not a note.
  Orders are left alone; what cannot be consumed is skipped.
\<close>

definition claim_incoming :: "'n chain \<Rightarrow> ('n \<Rightarrow> u64 option \<times> (nat \<Rightarrow> attempt)) \<Rightarrow> 'n option list option \<Rightarrow> 'n list option" where
  "claim_incoming ch env_of records =
     (case records of
        None \<Rightarrow> None
      | Some rs \<Rightarrow>
          if None \<in> set rs then None
          else Some (filter (\<lambda>nt. case env_of nt of (nonce_before, env) \<Rightarrow> submitted env nonce_before) (filter (\<lambda>nt. \<not> ch_is_pswap ch nt) (map the rs))))"

text \<open>
  Monitoring: the tokens whose balance is low, or \<open>None\<close> when an identifier does not
  parse or a balance cannot be read.
\<close>

fun monitor_inventory :: "(string \<Rightarrow> TokenId option) \<Rightarrow> (TokenId \<Rightarrow> u64 option) \<Rightarrow> InventoryCfg list \<Rightarrow> TokenId list option" where
  "monitor_inventory parse_id get_balance [] = Some []"
| "monitor_inventory parse_id get_balance (item # items) =
     Option.bind (parse_id (inv_faucet_id item)) (\<lambda>faucet.
     Option.bind (get_balance faucet) (\<lambda>balance.
       map_option (\<lambda>low. if balance < low_water item then faucet # low else low)
         (monitor_inventory parse_id get_balance items)))"

datatype 'n tick_result = SyncError | Claimed "'n list option" | AssetError "counter_order list"
  | Mirrored "counter_order list" "TokenId list option"

definition mirror_tick :: "'n chain \<Rightarrow> 'n mirror_env \<Rightarrow> ('n \<Rightarrow> u64 option \<times> (nat \<Rightarrow> attempt)) \<Rightarrow> 'n option list option
    \<Rightarrow> (string \<Rightarrow> TokenId option) \<Rightarrow> (TokenId \<Rightarrow> u64 option) \<Rightarrow> 'p MockConfig \<Rightarrow> nat \<Rightarrow> nat
    \<Rightarrow> SyncSummary option \<Rightarrow> u64 \<Rightarrow> 'n tick_result \<times> u64" where
  "mirror_tick ch env env_of records parse_id get_balance cfg mock_id solver_id summary rng =
     (case summary of
        None \<Rightarrow> (SyncError, rng)
      | Some s \<Rightarrow>
          if sm_new_public_notes s = [] \<and> sm_new_private_notes s = [] then (Claimed (claim_incoming ch env_of records), rng)
          else
            let (aborted, rng', posted) =
              mirror_notes ch env (spread_bps (mc_settings cfg)) (max_mirrors_per_tick (mc_settings cfg)) mock_id solver_id
                (sm_new_public_notes s @ sm_new_private_notes s) rng 0 []
            in if aborted then (AssetError posted, rng')
               else (Mirrored posted (monitor_inventory parse_id get_balance (mc_inventory cfg)), rng'))"

text \<open>Subscribing the configured pairs in both directions; the first failure stops.\<close>

fun mirror_subscribe :: "(string \<Rightarrow> TokenId option) \<Rightarrow> (TokenId \<Rightarrow> bool) \<Rightarrow> (TokenId \<Rightarrow> TokenId \<Rightarrow> 't) \<Rightarrow> (TokenId \<Rightarrow> TokenId \<Rightarrow> bool)
    \<Rightarrow> PairCfg list \<Rightarrow> 't set \<Rightarrow> bool \<times> 't set" where
  "mirror_subscribe parse_id asset_ok create_tag tag_ok [] tags = (True, tags)"
| "mirror_subscribe parse_id asset_ok create_tag tag_ok (p # ps) tags =
     (case (parse_id (token_a_faucet_id p), parse_id (token_b_faucet_id p)) of
        (Some a, Some b) \<Rightarrow>
          (case subscribe_pair asset_ok create_tag (tag_ok a b) a b tags of
             (False, tags1) \<Rightarrow> (False, tags1)
           | (True, tags1) \<Rightarrow>
               (case subscribe_pair asset_ok create_tag (tag_ok b a) b a tags1 of
                  (False, tags2) \<Rightarrow> (False, tags2)
                | (True, tags2) \<Rightarrow> mirror_subscribe parse_id asset_ok create_tag tag_ok ps tags2))
      | _ \<Rightarrow> (False, tags))"

section \<open>A retried submission lands at most once\<close>

text \<open>
  A chain that may lose replies: \<open>landed i\<close> when the transaction of attempt \<open>i\<close> is
  committed. Every commit advances the nonce, a reply of success means a commit, and an
  error that is not transient means there was none.
\<close>

definition lossy_chain :: "(nat \<Rightarrow> attempt) \<Rightarrow> (nat \<Rightarrow> bool) \<Rightarrow> u64 \<Rightarrow> bool" where
  "lossy_chain env landed b \<longleftrightarrow>
     (\<forall>i. at_nonce (env i) = Some (b + of_nat (length (filter landed [0..<i]))))
     \<and> (\<forall>i. at_reply (env i) = None \<longrightarrow> landed i)
     \<and> (\<forall>i e. at_reply (env i) = Some e \<longrightarrow> \<not> is_transient e \<longrightarrow> \<not> landed i)"

definition landed_once :: "(nat \<Rightarrow> bool) \<Rightarrow> nat \<Rightarrow> (submit_error + unit) \<times> nat list \<times> nat list \<Rightarrow> bool" where
  "landed_once landed n res \<longleftrightarrow>
     (case res of (r, sleeps, subs) \<Rightarrow>
        length subs \<le> n \<and> list_all (\<lambda>t. t \<le> MAX_SUBMIT_BACKOFF) sleeps
        \<and> (case r of Inr _ \<Rightarrow> length (filter landed subs) = 1
           | Inl _ \<Rightarrow> filter landed subs = [] \<or> filter landed subs = [MAX_SUBMIT_RETRIES]))"

lemma landed_once_retry:
  assumes "landed_once landed n (r, sleeps, subs)" "\<not> landed k" "backoff \<le> MAX_SUBMIT_BACKOFF"
  shows "landed_once landed (Suc n) (r, backoff # sleeps, k # subs)"
  using assms by (simp add: landed_once_def split: sum.splits)

lemma none_landed: "(\<And>j. j < k \<Longrightarrow> \<not> landed j) \<Longrightarrow> filter landed [0..<k] = []"
  by (simp add: filter_empty_conv)

lemma submit_rounds_landed_next:
  assumes "lossy_chain env landed b" "\<And>j. j < MAX_SUBMIT_RETRIES - Suc n \<Longrightarrow> \<not> landed j"
    "landed (MAX_SUBMIT_RETRIES - Suc n)" "n < MAX_SUBMIT_RETRIES"
  shows "submit_rounds env (Some b) (Suc n) backoff = Some (Inr (), [], [])"
proof -
  have k: "MAX_SUBMIT_RETRIES - n = Suc (MAX_SUBMIT_RETRIES - Suc n)"
    using assms(4) by simp
  have "at_nonce (env (MAX_SUBMIT_RETRIES - n)) = Some (b + 1)"
    using assms(1,3) none_landed [of "MAX_SUBMIT_RETRIES - Suc n" landed, OF assms(2)]
    by (simp add: lossy_chain_def k)
  then show ?thesis
    by (simp add: k Let_def)
qed

lemma submit_rounds_stops:
  assumes "lossy_chain env landed b" "at_nonce (env (MAX_SUBMIT_RETRIES - n)) = Some b"
    "\<not> (at_build (env (MAX_SUBMIT_RETRIES - n)) = None \<and> (\<exists>e. at_reply (env (MAX_SUBMIT_RETRIES - n)) = Some e \<and> is_transient e))"
  shows "\<exists>res. submit_rounds env (Some b) (Suc n) backoff = Some res \<and> landed_once landed (Suc n) res"
proof (cases "at_build (env (MAX_SUBMIT_RETRIES - n))")
  case None
  show ?thesis
  proof (cases "at_reply (env (MAX_SUBMIT_RETRIES - n))")
    case None
    with \<open>at_build (env (MAX_SUBMIT_RETRIES - n)) = None\<close> assms(2) have "submit_rounds env (Some b) (Suc n) backoff = Some (Inr (), [], [MAX_SUBMIT_RETRIES - n])"
      by (simp add: Let_def)
    with None assms(1) show ?thesis
      by (simp add: lossy_chain_def landed_once_def)
  next
    case (Some e)
    with \<open>at_build (env (MAX_SUBMIT_RETRIES - n)) = None\<close> assms(3) have "\<not> is_transient e"
      by blast
    with Some \<open>at_build (env (MAX_SUBMIT_RETRIES - n)) = None\<close> assms(2) have
      "submit_rounds env (Some b) (Suc n) backoff = Some (Inl (SubmitFailed e), [], [MAX_SUBMIT_RETRIES - n])"
      by (simp add: Let_def)
    moreover from assms(1) Some \<open>\<not> is_transient e\<close> have "\<not> landed (MAX_SUBMIT_RETRIES - n)"
      by (simp add: lossy_chain_def)
    ultimately show ?thesis
      by (simp add: landed_once_def)
  qed
next
  case (Some e)
  with assms(2) have "submit_rounds env (Some b) (Suc n) backoff = Some (Inl (BuildFailed e), [], [])"
    by (simp add: Let_def)
  then show ?thesis
    by (simp add: landed_once_def)
qed

lemma submit_rounds_once:
  assumes "lossy_chain env landed b"
  shows "n \<le> MAX_SUBMIT_RETRIES \<Longrightarrow> (\<And>j. j < MAX_SUBMIT_RETRIES - n \<Longrightarrow> \<not> landed j) \<Longrightarrow> backoff \<le> MAX_SUBMIT_BACKOFF \<Longrightarrow>
    \<exists>res. submit_rounds env (Some b) (Suc n) backoff = Some res \<and> landed_once landed (Suc n) res"
proof (induction n arbitrary: backoff)
  case 0
  have "at_nonce (env MAX_SUBMIT_RETRIES) = Some b"
    using assms none_landed [of MAX_SUBMIT_RETRIES landed] "0.prems"(2) by (simp add: lossy_chain_def)
  then show ?case
    using assms by (auto simp: lossy_chain_def landed_once_def Let_def split: option.splits)
next
  case (Suc n)
  let ?k = "MAX_SUBMIT_RETRIES - Suc n"
  have nonce: "at_nonce (env ?k) = Some b"
    using assms none_landed [of ?k landed] Suc.prems(2) by (simp add: lossy_chain_def)
  have kn: "?k < MAX_SUBMIT_RETRIES" "n < MAX_SUBMIT_RETRIES" "MAX_SUBMIT_RETRIES - n = Suc ?k"
    using Suc.prems(1) by simp_all
  have cap: "min (backoff * 2) MAX_SUBMIT_BACKOFF \<le> MAX_SUBMIT_BACKOFF"
    by simp
  show ?case
  proof (cases "at_build (env ?k) = None \<and> (\<exists>e. at_reply (env ?k) = Some e \<and> is_transient e)")
    case False
    with submit_rounds_stops [OF assms nonce] show ?thesis
      by blast
  next
    case True
    then have step: "submit_rounds env (Some b) (Suc (Suc n)) backoff =
        map_option (\<lambda>(r, sleeps, subs). (r, backoff # sleeps, ?k # subs))
          (submit_rounds env (Some b) (Suc n) (min (backoff * 2) MAX_SUBMIT_BACKOFF))"
      using nonce kn(1) by (subst submit_rounds.simps(2)) (auto simp: Let_def simp del: submit_rounds.simps)
    show ?thesis
    proof (cases "landed ?k")
      case True
      with submit_rounds_landed_next [OF assms _ True kn(2)] Suc.prems(2,3) show ?thesis
        unfolding step by (simp add: landed_once_def del: submit_rounds.simps)
    next
      case False
      then have "\<And>j. j < MAX_SUBMIT_RETRIES - n \<Longrightarrow> \<not> landed j"
        using Suc.prems(2) unfolding kn(3) less_Suc_eq by blast
      from Suc.IH [OF less_imp_le [OF kn(2)] this cap] obtain r sleeps subs where
        "submit_rounds env (Some b) (Suc n) (min (backoff * 2) MAX_SUBMIT_BACKOFF) = Some (r, sleeps, subs)"
        "landed_once landed (Suc n) (r, sleeps, subs)"
        by (metis prod_cases3)
      then show ?thesis
        unfolding step using landed_once_retry [where landed = landed and n = "Suc n" and k = ?k, OF _ False Suc.prems(3)] by (simp del: submit_rounds.simps)
    qed
  qed
qed


definition lost_reply :: "nat \<Rightarrow> attempt" where
  "lost_reply i = \<lparr>at_nonce = Some (7 + of_nat (length (filter (\<lambda>j. j = 1) [0..<i]))), at_build = None, at_reply = Some (RpcError ''timeout'')\<rparr>"

lemmas submit_rounds_numeral = submit_rounds.simps(2) [of _ _ "pred_numeral v" for v, folded numeral_eq_Suc]


section \<open>Counter-orders\<close>

lemma unat_mul_div:
  assumes "unat num \<le> unat den"
  shows "unat (mul_div a num den) = unat a * unat num div unat den"
proof -
  have "unat a * unat num div unat den \<le> unat a"
    using assms by (rule mult_div_le_left)
  then have "unat a * unat num div unat den < 2 ^ 64"
    using unat_u64_lt le_less_trans by blast
  then show ?thesis
    by (simp add: mul_div_def unat_as_u64 unat_div_distrib)
qed

lemma mul_div_one [simp]: "mul_div a 1 1 = a"
  by (rule word_unat_eq_iff [THEN iffD2]) (simp add: unat_mul_div)

lemma mul_div_half: "unat (mul_div a 1 2) = unat a div 2"
  by (simp add: unat_mul_div)

text \<open>A full mirror offers exactly what the user requests for strictly less than the user offers.\<close>

lemma favorable_counter_full:
  assumes "favorable_counter a b spread 1 1 = Some (co, cr)"
  shows "co = b" "0 < cr" "cr < a" "0 < b"
proof -
  have "co = b" "b \<noteq> 0" "cr \<noteq> 0" "a \<noteq> 0" "cr \<le> saturating_sub a 1"
    using assms by (auto simp: favorable_counter_def Let_def split: if_splits)
  moreover from this have "0 < unat a" "unat cr \<le> unat a - 1"
    by (simp_all add: word_le_nat_alt)
  then have "unat cr < unat a"
    by linarith
  ultimately show "co = b" "0 < cr" "cr < a" "0 < b"
    by (simp_all add: word_less_nat_alt)
qed

lemma favorable_counter_half:
  assumes "favorable_counter a b spread 1 2 = Some (co, cr)"
  shows "0 < co" "co < b" "0 < cr" "cr < a"
proof -
  have *: "co = mul_div b 1 2" "co \<noteq> 0" "cr \<noteq> 0" "mul_div a 1 2 \<noteq> 0" "cr \<le> saturating_sub (mul_div a 1 2) 1"
    using assms by (auto simp: favorable_counter_def Let_def split: if_splits)
  then have "0 < unat b div 2" "0 < unat a div 2"
    unfolding mul_div_half [symmetric] by simp_all
  moreover have "unat co = unat b div 2" "unat cr \<le> unat a div 2"
    using * mul_div_half [of a] by (simp_all add: mul_div_half word_le_nat_alt)
  ultimately have "unat co < unat b" "unat cr < unat a"
    by linarith+
  with * show "0 < co" "co < b" "0 < cr" "cr < a"
    by (simp_all add: word_less_nat_alt)
qed

definition pswap_order :: "OrderId \<Rightarrow> Pswap \<Rightarrow> Order" where
  "pswap_order oid ps = \<lparr>order_id = oid, offered_token = ps_offered_faucet ps, requested_token = ps_requested_faucet ps,
     offered = ps_offered_amount ps, requested = ps_requested_amount ps, requested_remaining = ps_requested_amount ps\<rparr>"

definition counter_as_order :: "OrderId \<Rightarrow> counter_order \<Rightarrow> Order" where
  "counter_as_order oid c = \<lparr>order_id = oid, offered_token = co_offered_faucet c, requested_token = co_requested_faucet c,
     offered = co_offered_amount c, requested = co_requested_amount c, requested_remaining = co_requested_amount c\<rparr>"

text \<open>Against a full mirror the solver's match fills both orders and keeps the spread.\<close>

lemma full_counter_settles:
  assumes "offered u = a" "requested u = b" "requested_remaining u = b"
    "offered c = b" "requested c = cr" "requested_remaining c = cr" "0 < cr" "cr < a" "0 < b"
  shows "match_with u c = (Some \<lparr>surplus_offered = a - cr, surplus_requested = 0\<rparr>,
    u\<lparr>requested_remaining := 0\<rparr>, c\<lparr>requested_remaining := 0\<rparr>)"
proof -
  have full: "offered_for u b = a" "offered_for c cr = b"
    using offered_for_requested [of u] offered_for_requested [of c] assms by auto
  have gate: "is_profitable_with u c"
    using assms by (simp add: is_profitable_with_def widening_mul_less word_less_nat_alt)
  have "a \<noteq> 0" "b \<noteq> 0" "cr \<noteq> 0" "cr \<le> a" "\<not> a < cr"
    using assms by auto
  then show ?thesis
    using gate full assms by (simp add: match_with_def fill_def offered_remaining_def is_active_def Let_def saturating_sub_def min_def)
qed

text \<open>The rounding of a half mirror can price it out of the gate it is meant to clear.\<close>

lemma half_counter_can_miss_gate:
  "\<exists>c. favorable_counter 1000 3 30 1 2 = Some c \<and> c = (1, 498)
     \<and> \<not> 3 * unat (snd c) < 1000 * unat (fst c)"
  by (intro exI [of _ "(1, 498)"] conjI) code_simp+

section \<open>The tick mirrors only the orders of others, each once, within the cap\<close>

definition fair_counter :: "'n chain \<Rightarrow> 'n mirror_env \<Rightarrow> nat \<Rightarrow> nat \<Rightarrow> counter_order \<Rightarrow> bool" where
  "fair_counter ch env mock_id solver_id c \<longleftrightarrow>
     (case Option.bind (me_note env (co_for c)) (parse_pswap ch) of
        None \<Rightarrow> False
      | Some ps \<Rightarrow>
          ps_creator ps \<noteq> mock_id \<and> ps_creator ps \<noteq> solver_id
          \<and> co_offered_faucet c = ps_requested_faucet ps \<and> co_requested_faucet c = ps_offered_faucet ps
          \<and> 0 < co_offered_amount c \<and> co_offered_amount c \<le> ps_requested_amount ps
          \<and> 0 < co_requested_amount c \<and> co_requested_amount c < ps_offered_amount ps
          \<and> (co_offered_amount c < ps_requested_amount ps \<or>
             (\<forall>i j. match_with (pswap_order i ps) (counter_as_order j c) =
               (Some \<lparr>surplus_offered = ps_offered_amount ps - co_requested_amount c, surplus_requested = 0\<rparr>,
                (pswap_order i ps)\<lparr>requested_remaining := 0\<rparr>, (counter_as_order j c)\<lparr>requested_remaining := 0\<rparr>))))"

lemma decide_note_fair:
  assumes "decide_note ch env spread mock_id solver_id oid rng = Mirror rng' c"
  shows "fair_counter ch env mock_id solver_id c" "co_for c = oid"
proof -
  obtain ps where ps: "Option.bind (me_note env oid) (parse_pswap ch) = Some ps"
      "ps_creator ps \<noteq> mock_id" "ps_creator ps \<noteq> solver_id"
    using assms by (auto simp: decide_note_def split: option.splits if_splits)
  have fc: "favorable_counter (ps_offered_amount ps) (ps_requested_amount ps) spread 1 2
        = Some (co_offered_amount c, co_requested_amount c)
      \<or> favorable_counter (ps_offered_amount ps) (ps_requested_amount ps) spread 1 1
        = Some (co_offered_amount c, co_requested_amount c)"
    and c: "co_for c = oid" "co_offered_faucet c = ps_requested_faucet ps" "co_requested_faucet c = ps_offered_faucet ps"
    using assms ps by (auto simp: decide_note_def Let_def split: option.splits if_splits prod.splits)
  show "co_for c = oid"
    by (fact c)
  from fc show "fair_counter ch env mock_id solver_id c"
  proof
    assume "favorable_counter (ps_offered_amount ps) (ps_requested_amount ps) spread 1 2
      = Some (co_offered_amount c, co_requested_amount c)"
    note favorable_counter_half [OF this]
    then show ?thesis
      using ps c by (simp add: fair_counter_def)
  next
    assume "favorable_counter (ps_offered_amount ps) (ps_requested_amount ps) spread 1 1
      = Some (co_offered_amount c, co_requested_amount c)"
    note full = favorable_counter_full [OF this]
    then have "match_with (pswap_order i ps) (counter_as_order j c) =
        (Some \<lparr>surplus_offered = ps_offered_amount ps - co_requested_amount c, surplus_requested = 0\<rparr>,
         (pswap_order i ps)\<lparr>requested_remaining := 0\<rparr>, (counter_as_order j c)\<lparr>requested_remaining := 0\<rparr>)" for i j
      by (intro full_counter_settles [where b = "ps_requested_amount ps"]) (simp_all add: pswap_order_def counter_as_order_def)
    then show ?thesis
      using ps c full by (simp add: fair_counter_def)
  qed
qed

lemma mirror_notes_posted:
  "\<exists>new. snd (snd (mirror_notes ch env spread cap mock_id solver_id ids rng n posted)) = posted @ new
     \<and> length new \<le> cap - n \<and> subseq (map co_for new) ids \<and> list_all (fair_counter ch env mock_id solver_id) new"
proof (induction ids arbitrary: rng n posted)
  case Nil
  then show ?case by simp
next
  case (Cons oid ids)
  show ?case
  proof (cases "n \<ge> cap")
    case True
    then show ?thesis by simp
  next
    case False
    show ?thesis
    proof (cases "decide_note ch env spread mock_id solver_id oid rng")
      case (Skip rng')
      with Cons.IH [of rng' n posted] False show ?thesis
        by (auto intro: list_emb_Cons)
    next
      case Abort
      with False show ?thesis by simp
    next
      case (Mirror rng' c)
      note fair = decide_note_fair [OF Mirror]
      define p where "p = (if me_build_ok env oid \<and> submitted (me_attempts env oid) (me_nonce env oid) then [c] else [])"
      from Cons.IH [of rng' "n + 1" "posted @ p"] obtain new where
        "snd (snd (mirror_notes ch env spread cap mock_id solver_id ids rng' (n + 1) (posted @ p))) = (posted @ p) @ new"
        "length new \<le> cap - (n + 1)" "subseq (map co_for new) ids" "list_all (fair_counter ch env mock_id solver_id) new"
        by blast
      with fair Mirror False show ?thesis
        by (intro exI [of _ "p @ new"]) (auto simp: p_def intro: list_emb_Cons)
    qed
  qed
qed

fun tick_posted :: "'n tick_result \<Rightarrow> counter_order list" where
  "tick_posted SyncError = []"
| "tick_posted (Claimed _) = []"
| "tick_posted (AssetError posted) = posted"
| "tick_posted (Mirrored posted _) = posted"

text \<open>
  C39: whatever a tick meets, it posts no more counter-orders than the configured cap, at
  most one for each arrival and in the order of arrival, and none for an order of the
  mirror itself or of the solver; every counter offers the token the user asks for, asks
  for strictly less than the user offers, and when it mirrors the whole order the solver's
  matching of the two fills both completely and leaves the difference as surplus.
\<close>

theorem mirror_tick_fair:
  "length (tick_posted (fst (mirror_tick ch env env_of records parse_id get_balance cfg mock_id solver_id summary rng)))
     \<le> max_mirrors_per_tick (mc_settings cfg)
   \<and> list_all (fair_counter ch env mock_id solver_id)
       (tick_posted (fst (mirror_tick ch env env_of records parse_id get_balance cfg mock_id solver_id summary rng)))
   \<and> subseq (map co_for (tick_posted (fst (mirror_tick ch env env_of records parse_id get_balance cfg mock_id solver_id summary rng))))
       (case summary of None \<Rightarrow> [] | Some s \<Rightarrow> sm_new_public_notes s @ sm_new_private_notes s)"
proof (cases summary)
  case None
  then show ?thesis by (simp add: mirror_tick_def)
next
  case (Some s)
  obtain new where
    "snd (snd (mirror_notes ch env (spread_bps (mc_settings cfg)) (max_mirrors_per_tick (mc_settings cfg)) mock_id solver_id
       (sm_new_public_notes s @ sm_new_private_notes s) rng 0 [])) = new"
    "length new \<le> max_mirrors_per_tick (mc_settings cfg)"
    "subseq (map co_for new) (sm_new_public_notes s @ sm_new_private_notes s)" "list_all (fair_counter ch env mock_id solver_id) new"
    using mirror_notes_posted [of ch env "spread_bps (mc_settings cfg)" "max_mirrors_per_tick (mc_settings cfg)" mock_id solver_id
        "sm_new_public_notes s @ sm_new_private_notes s" rng 0 "[]"] by auto
  then show ?thesis
    using Some by (auto simp: mirror_tick_def Let_def split: prod.splits)
qed

end
