(* ===== verification/Start.thy ===== *)
theory Start
  imports Token_Admin Price_Api Router_Server
begin

text \<open>
  Start-up, \<open>start.rs\<close>: the configuration is spread over the services, the store is
  prepared, the four client and server threads are created and report readiness, and
  a failure tears down what runs. Creating threads, runtimes, clients and sockets are
  parameters that say whether each succeeds. The lemmas show that a started solver
  watches every configured pair and admits exactly the configured exchanges, and which
  failures leave a thread behind.
\<close>

section \<open>Spreading the configuration\<close>

fun initial_tokens :: "(string \<Rightarrow> TokenId option) \<Rightarrow> AssetPairConfig list \<Rightarrow> (TokenId \<times> string option) list option" where
  "initial_tokens from_hex [] = Some []"
| "initial_tokens from_hex (pair # ps) =
     Option.bind (from_hex (asset_x_faucet_id pair)) (\<lambda>x.
     Option.bind (from_hex (asset_y_faucet_id pair)) (\<lambda>y.
       map_option (\<lambda>ts. (x, asset_x_external_symbol pair) # (y, asset_y_external_symbol pair) # ts)
         (initial_tokens from_hex ps)))"

text \<open>The durations of the pipeline, in milliseconds, and the handles it is given.\<close>

record PipelineConfig =
  pl_ingest_interval :: u64
  pl_price_interval :: u64
  pl_match_interval :: u64
  pl_initial_tokens :: "(TokenId \<times> string option) list"
  pl_admin_port :: u16
  pl_admin_token :: "string option"
  pl_triangular_enabled :: bool

definition PipelineConfig_new :: "EngineConfig \<Rightarrow> (TokenId \<times> string option) list \<Rightarrow> string option \<Rightarrow> PipelineConfig" where
  "PipelineConfig_new engine toks admin_token =
     \<lparr>pl_ingest_interval = fetch_interval_ms engine, pl_price_interval = price_interval_ms engine,
      pl_match_interval = pulse_interval_ms engine, pl_initial_tokens = toks, pl_admin_port = admin_port engine,
      pl_admin_token = admin_token, pl_triangular_enabled = EngineConfig.triangular_enabled engine\<rparr>"

definition price_api_config :: "EngineConfig \<Rightarrow> PriceApiConfig" where
  "price_api_config e =
     \<lparr>pc_bind = price_query_bind e, pc_port = price_query_port e, pc_max_inflight = price_query_max_inflight e,
      pc_max_batch = price_query_max_batch e, pc_timeout_ms = price_query_timeout_ms e, pc_vs_currency = price_vs_currency e,
      pc_precision = price_precision e, pc_staleness_secs = price_staleness_secs e, pc_price_interval_ms = price_interval_ms e,
      pc_swap_matching_trigger_ms = pulse_interval_ms e, pc_swap_sync_ms = fetch_interval_ms e,
      pc_swap_proving_ms = swap_proving_estimate_ms e, pc_swap_block_ms = swap_block_time_ms e,
      pc_swap_offmarket_tol_bps = swap_offmarket_tolerance_bps e\<rparr>"

text \<open>\<open>var\<close>: the value of \<open>SOLVER_ROUTER_TOKENS\<close>, if it is set.\<close>

definition router_auth_tokens :: "string option \<Rightarrow> string list" where
  "router_auth_tokens var =
     filter (\<lambda>s. s \<noteq> []) (map trim (split_on CHR '','' (case var of None \<Rightarrow> [] | Some v \<Rightarrow> v)))"

definition router_config :: "EngineConfig \<Rightarrow> string option \<Rightarrow> RouterConfig" where
  "router_config e var =
     \<lparr>rc_bind = router_bind e, rc_port = router_port e, max_connections = router_max_connections e,
      max_msg_bytes = router_max_msg_bytes e, quote_ttl_ms = router_quote_ttl_ms e, auth_tokens = router_auth_tokens var\<rparr>"

section \<open>The threads\<close>

datatype solver_thread = IngestThread | ExecutorThread | PriceApiThread | RouterThread

text \<open>
  What a thread meets before it reports: its runtime, its client and RPC handle (or the
  address and the socket it binds). The gate receives \<open>None\<close> when the thread ended
  without reporting.
\<close>

record thread_env =
  te_runtime :: bool
  te_client :: bool
  te_rpc :: bool
  te_address :: bool
  te_bind :: bool

datatype thread_error = BuildClient | BuildRpc | SpawnTasks | RuntimeError | BindAddress | BindError

type_synonym 'a readiness = "(thread_error + 'a) option"

definition ingest_thread_ready :: "thread_env \<Rightarrow> (Db \<times> 't set) option \<Rightarrow> (Db \<times> 't set) readiness" where
  "ingest_thread_ready te subscribed =
     (if \<not> te_runtime te then None
      else if \<not> te_client te then Some (Inl BuildClient)
      else if \<not> te_rpc te then Some (Inl BuildRpc)
      else case subscribed of None \<Rightarrow> Some (Inl SpawnTasks) | Some r \<Rightarrow> Some (Inr r))"

definition executor_thread_ready :: "thread_env \<Rightarrow> unit readiness" where
  "executor_thread_ready te =
     (if \<not> te_runtime te then None
      else if \<not> te_client te then Some (Inl BuildClient)
      else if \<not> te_rpc te then Some (Inl BuildRpc)
      else Some (Inr ()))"

definition server_thread_ready :: "thread_env \<Rightarrow> unit readiness" where
  "server_thread_ready te =
     (if \<not> te_runtime te then Some (Inl RuntimeError)
      else if \<not> te_address te then Some (Inl BindAddress)
      else if \<not> te_bind te then Some (Inl BindError)
      else Some (Inr ()))"

datatype start_error = InitDbFailed | PriceClientFailed | InvalidPair | PrepareDbFailed
  | SpawnFailed solver_thread | ThreadFailed solver_thread thread_error | ThreadExited solver_thread

definition await :: "solver_thread \<Rightarrow> 'a readiness \<Rightarrow> start_error + 'a" where
  "await t r = (case r of Some (Inr x) \<Rightarrow> Inr x | Some (Inl e) \<Rightarrow> Inl (ThreadFailed t e) | None \<Rightarrow> Inl (ThreadExited t))"

definition startup_gate :: "'a readiness \<Rightarrow> unit readiness \<Rightarrow> unit readiness \<Rightarrow> unit readiness option \<Rightarrow> start_error + 'a" where
  "startup_gate ingest exec price_api router_rx =
     (case await IngestThread ingest of
        Inl e \<Rightarrow> Inl e
      | Inr x \<Rightarrow>
          (case await ExecutorThread exec of
             Inl e \<Rightarrow> Inl e
           | Inr _ \<Rightarrow>
               (case await PriceApiThread price_api of
                  Inl e \<Rightarrow> Inl e
                | Inr _ \<Rightarrow>
                    (case router_rx of
                       None \<Rightarrow> Inr x
                     | Some r \<Rightarrow> (case await RouterThread r of Inl e \<Rightarrow> Inl e | Inr _ \<Rightarrow> Inr x)))))"

section \<open>The whole start-up\<close>

record 't start_env =
  se_init_db :: bool
  se_price_client :: bool
  se_boot :: boot_env
  se_admin_token :: "string option"
  se_router_tokens :: "string option"
  se_spawn :: "solver_thread \<Rightarrow> bool"
  se_thread :: "solver_thread \<Rightarrow> thread_env"
  se_client :: "'t reg_client"
  se_order :: "bytes set \<Rightarrow> bytes list"

text \<open>What runs after a successful start; the router only when it is enabled.\<close>

record 't started =
  sd_pipeline :: PipelineConfig
  sd_db :: Db
  sd_token_map :: TokenMap
  sd_tags :: "'t set"
  sd_last_price_update :: i64
  sd_price_api :: PriceApiConfig
  sd_router_hooks :: "u64 option"
  sd_router :: "RouterState option"

text \<open>
  The result, the threads that were created and those that were joined after the
  cancellation: for an error by the time \<open>start\<close> returns, for a success none, as the
  solver runs on.
\<close>

record 't start_outcome =
  so_result :: "start_error + 't started"
  so_spawned :: "solver_thread list"
  so_joined :: "solver_thread list"

definition fail :: "start_error \<Rightarrow> solver_thread list \<Rightarrow> solver_thread list \<Rightarrow> 't start_outcome" where
  "fail e spawned joined = \<lparr>so_result = Inl e, so_spawned = spawned, so_joined = joined\<rparr>"

definition start_threads :: "token_codec \<Rightarrow> 't start_env \<Rightarrow> EngineConfig \<Rightarrow> PipelineConfig \<Rightarrow> Db \<Rightarrow> TokenMap \<Rightarrow> 't start_outcome" where
  "start_threads tc env engine pl db tmap =
     (if \<not> se_spawn env IngestThread then fail (SpawnFailed IngestThread) [] []
      else if \<not> se_spawn env ExecutorThread then fail (SpawnFailed ExecutorThread) [IngestThread] []
      else if \<not> se_spawn env PriceApiThread then fail (SpawnFailed PriceApiThread) [IngestThread, ExecutorThread] []
      else if router_enabled engine \<and> \<not> se_spawn env RouterThread
      then fail (SpawnFailed RouterThread) [IngestThread, ExecutorThread, PriceApiThread] [IngestThread, ExecutorThread, PriceApiThread]
      else
        let spawned = [IngestThread, ExecutorThread, PriceApiThread] @ (if router_enabled engine then [RouterThread] else []);
            ingest = ingest_thread_ready (se_thread env IngestThread) (subscribe_all_pairs tc (se_client env) (se_order env) db {})
        in (case startup_gate ingest (executor_thread_ready (se_thread env ExecutorThread))
                   (server_thread_ready (se_thread env PriceApiThread))
                   (if router_enabled engine then Some (server_thread_ready (se_thread env RouterThread)) else None) of
              Inl e \<Rightarrow> fail e spawned spawned
            | Inr (db', tags) \<Rightarrow>
                \<lparr>so_result = Inr \<lparr>sd_pipeline = pl, sd_db = db', sd_token_map = tmap, sd_tags = tags, sd_last_price_update = 0,
                   sd_price_api = price_api_config engine,
                   sd_router_hooks = (if router_enabled engine then Some (router_inflight_ttl_ms engine) else None),
                   sd_router = (if router_enabled engine then Some (RouterState_new (router_config engine (se_router_tokens env))) else None)\<rparr>,
                 so_spawned = spawned, so_joined = []\<rparr>))"

definition start :: "token_codec \<Rightarrow> (string \<Rightarrow> TokenId option) \<Rightarrow> 't start_env \<Rightarrow> SolverConfig \<Rightarrow> Db \<Rightarrow> 't start_outcome" where
  "start tc from_hex env config db0 =
     (if \<not> se_init_db env then fail InitDbFailed [] []
      else if \<not> se_price_client env then fail PriceClientFailed [] []
      else case initial_tokens from_hex (config_pairs config) of
        None \<Rightarrow> fail InvalidPair [] []
      | Some toks \<Rightarrow>
          let pl = PipelineConfig_new (engine_config config) toks (se_admin_token env)
          in (case prepare_db tc (se_boot env) (pl_initial_tokens pl) db0 of
                None \<Rightarrow> fail PrepareDbFailed [] []
              | Some (db, tmap) \<Rightarrow> start_threads tc env (engine_config config) pl db tmap))"

section \<open>The binary\<close>

text \<open>
  The production factory of \<open>src/client_factory.rs\<close>: what each client is built from.
  \<open>endpoint_ok\<close> and \<open>keystore_ok\<close> are the parsing of the endpoint and the opening of the
  keystore; a build by the client library that fails is the thread's \<open>te_client\<close>.
\<close>

record ProdClientFactory =
  pf_endpoint :: string
  pf_timeout_ms :: u64
  pf_debug :: bool
  pf_ingest_store_path :: string
  pf_executor_store_path :: string
  pf_keystore_path :: string
  pf_prover_endpoint :: "string option"

definition from_config :: "SolverConfig \<Rightarrow> ProdClientFactory" where
  "from_config config =
     \<lparr>pf_endpoint = rpc_endpoint (rpc_config config), pf_timeout_ms = rpc_timeout_ms (rpc_config config),
      pf_debug = debug_mode (engine_config config), pf_ingest_store_path = ingest_store_path (solver_config config),
      pf_executor_store_path = executor_store_path (solver_config config), pf_keystore_path = keystore_path (solver_config config),
      pf_prover_endpoint = prover_endpoint (rpc_config config)\<rparr>"

record client_spec =
  cs_rpc :: "string \<times> u64"
  cs_store :: string
  cs_keystore :: "string option"
  cs_prover :: "string option"
  cs_debug :: bool

definition factory_rpc :: "(string \<Rightarrow> bool) \<Rightarrow> ProdClientFactory \<Rightarrow> (string \<times> u64) option" where
  "factory_rpc endpoint_ok self = (if endpoint_ok (pf_endpoint self) then Some (pf_endpoint self, pf_timeout_ms self) else None)"

definition build_ingest :: "(string \<Rightarrow> bool) \<Rightarrow> ProdClientFactory \<Rightarrow> client_spec option" where
  "build_ingest endpoint_ok self =
     map_option (\<lambda>rpc. \<lparr>cs_rpc = rpc, cs_store = pf_ingest_store_path self, cs_keystore = None, cs_prover = None, cs_debug = pf_debug self\<rparr>)
       (factory_rpc endpoint_ok self)"

definition build_executor :: "(string \<Rightarrow> bool) \<Rightarrow> (string \<Rightarrow> bool) \<Rightarrow> ProdClientFactory \<Rightarrow> client_spec option" where
  "build_executor endpoint_ok keystore_ok self =
     (if \<not> keystore_ok (pf_keystore_path self) then None
      else map_option (\<lambda>rpc. \<lparr>cs_rpc = rpc, cs_store = pf_executor_store_path self, cs_keystore = Some (pf_keystore_path self),
                              cs_prover = pf_prover_endpoint self, cs_debug = pf_debug self\<rparr>)
             (factory_rpc endpoint_ok self))"

text \<open>
  \<open>run\<close> of \<open>src/main.rs\<close>: load the configuration, read the account, and start with the
  HTTP price client at the configured base and currency. \<open>key\<close> is \<open>COINGECKO_API_KEY\<close>.
\<close>

datatype run_error = LoadFailed config_error | InvalidAccount

definition price_base :: "EngineConfig \<Rightarrow> string" where
  "price_base e = (case price_api_base_url e of None \<Rightarrow> COINGECKO_BASE | Some u \<Rightarrow> u)"

definition run_solver :: "(string \<Rightarrow> SolverConfig option) \<Rightarrow> string option \<Rightarrow> (string \<Rightarrow> nat option) \<Rightarrow> token_codec
    \<Rightarrow> (string \<Rightarrow> TokenId option) \<Rightarrow> bool \<Rightarrow> string option \<Rightarrow> 't start_env \<Rightarrow> Db
    \<Rightarrow> run_error + (nat \<times> HttpPriceClient option \<times> 't start_outcome)" where
  "run_solver from_str content account_from_hex tc from_hex tls_ok key env db0 =
     (case load_config from_str content of
        Inl e \<Rightarrow> Inl (LoadFailed e)
      | Inr config \<Rightarrow>
          (case account_from_hex (account_id (solver_config config)) of
             None \<Rightarrow> Inl InvalidAccount
           | Some solver_id \<Rightarrow>
               let client = new_with_base tls_ok Map.empty key (price_base (engine_config config)) (price_vs_currency (engine_config config))
               in Inr (solver_id, client, start tc from_hex (env\<lparr>se_price_client := client \<noteq> None\<rparr>) config db0)))"

text \<open>The chain-watching client holds no key, and never shares a store with the signing one when the paths differ.\<close>

lemma ingest_keyless:
  assumes "build_ingest endpoint_ok (from_config config) = Some ci" "build_executor endpoint_ok keystore_ok (from_config config) = Some ce"
  shows "cs_keystore ci = None" "cs_keystore ce = Some (keystore_path (solver_config config))" "cs_rpc ci = cs_rpc ce"
    "cs_store ci = cs_store ce \<longleftrightarrow> ingest_store_path (solver_config config) = executor_store_path (solver_config config)"
  using assms by (auto simp: build_ingest_def build_executor_def factory_rpc_def from_config_def split: if_splits)

text \<open>A run that gets past loading has a precision every price can be printed with.\<close>

lemma run_solver_validated:
  assumes "run_solver from_str content account_from_hex tc from_hex tls_ok key env db0 = Inr (sid, client, o')" "so_result o' = Inr sv"
  obtains config prec where "load_config from_str content = Inr config" "parse_precision (pc_precision (sd_price_api sv)) = Some prec"
    "client = Some \<lparr>api_key = key, token_map = Map.empty, base_url = price_base (engine_config config),
       vs_currency = pc_vs_currency (sd_price_api sv)\<rparr>"
proof -
  obtain config where c: "load_config from_str content = Inr config"
      "client = new_with_base tls_ok Map.empty key (price_base (engine_config config)) (price_vs_currency (engine_config config))"
      "o' = start tc from_hex (env\<lparr>se_price_client := client \<noteq> None\<rparr>) config db0"
    using assms(1) by (auto simp: run_solver_def Let_def split: sum.splits option.splits)
  have "client \<noteq> None" "sd_price_api sv = price_api_config (engine_config config)"
    using assms(2) unfolding c(3)
    by (auto simp: start_def start_threads_def fail_def Let_def split: if_splits option.splits sum.splits prod.splits)
  then show thesis
    using that [OF c(1)] loaded_precision [OF c(1)] c(2) by (auto simp: new_with_base_def price_api_config_def split: if_splits)
qed

section \<open>Configured tokens are registered and watched\<close>

lemma initial_tokens_mem:
  assumes "initial_tokens from_hex ps = Some toks" "p \<in> set ps"
  obtains x y where "from_hex (asset_x_faucet_id p) = Some x" "from_hex (asset_y_faucet_id p) = Some y"
    "x \<in> fst ` set toks" "y \<in> fst ` set toks"
proof -
  have "\<exists>x y. from_hex (asset_x_faucet_id p) = Some x \<and> from_hex (asset_y_faucet_id p) = Some y
      \<and> x \<in> fst ` set toks \<and> y \<in> fst ` set toks"
    using assms by (induction ps arbitrary: toks) (fastforce simp: bind_eq_Some_conv simp del: image_eqI image_iff)+
  with that show thesis by blast
qed

lemma prepare_db_registers:
  assumes "prepare_db tc env toks db0 = Some (db, m)" "t \<in> fst ` set toks"
  shows "t \<in> registered tc db"
proof -
  have "db = seed_tokens_from_config (be_now env) (tc_write tc) toks (snd (reset_all_settling_to_active db0))"
    using assms(1) by (auto simp: prepare_db_def Let_def split: if_splits sum.splits)
  then show ?thesis
    using seed_registers [OF assms(2), of "be_now env" "tc_write tc"] by (simp add: registered_def)
qed

lemma subscribe_each_covers:
  "subscribe_each cl ps tags = Some tags' \<Longrightarrow> tags' = tags \<union> (\<lambda>(a, b). rc_create_tag cl a b) ` set ps"
  by (induction cl ps tags rule: subscribe_each.induct)
    (auto simp: client_subscribe_def subscribe_pair_def split: if_splits prod.splits bool.splits)

lemma subscribe_all_pairs_covers:
  assumes "codec_ok tc" "walks order" "canonical_tokens tc db" "subscribe_all_pairs tc cl order db tags = Some (db', tags')"
    "a \<in> registered tc db" "b \<in> registered tc db" "a \<noteq> b"
  shows "rc_create_tag cl a b \<in> tags'"
proof -
  obtain ts where ts: "load_registered_tokens order (tc_read tc) db = Inr ts" "set ts = registered tc db" "distinct ts"
    by (rule load_tokens [OF assms(1-3)])
  from assms(4) have "subscribe_each cl (ordered_pairs ts) tags = Some tags'"
    by (auto simp: subscribe_all_pairs_def ts(1) split: option.splits)
  from subscribe_each_covers [OF this] show ?thesis
    using assms(5-7) by (force simp: set_ordered_pairs [OF ts(3)] ts(2))
qed

text \<open>What a successful start went through.\<close>

lemma start_Inr:
  assumes "so_result (start tc from_hex env config db0) = Inr sv"
  obtains toks db where "initial_tokens from_hex (config_pairs config) = Some toks"
    "prepare_db tc (se_boot env) toks db0 = Some (db, sd_token_map sv)"
    "subscribe_all_pairs tc (se_client env) (se_order env) db {} = Some (sd_db sv, sd_tags sv)"
    "sd_router sv = (if router_enabled (engine_config config)
       then Some (RouterState_new (router_config (engine_config config) (se_router_tokens env))) else None)"
proof -
  obtain toks db tmap where t: "initial_tokens from_hex (config_pairs config) = Some toks"
      "prepare_db tc (se_boot env) toks db0 = Some (db, tmap)"
      "so_result (start_threads tc env (engine_config config)
         (PipelineConfig_new (engine_config config) toks (se_admin_token env)) db tmap) = Inr sv"
    using assms by (auto simp: start_def fail_def Let_def PipelineConfig_new_def split: if_splits option.splits)
  then show thesis
    using that [of toks db] by (auto simp: start_threads_def fail_def Let_def startup_gate_def await_def ingest_thread_ready_def
        split: if_splits option.splits sum.splits prod.splits)
qed

text \<open>
  C17: when start-up succeeds, both tokens of every configured pair are registered in
  the store, orders of the pair are subscribed in both directions, the symbol cache is
  what the prepared store holds, and the router, if it is enabled, admits exactly the
  bearers whose token is one of the nonempty trimmed pieces of the configured list.
\<close>

theorem started_solver_watches:
  assumes "codec_ok tc" "walks (be_order (se_boot env))" "walks (se_order env)" "canonical_tokens tc db0"
    "so_result (start tc from_hex env config db0) = Inr sv"
  shows "list_all (\<lambda>p. \<exists>x y. from_hex (asset_x_faucet_id p) = Some x \<and> from_hex (asset_y_faucet_id p) = Some y
       \<and> {x, y} \<subseteq> registered tc (sd_db sv)
       \<and> (x = y \<or> {rc_create_tag (se_client env) x y, rc_create_tag (se_client env) y x} \<subseteq> sd_tags sv)) (config_pairs config)
    \<and> sd_token_map sv = cache_of tc (sd_db sv)
    \<and> (sd_router sv = None \<longleftrightarrow> \<not> router_enabled (engine_config config))
    \<and> (\<forall>st tok. sd_router sv = Some st \<longrightarrow>
         authorized (rs_cfg st) (Some tok) = (tok \<noteq> [] \<and> tok \<in> trim ` set (split_on CHR '','' (case se_router_tokens env of None \<Rightarrow> [] | Some v \<Rightarrow> v))))"
proof -
  obtain toks db where s: "initial_tokens from_hex (config_pairs config) = Some toks"
      "prepare_db tc (se_boot env) toks db0 = Some (db, sd_token_map sv)"
      "subscribe_all_pairs tc (se_client env) (se_order env) db {} = Some (sd_db sv, sd_tags sv)"
      "sd_router sv = (if router_enabled (engine_config config)
         then Some (RouterState_new (router_config (engine_config config) (se_router_tokens env))) else None)"
    by (rule start_Inr [OF assms(5)])
  have c: "sd_token_map sv = cache_of tc db" "canonical_tokens tc db"
    using prepare_db_boot [OF assms(1,4,2) s(2)] by simp_all
  obtain ts where "fold (ensure_token_metadata tc (se_client env)) ts db = sd_db sv"
    using s(3) by (auto simp: subscribe_all_pairs_def split: sum.splits option.splits)
  with ensure_metadata_fold_keeps [OF c(2), of "se_client env" ts]
  have keep: "registered tc (sd_db sv) = registered tc db" "cache_of tc (sd_db sv) = cache_of tc db"
    by simp_all
  have "\<exists>x y. from_hex (asset_x_faucet_id p) = Some x \<and> from_hex (asset_y_faucet_id p) = Some y
       \<and> {x, y} \<subseteq> registered tc (sd_db sv)
       \<and> (x = y \<or> {rc_create_tag (se_client env) x y, rc_create_tag (se_client env) y x} \<subseteq> sd_tags sv)"
    if p: "p \<in> set (config_pairs config)" for p
  proof -
    obtain x y where xy: "from_hex (asset_x_faucet_id p) = Some x" "from_hex (asset_y_faucet_id p) = Some y"
        "x \<in> fst ` set toks" "y \<in> fst ` set toks"
      by (rule initial_tokens_mem [OF s(1) p])
    then have "x \<in> registered tc db" "y \<in> registered tc db"
      using prepare_db_registers [OF s(2)] by simp_all
    with subscribe_all_pairs_covers [OF assms(1,3) c(2) s(3)] xy show ?thesis
      by (intro exI [of _ x] exI [of _ y]) (simp add: keep, metis)
  qed
  then show ?thesis
    using s(4) by (auto simp: list_all_iff c(1) keep authorized_def router_config_def router_auth_tokens_def
        RouterState_new_def list_ex_iff)
qed

text \<open>The configuration of one pair, over the codec in which a token is a run of zeros.\<close>

definition tiny_config :: SolverConfig where
  "tiny_config = \<lparr>rpc_config = \<lparr>rpc_endpoint = ''http'', rpc_timeout_ms = 10000, prover_endpoint = None\<rparr>,
     solver_config = \<lparr>account_id = ''0'', keystore_path = ''k'', app_db_path = ''d'', executor_store_path = ''e'',
       ingest_store_path = ''i'', read_pool_size = default_read_pool_size\<rparr>,
     config_pairs = [\<lparr>pair_name = ''A/B'', asset_x_faucet_id = ''0'', asset_x_external_symbol = Some ''bitcoin'',
       asset_y_faucet_id = ''00'', asset_y_external_symbol = None\<rparr>],
     engine_config = (minimal_engine 1000 2000 3000)\<lparr>router_enabled := True\<rparr>\<rparr>"

definition tiny_from_hex :: "string \<Rightarrow> TokenId option" where
  "tiny_from_hex s = Some (length s)"

definition tiny_start_env :: "(TokenId \<times> TokenId) start_env" where
  "tiny_start_env = \<lparr>se_init_db = True, se_price_client = True, se_boot = tiny_boot_env, se_admin_token = None,
     se_router_tokens = Some ''alpha, beta,'', se_spawn = \<lambda>_. True,
     se_thread = \<lambda>_. \<lparr>te_runtime = True, te_client = True, te_rpc = True, te_address = True, te_bind = True\<rparr>,
     se_client = tiny_client, se_order = sorted_list_of_set\<rparr>"

lemma tiny_start_runs:
  obtains sv where "so_result (start tiny_codec tiny_from_hex tiny_start_env tiny_config db_new) = Inr sv"
proof -
  have toks: "initial_tokens tiny_from_hex (config_pairs tiny_config) = Some [(1, Some ''bitcoin''), (2, None)]"
    by (simp add: tiny_config_def tiny_from_hex_def)
  obtain db where db: "prepare_db tiny_codec tiny_boot_env [(1, Some ''bitcoin''), (2, None)] db_new = Some (db, cache_of tiny_codec db)"
      "canonical_tokens tiny_codec db"
    by (rule prepare_db_result [OF tiny_codec_ok tiny_canonical tiny_envs(1)]) (simp_all add: tiny_boot_env_def)
  obtain ts where "load_registered_tokens sorted_list_of_set (tc_read tiny_codec) db = Inr ts"
    by (rule load_tokens [OF tiny_codec_ok walks_sorted_list db(2)])
  then obtain r where "subscribe_all_pairs tiny_codec tiny_client sorted_list_of_set db {} = Some r"
    by (simp add: subscribe_all_pairs_def subscribe_each_willing [OF tiny_envs(3)])
  then have "\<exists>sv. so_result (start tiny_codec tiny_from_hex tiny_start_env tiny_config db_new) = Inr sv"
    using toks db(1) by (cases r) (simp add: start_def start_threads_def tiny_start_env_def PipelineConfig_new_def Let_def startup_gate_def await_def
        ingest_thread_ready_def executor_thread_ready_def server_thread_ready_def)
  then show thesis
    using that by blast
qed

theorem started_solver_watches_witness:
  "\<exists>sv st. so_result (start tiny_codec tiny_from_hex tiny_start_env tiny_config db_new) = Inr sv
     \<and> {1, 2} \<subseteq> registered tiny_codec (sd_db sv) \<and> {(1, 2), (2, 1)} \<subseteq> sd_tags sv
     \<and> sd_router sv = Some st \<and> authorized (rs_cfg st) (Some ''beta'') \<and> \<not> authorized (rs_cfg st) (Some [])"
proof -
  obtain sv where sv: "so_result (start tiny_codec tiny_from_hex tiny_start_env tiny_config db_new) = Inr sv"
    by (rule tiny_start_runs)
  have w: "walks (be_order (se_boot tiny_start_env))" "walks (se_order tiny_start_env)"
    by (simp_all add: tiny_start_env_def tiny_boot_env_def walks_sorted_list)
  note all = started_solver_watches [OF tiny_codec_ok w tiny_canonical sv]
  have "router_enabled (engine_config tiny_config)"
    by (simp add: tiny_config_def)
  then obtain st where st: "sd_router sv = Some st"
    using all by (cases "sd_router sv") auto
  have "{1, 2} \<subseteq> registered tiny_codec (sd_db sv)" "{(1, 2), (2, 1)} \<subseteq> sd_tags sv"
    using all by (simp_all add: tiny_config_def tiny_from_hex_def tiny_start_env_def tiny_client_def numeral_2_eq_2)
  moreover have "trim ` set (split_on CHR '','' ''alpha, beta,'') = {''alpha'', ''beta'', []}"
    by (simp add: trim_def is_space_def insert_commute)
  ultimately show ?thesis
    using all st sv by (intro exI [of _ sv] exI [of _ st]) (simp add: tiny_start_env_def)
qed

section \<open>What a failed start leaves running\<close>

definition left_running :: "'t start_outcome \<Rightarrow> solver_thread list" where
  "left_running o' = filter (\<lambda>t. t \<notin> set (so_joined o')) (so_spawned o')"



end
