(* ===== verification/Mock_Price.thy ===== *)
theory Mock_Price
  imports Price_Loop
begin

text \<open>
  The mock price service, \<open>mock-price/src/main.rs\<close>: its table, the file it is re-read
  from and written to, and its three endpoints. Reading and writing the file, parsing
  numbers and the random drift are parameters. The lemmas show that a price set here is
  the price the solver's HTTP client fetches, and two ways in which it is not.
\<close>

section \<open>State and file\<close>

text \<open>The configured file: missing, unreadable (or not a price table), or a table.\<close>

datatype 'f prices_file = Missing | Unreadable | Table "string \<Rightarrow> 'f option"

record 'f PriceState =
  mp_prices :: "string \<Rightarrow> 'f option"
  mp_file :: "'f prices_file option"
  mp_default_usd :: "'f option"
  mp_drift_bps :: "32 word"

definition refresh :: "'f PriceState \<Rightarrow> 'f PriceState" where
  "refresh st = (case mp_file st of Some (Table m) \<Rightarrow> st\<lparr>mp_prices := m\<rparr> | _ \<Rightarrow> st)"

text \<open>\<open>failed\<close>: what a failed write leaves of the file; \<open>None\<close>: the write succeeds.\<close>

definition save_file :: "'f prices_file option \<Rightarrow> (string \<Rightarrow> 'f option) \<Rightarrow> 'f PriceState \<Rightarrow> 'f PriceState" where
  "save_file failed m st =
     (case mp_file st of
        None \<Rightarrow> st
      | Some _ \<Rightarrow> st\<lparr>mp_file := Some (case failed of None \<Rightarrow> Table m | Some f \<Rightarrow> f)\<rparr>)"

fun split_once :: "char \<Rightarrow> string \<Rightarrow> (string \<times> string) option" where
  "split_once c [] = None"
| "split_once c (x # s) = (if x = c then Some ([], s) else map_option (\<lambda>(a, b). (x # a, b)) (split_once c s))"

fun price_args :: "(string \<Rightarrow> 'f option) \<Rightarrow> string list \<Rightarrow> (string \<Rightarrow> 'f option) \<Rightarrow> (string \<Rightarrow> 'f option) option" where
  "price_args parse [] m = Some m"
| "price_args parse (arg # args) m =
     (case split_once CHR ''='' arg of
        None \<Rightarrow> None
      | Some (pid, v) \<Rightarrow> (case parse v of None \<Rightarrow> None | Some x \<Rightarrow> price_args parse args (m(pid \<mapsto> x))))"

text \<open>Start-up: the file's table, the command-line entries on top, written back.\<close>

definition mock_price_start :: "(string \<Rightarrow> 'f option) \<Rightarrow> bool \<Rightarrow> string list \<Rightarrow> 'f prices_file option \<Rightarrow> 'f option \<Rightarrow> 32 word \<Rightarrow> 'f PriceState option" where
  "mock_price_start parse save_ok args file dflt drift =
     (case (case file of Some Unreadable \<Rightarrow> None | Some (Table m) \<Rightarrow> Some m | _ \<Rightarrow> Some Map.empty) of
        None \<Rightarrow> None
      | Some m0 \<Rightarrow>
          (case price_args parse args m0 of
             None \<Rightarrow> None
           | Some m \<Rightarrow>
               if file \<noteq> None \<and> \<not> save_ok then None
               else Some (save_file None m \<lparr>mp_prices = m, mp_file = file, mp_default_usd = dflt, mp_drift_bps = drift\<rparr>)))"

section \<open>Endpoints\<close>

text \<open>\<open>moved\<close>: the drifted price; the answer is the JSON object of prices by id.\<close>

definition insert_price :: "(string \<Rightarrow> 'f \<Rightarrow> 'f) \<Rightarrow> 'f PriceState \<Rightarrow> string \<Rightarrow> (string \<Rightarrow> (string \<Rightarrow> 'f option) option)
    \<Rightarrow> (string \<Rightarrow> (string \<Rightarrow> 'f option) option)" where
  "insert_price moved s pid out =
     (case (case mp_prices s pid of Some b \<Rightarrow> Some b | None \<Rightarrow> mp_default_usd s) of
        None \<Rightarrow> out
      | Some b \<Rightarrow> out(pid \<mapsto> [''usd'' \<mapsto> (if mp_drift_bps s > 0 then moved pid b else b)]))"

definition simple_price :: "(string \<Rightarrow> 'f \<Rightarrow> 'f) \<Rightarrow> string option \<Rightarrow> 'f PriceState
    \<Rightarrow> (string \<Rightarrow> (string \<Rightarrow> 'f option) option) \<times> 'f PriceState" where
  "simple_price moved ids_param st =
     (let s = refresh st;
          ids = filter (\<lambda>i. i \<noteq> []) (map trim (split_on CHR '','' (case ids_param of None \<Rightarrow> [] | Some v \<Rightarrow> v)))
      in (fold (insert_price moved s) ids Map.empty, s))"

text \<open>\<open>None\<close>: the usage error; otherwise the id, the price and the number of entries.\<close>

definition set_price :: "'f prices_file option \<Rightarrow> string option \<Rightarrow> 'f option \<Rightarrow> 'f PriceState \<Rightarrow> (string \<times> 'f \<times> nat) option \<times> 'f PriceState" where
  "set_price failed id_param usd_param st =
     (case (id_param, usd_param) of
        (Some pid, Some v) \<Rightarrow>
          let s = refresh st; snapshot = (mp_prices s)(pid \<mapsto> v)
          in (Some (pid, v, card (dom snapshot)), save_file failed snapshot (s\<lparr>mp_prices := snapshot\<rparr>))
      | _ \<Rightarrow> (None, st))"

definition list_prices :: "'f PriceState \<Rightarrow> (string \<Rightarrow> 'f option) \<times> 'f PriceState" where
  "list_prices st = (mp_prices (refresh st), refresh st)"

section \<open>From a set price to the solver\<close>

lemma fold_insert_price:
  "fold (insert_price moved s) ids out i =
     (if i \<in> set ids then (case (case mp_prices s i of Some b \<Rightarrow> Some b | None \<Rightarrow> mp_default_usd s) of
                            None \<Rightarrow> out i | Some b \<Rightarrow> Some [''usd'' \<mapsto> (if mp_drift_bps s > 0 then moved i b else b)])
      else out i)"
  by (induction ids arbitrary: out) (auto simp: insert_price_def split: option.splits)

text \<open>The price a request reads after a successful set: the new one for its id, the file's or the table's for others.\<close>

lemma set_then_refresh:
  assumes "set_price None (Some pid) (Some v) st = (r, st')"
  shows "mp_prices (refresh st') = (mp_prices (refresh st))(pid \<mapsto> v)" "mp_drift_bps (refresh st') = mp_drift_bps st"
  using assms by (auto simp: set_price_def save_file_def refresh_def Let_def split: option.splits prices_file.splits)

text \<open>Symbols the query of a price request carries unchanged.\<close>

definition plain_symbol :: "string \<Rightarrow> bool" where
  "plain_symbol s \<longleftrightarrow> s \<noteq> [] \<and> CHR '','' \<notin> set s \<and> trim s = s"

lemma plain_ids:
  assumes "\<forall>s \<in> set ids. plain_symbol s" "ids \<noteq> []"
  shows "filter (\<lambda>i. i \<noteq> []) (map trim (split_on CHR '','' (join_with '','' ids))) = ids"
proof -
  have "split_on CHR '','' (join_with '','' ids) = ids"
    using assms by (intro split_join) (auto simp: plain_symbol_def)
  moreover have "map trim ids = ids" "filter (\<lambda>i. i \<noteq> []) ids = ids"
    using assms(1) by (auto simp: plain_symbol_def intro: map_idI)
  ultimately show ?thesis
    by simp
qed

text \<open>
  The mock as the server the client reaches: \<open>ids_of\<close> is what the query parser reads as
  the \<open>ids\<close> of a request.
\<close>

definition mock_get :: "(string \<Rightarrow> 'f \<Rightarrow> 'f) \<Rightarrow> (string \<Rightarrow> string option) \<Rightarrow> 'f PriceState \<Rightarrow> string \<Rightarrow> string option \<Rightarrow> 'f http_reply" where
  "mock_get moved ids_of st url key = Reply 200 (Some (fst (simple_price moved (ids_of url) st)))"

text \<open>\<open>reads_ids\<close>: the query parser returns the list a client wrote into the URL.\<close>

definition reads_ids :: "HttpPriceClient \<Rightarrow> (string \<Rightarrow> string option) \<Rightarrow> bool" where
  "reads_ids self ids_of \<longleftrightarrow> (\<forall>ids. ids \<noteq> [] \<longrightarrow> (\<forall>s \<in> set ids. plain_symbol s) \<longrightarrow> ids_of (price_url self ids) = Some (join_with '','' ids))"

definition plain_tokens :: "HttpPriceClient \<Rightarrow> TokenId list \<Rightarrow> bool" where
  "plain_tokens self tokens \<longleftrightarrow> (\<forall>t \<in> set tokens. \<forall>s. token_map self t = Some s \<longrightarrow> plain_symbol s)"

lemma mock_fetch:
  assumes "reads_ids self ids_of" "walks order" "plain_tokens self tokens" "t \<in> set tokens" "token_map self t = Some pid"
  obtains precise where "http_fetch_prices F order (mock_get moved ids_of st) self tokens = Some precise"
    "precise t = price_of_body F self (fst (simple_price moved (Some pid) st)) pid"
proof -
  define req where "req = requested_tokens (token_map self) tokens"
  define ids where "ids = map (\<lambda>t. the (token_map self t)) (order (set req))"
  have t: "t \<in> set req" "req \<noteq> []"
    using assms(4,5) by (auto simp: req_def requested_tokens_def filter_empty_conv)
  have ord: "set (order (set req)) = set req"
    using walksD [OF assms(2)] by simp
  have ids: "\<forall>s \<in> set ids. plain_symbol s" "ids \<noteq> []" "pid \<in> set ids"
    using assms(3,5) t ord by (auto simp: ids_def req_def requested_tokens_def plain_tokens_def image_iff)
  then have q: "ids_of (price_url self ids) = Some (join_with '','' ids)"
    using assms(1) by (simp add: reads_ids_def)
  have one: "filter (\<lambda>i. i \<noteq> []) (map trim (split_on CHR '','' pid)) = [pid]"
    using plain_ids [of "[pid]"] ids by simp
  have "fst (simple_price moved (Some (join_with '','' ids)) st) pid = fst (simple_price moved (Some pid) st) pid"
    using ids by (simp add: simple_price_def Let_def plain_ids fold_insert_price one insert_price_def split: option.split)
  then show thesis
    using that t q assms(5)
    by (simp add: http_fetch_prices_def Let_def mock_get_def price_of_body_def flip: req_def ids_def)
qed


text \<open>The name of the price field is fixed: a client of another currency prices nothing.\<close>

lemma other_currency_unpriced:
  assumes "reads_ids self ids_of" "walks order" "plain_tokens self tokens" "t \<in> set tokens" "token_map self t = Some pid"
    "vs_currency self \<noteq> ''usd''"
  shows "\<exists>precise. http_fetch_prices F order (mock_get moved ids_of st) self tokens = Some precise \<and> precise t = None"
proof -
  obtain precise where p: "http_fetch_prices F order (mock_get moved ids_of st) self tokens = Some precise"
      "precise t = price_of_body F self (fst (simple_price moved (Some pid) st)) pid"
    by (rule mock_fetch [OF assms(1-5)])
  have "plain_symbol pid"
    using assms(3-5) by (auto simp: plain_tokens_def)
  then have "Option.bind (fst (simple_price moved (Some pid) st) pid) (\<lambda>m. m (vs_currency self)) = None"
    using plain_ids [of "[pid]"] assms(6) by (simp add: simple_price_def Let_def insert_price_def split: option.split)
  with p show ?thesis
    by (simp add: price_of_body_def)
qed

text \<open>A set that is answered but cannot be written is lost on the next request.\<close>

lemma unsaved_price_lost:
  assumes "mp_file st = Some (Table m)" "set_price (Some (Table m)) (Some pid) (Some v) st = (r, st')"
  shows "r \<noteq> None \<and> mp_prices (refresh st') = m"
  using assms by (auto simp: set_price_def save_file_def refresh_def Let_def)

text \<open>Prices as natural numbers, one token with the symbol of a faucet id.\<close>

definition tiny_price_state :: "nat PriceState" where
  "tiny_price_state = \<lparr>mp_prices = Map.empty, mp_file = Some Missing, mp_default_usd = None, mp_drift_bps = 0\<rparr>"

definition tiny_http_client :: HttpPriceClient where
  "tiny_http_client = \<lparr>api_key = None, token_map = [7 \<mapsto> ''0xab''], base_url = ''http://m/p'', vs_currency = ''usd''\<rparr>"

definition tiny_f64 :: "nat f64_ops" where
  "tiny_f64 = \<lparr>f_is_finite = \<lambda>_. True, f_ge_zero = \<lambda>_. True, f_to_cents = of_nat, f_of_cents = unat\<rparr>"

definition tiny_ids_of :: "string \<Rightarrow> string option" where
  "tiny_ids_of url = Some (take (length url - 15 - length ''&vs_currencies=usd&precision=full'') (drop 15 url))"

lemma tiny_reads_ids: "reads_ids tiny_http_client tiny_ids_of"
  by (simp add: reads_ids_def tiny_ids_of_def price_url_def tiny_http_client_def)


end
