(* ===== verification/Consume_Script.thy ===== *)
theory Consume_Script
  imports Solver_Prelude
begin

text \<open>
  The consume-asset script: \<open>prepare\<close> of \<open>consume-script/src/lib.rs\<close>, which lays the
  surplus assets of a batch out as advice for the transaction, and the transaction
  script \<open>asm/consume_asset.masm\<close>, which reads them back and receives each into the
  vault. The hash, the words of an asset and the account's \<open>receive_asset\<close> are
  parameters. The lemmas show that the script receives exactly the prepared assets, in
  order, and that it does so without checking the commitment.
\<close>

type_synonym felt = nat
type_synonym masm_word = "felt list"

section \<open>Preparing the advice\<close>

record ConsumeAssetData =
  commitment_arg :: masm_word
  advice_map_entry :: "masm_word \<times> felt list"

text \<open>The key and the value word of each asset, in order.\<close>

definition advice_felts :: "('a \<Rightarrow> masm_word) \<Rightarrow> ('a \<Rightarrow> masm_word) \<Rightarrow> 'a list \<Rightarrow> felt list" where
  "advice_felts key_word value_word assets =
     length assets # concat (map (\<lambda>asset. key_word asset @ value_word asset) assets)"

text \<open>\<open>None\<close>: the assertion that there is an asset fails.\<close>

definition prepare :: "(felt list \<Rightarrow> masm_word) \<Rightarrow> ('a \<Rightarrow> masm_word) \<Rightarrow> ('a \<Rightarrow> masm_word) \<Rightarrow> 'a list \<Rightarrow> ConsumeAssetData option" where
  "prepare hash_elements key_word value_word assets =
     (if assets = [] then None
      else
        let felts = advice_felts key_word value_word assets; commitment_key = hash_elements felts
        in Some \<lparr>commitment_arg = rev commitment_key, advice_map_entry = (commitment_key, felts)\<rparr>)"

section \<open>The script\<close>

definition ASSET_MEM_PTR :: nat where
  "ASSET_MEM_PTR = 500"

text \<open>\<open>swap movup.2 movup.3\<close> on the top word.\<close>

fun unreverse :: "masm_word \<Rightarrow> masm_word" where
  "unreverse (a # b # c # d # rest) =
     (let w1 = b # a # c # d # rest; w2 = (w1 ! 2) # take 2 w1 @ drop 3 w1 in (w2 ! 3) # take 3 w2 @ drop 4 w2)"
| "unreverse w = w"

text \<open>\<open>adv_loadw\<close>: the next word of the advice stack, or a failure of the machine.\<close>

definition adv_loadw :: "felt list \<Rightarrow> (masm_word \<times> felt list) option" where
  "adv_loadw advice = (if length advice < 4 then None else Some (take 4 advice, drop 4 advice))"

text \<open>\<open>mem_storew\<close>: addresses are 32-bit; a larger one is a failure.\<close>

definition mem_storew :: "nat \<Rightarrow> masm_word \<Rightarrow> (nat \<Rightarrow> masm_word) \<Rightarrow> (nat \<Rightarrow> masm_word) option" where
  "mem_storew ptr w mem = (if ptr < 2 ^ 32 then Some (mem(ptr := w)) else None)"

text \<open>The first loop: two words per asset from the advice stack into memory.\<close>

fun load_loop :: "nat \<Rightarrow> nat \<Rightarrow> felt list \<Rightarrow> (nat \<Rightarrow> masm_word) \<Rightarrow> (nat \<Rightarrow> masm_word) option" where
  "load_loop 0 write_ptr advice mem = Some mem"
| "load_loop (Suc remaining) write_ptr advice mem =
     Option.bind (adv_loadw advice) (\<lambda>(asset_key, advice1).
     Option.bind (mem_storew write_ptr asset_key mem) (\<lambda>mem1.
     Option.bind (adv_loadw advice1) (\<lambda>(asset_value, advice2).
     Option.bind (mem_storew (write_ptr + 4) asset_value mem1) (\<lambda>mem2.
       load_loop remaining (write_ptr + 8) advice2 mem2))))"

text \<open>The second loop: each asset in memory is received into the vault.\<close>

fun receive_loop :: "(masm_word \<Rightarrow> masm_word \<Rightarrow> 'v \<Rightarrow> 'v option) \<Rightarrow> nat \<Rightarrow> nat \<Rightarrow> (nat \<Rightarrow> masm_word) \<Rightarrow> 'v \<Rightarrow> 'v option" where
  "receive_loop receive_asset 0 read_ptr mem vault = Some vault"
| "receive_loop receive_asset (Suc num_assets) read_ptr mem vault =
     Option.bind (receive_asset (mem read_ptr) (mem (read_ptr + 4)) vault)
       (receive_loop receive_asset num_assets (read_ptr + 8) mem)"

definition consume_asset :: "(masm_word \<Rightarrow> masm_word \<Rightarrow> 'v \<Rightarrow> 'v option) \<Rightarrow> (masm_word \<Rightarrow> felt list option) \<Rightarrow> masm_word
    \<Rightarrow> (nat \<Rightarrow> masm_word) \<Rightarrow> 'v \<Rightarrow> 'v option" where
  "consume_asset receive_asset advice_map arg mem vault =
     (case advice_map (unreverse arg) of
        None \<Rightarrow> None
      | Some [] \<Rightarrow> None
      | Some (num_assets # advice) \<Rightarrow>
          if num_assets = 0 then None
          else Option.bind (load_loop num_assets ASSET_MEM_PTR advice mem)
                 (\<lambda>mem'. receive_loop receive_asset num_assets ASSET_MEM_PTR mem' vault))"

section \<open>The script receives what was prepared\<close>

lemma unreverse_rev: "length w = 4 \<Longrightarrow> unreverse (rev w) = w"
  by (auto simp: numeral_eq_Suc length_Suc_conv)

text \<open>Where the loops put and find the words of the assets.\<close>

definition laid_out :: "(nat \<Rightarrow> masm_word) \<Rightarrow> nat \<Rightarrow> (masm_word \<times> masm_word) list \<Rightarrow> bool" where
  "laid_out mem ptr ws \<longleftrightarrow> (\<forall>i < length ws. mem (ptr + 8 * i) = fst (ws ! i) \<and> mem (ptr + 8 * i + 4) = snd (ws ! i))"

lemma laid_out_Cons: "laid_out mem ptr (w # ws) \<longleftrightarrow> mem ptr = fst w \<and> mem (ptr + 4) = snd w \<and> laid_out mem (ptr + 8) ws"
  by (auto simp: laid_out_def nth_Cons less_Suc_eq_0_disj algebra_simps split: nat.splits)

definition word_sized :: "(masm_word \<times> masm_word) list \<Rightarrow> bool" where
  "word_sized ws \<longleftrightarrow> list_all (\<lambda>(k, v). length k = 4 \<and> length v = 4) ws"

lemma load_loop_layout:
  assumes "word_sized ws" "ptr + 8 * length ws < 2 ^ 32"
  shows "\<exists>mem'. load_loop (length ws) ptr (concat (map (\<lambda>(k, v). k @ v) ws)) mem = Some mem'
    \<and> laid_out mem' ptr ws \<and> (\<forall>a < ptr. mem' a = mem a)"
  using assms
proof (induction ws arbitrary: ptr mem)
  case Nil
  then show ?case by (simp add: laid_out_def)
next
  case (Cons w ws)
  obtain k v where w: "w = (k, v)" "length k = 4" "length v = 4" "word_sized ws"
    using Cons.prems(1) by (cases w) (auto simp: word_sized_def)
  have "ptr + 8 + 8 * length ws < 2 ^ 32" "ptr + 4 < 2 ^ 32"
    using Cons.prems(2) by simp_all
  moreover from Cons.IH [OF w(4) this(1), of "mem(ptr := k, ptr + 4 := v)"] obtain mem' where
    "load_loop (length ws) (ptr + 8) (concat (map (\<lambda>(k, v). k @ v) ws)) (mem(ptr := k, ptr + 4 := v)) = Some mem'"
    "laid_out mem' (ptr + 8) ws" "\<forall>a < ptr + 8. mem' a = (mem(ptr := k, ptr + 4 := v)) a"
    by blast
  ultimately show ?case
    using w(1-3) by (intro exI [of _ mem']) (simp add: adv_loadw_def mem_storew_def laid_out_Cons)
qed

lemma receive_loop_layout:
  "laid_out mem ptr ws \<Longrightarrow> receive_loop receive (length ws) ptr mem vault =
     fold (\<lambda>(k, v) s. Option.bind s (receive k v)) ws (Some vault)"
proof (induction ws arbitrary: ptr vault)
  case Nil
  then show ?case by simp
next
  case (Cons w ws)
  have none: "fold (\<lambda>(k, v) s. Option.bind s (receive k v)) xs None = None" for xs
    by (induction xs) auto
  show ?case
    using Cons by (cases w; cases "receive (fst w) (snd w) vault") (auto simp: laid_out_Cons none)
qed

lemma consume_asset_runs:
  assumes "word_sized ws" "ws \<noteq> []" "500 + 8 * length ws < 2 ^ 32" "length key = 4"
    "advice_map key = Some (length ws # concat (map (\<lambda>(k, v). k @ v) ws))"
  shows "consume_asset receive advice_map (rev key) mem vault = fold (\<lambda>(k, v) s. Option.bind s (receive k v)) ws (Some vault)"
proof -
  obtain mem' where "load_loop (length ws) 500 (concat (map (\<lambda>(k, v). k @ v) ws)) mem = Some mem'" "laid_out mem' 500 ws"
    using load_loop_layout [OF assms(1,3)] by blast
  then show ?thesis
    using assms(2,5) receive_loop_layout [of mem' 500 ws receive vault]
    by (simp add: consume_asset_def unreverse_rev [OF assms(4)] ASSET_MEM_PTR_def)
qed

text \<open>
  C24: whatever words an asset has and whatever the account's \<open>receive_asset\<close> does, the
  script run on the prepared argument and advice receives exactly the prepared assets,
  each once and in order, and fails only if one of them is refused. This holds for
  every nonempty list that fits the 32-bit memory, whatever the memory held before.
\<close>

theorem consume_script_receives:
  assumes "prepare hash_elements key_word value_word assets = Some data"
    "\<forall>xs. length (hash_elements xs) = 4" "\<forall>a. length (key_word a) = 4" "\<forall>a. length (value_word a) = 4"
    "500 + 8 * length assets < 2 ^ 32" "advice_map (fst (advice_map_entry data)) = Some (snd (advice_map_entry data))"
  shows "consume_asset receive advice_map (commitment_arg data) mem vault
    = fold (\<lambda>a s. Option.bind s (receive (key_word a) (value_word a))) assets (Some vault)"
proof -
  define ws where "ws = map (\<lambda>a. (key_word a, value_word a)) assets"
  have d: "assets \<noteq> []" "commitment_arg data = rev (hash_elements (advice_felts key_word value_word assets))"
      "advice_map_entry data = (hash_elements (advice_felts key_word value_word assets), advice_felts key_word value_word assets)"
    using assms(1) by (auto simp: prepare_def Let_def split: if_splits)
  have f: "advice_felts key_word value_word assets = length ws # concat (map (\<lambda>(k, v). k @ v) ws)"
    by (simp add: ws_def advice_felts_def comp_def)
  have "word_sized ws" "ws \<noteq> []" "500 + 8 * length ws < 2 ^ 32"
    using assms(3-5) d(1) by (auto simp: ws_def word_sized_def list_all_iff)
  from consume_asset_runs [OF this, of "hash_elements (advice_felts key_word value_word assets)" advice_map receive mem vault]
  show ?thesis
    using assms(2,6) d(2,3) f by (simp add: ws_def fold_map comp_def)
qed

text \<open>The key only selects the data: other data under the same key is received just as well.\<close>

lemma commitment_not_checked:
  assumes "word_sized ws" "ws \<noteq> []" "500 + 8 * length ws < 2 ^ 32" "length key = 4"
    "hash_elements (length ws # concat (map (\<lambda>(k, v). k @ v) ws)) \<noteq> key"
  shows "consume_asset receive [key \<mapsto> length ws # concat (map (\<lambda>(k, v). k @ v) ws)] (rev key) mem vault
    = fold (\<lambda>(k, v) s. Option.bind s (receive k v)) ws (Some vault)"
  by (rule consume_asset_runs [OF assms(1-4)]) simp

text \<open>Two assets, a vault that adds up amounts by token.\<close>

definition tiny_receive :: "masm_word \<Rightarrow> masm_word \<Rightarrow> (nat \<times> nat) list \<Rightarrow> (nat \<times> nat) list option" where
  "tiny_receive k v vault = Some ((hd k, hd v) # vault)"

theorem consume_script_receives_witness:
  "\<exists>data. prepare (\<lambda>xs. [hd xs, 1, 2, 3]) (\<lambda>(t, n). [t, 0, 0, 1]) (\<lambda>(t, n). [n, 0, 0, 0]) [(7, 100), (8, 50)] = Some data
     \<and> consume_asset tiny_receive [fst (advice_map_entry data) \<mapsto> snd (advice_map_entry data)] (commitment_arg data) (\<lambda>_. []) [] = Some [(8, 50), (7, 100)]"
proof -
  obtain data where d: "prepare (\<lambda>xs. [hd xs, 1, 2, 3]) (\<lambda>(t, n). [t, 0, 0, 1]) (\<lambda>(t, n). [n, 0, 0, 0]) [(7, 100), (8, 50)] = Some data"
    by (simp add: prepare_def Let_def)
  have "consume_asset tiny_receive [fst (advice_map_entry data) \<mapsto> snd (advice_map_entry data)] (commitment_arg data) (\<lambda>_. []) []
      = fold (\<lambda>a s. Option.bind s (tiny_receive ((\<lambda>(t, n). [t, 0, 0, 1]) a) ((\<lambda>(t, n). [n, 0, 0, 0]) a))) [(7, 100), (8, 50)] (Some [])"
    by (rule consume_script_receives [OF d]) auto
  with d show ?thesis
    by (auto simp: tiny_receive_def)
qed

end
