(* ===== verification/Spec2Isabelle.thy ===== *)
theory Spec2Isabelle
  imports Settlement_Safety Router_Props Ingest Token_Admin Price_Api Obs Lp_Client Mirror Start Mock_Price Consume_Script
begin

text \<open>
  \<^bold>\<open>Verification of the PSWAP solver.\<close>

  The solver (\<open>src/crates/solver\<close>) watches a chain for PSWAP notes, which are orders
  that offer an amount of one token for an amount of another, matches them against each
  other, and settles the matches in transactions of its own account, keeping the
  surplus. What it cannot match it hands to external exchanges, which quote over a
  websocket (\<open>src/crates/lp-sdk\<close> is their side). A store survives restarts; an admin
  API, a price API and an observability server surround the pipeline.

  \<^bold>\<open>How the parts interact.\<close> The binary (\<open>src/src/main.rs\<close>) loads the configuration and calls
  \<open>start\<close>, which prepares the store and creates the threads. Ingestion syncs with the
  node, stores new orders and sends them to the matcher. The matcher owns the order
  book; each tick it drains its channels, runs the engine (the direct phase, then the
  triangular phase), sends the filled orders as a batch to the executor, and offers the
  residual orders to the exchanges. The executor turns a batch into a transaction,
  submits it with retries and moves the orders through their statuses, handing those
  that stay active back to the matcher. The router publishes the standing quotes of the
  exchanges to the matcher and delivers the notes the matcher selects. The price
  service polls prices, rounded for the matcher and in full precision for the API.

  \<^bold>\<open>Theories and sources.\<close>

  \<^item> \<open>Solver_Prelude\<close>, \<open>Ordered_Map\<close>, \<open>Std_Text\<close>: what the sources use of the language and its
    library (64- and 128-bit words with wrapping, saturating and checked operations,
    \<open>BTreeMap\<close>, text, signed integers), their readings as numbers, and the interfaces
    \<open>key_order\<close>, \<open>ordered_keys\<close> and \<open>invariant_system\<close>, which the components interpret.
  \<^item> \<open>Matching_Types\<close>: \<open>matching/types.rs\<close>; order arithmetic and the match of two orders.
    \<open>Price_Feed\<close>: \<open>matching/price_feed.rs\<close>.
  \<^item> \<open>Order_Book\<close>, \<open>Order_Book_Inv\<close>, \<open>Order_Book_Props\<close>: \<open>matching/order_book.rs\<close>; every operation,
    the invariant each keeps, and the refinement of lists in price-time priority.
  \<^item> \<open>Settlement_Flow\<close>: the net movement of every token when a book is settled, against
    which solvency is stated.
  \<^item> \<open>Direct_Matching\<close>, \<open>Three_Edge_Cycle\<close>, \<open>Three_Edge_Props\<close>, \<open>Engine\<close>:
    \<open>matching/direct_matching.rs\<close>, \<open>three_edge_cycle.rs\<close>, \<open>engine.rs\<close>; both phases return on every
    well-formed book, the direct phase and the cycles that cover themselves keep it
    solvent, and a batch reports exactly what was filled.
  \<^item> \<open>Pipeline_Types\<close>, \<open>Db\<close>: \<open>types.rs\<close>, \<open>order.rs\<close>, \<open>db/\<close>; statuses, messages and every query of
    the store, typing of its rows, recovery after a crash.
  \<^item> \<open>Select_Notes\<close>, \<open>Swap_Eta\<close>: \<open>router/select.rs\<close>, \<open>swap_eta.rs\<close>.
  \<^item> \<open>Matcher\<close>, \<open>Matcher_Props\<close>: \<open>matcher/matcher.rs\<close>; one function per step of a tick, the
    invariant between ticks, exactness of the external pass.
  \<^item> \<open>Executor\<close>, \<open>Executor_Props\<close>: \<open>executor/executor.rs\<close>; preparation, submission,
    classification, and what becomes of every order of a batch.
  \<^item> \<open>Settlement_Safety\<close>: matcher and executor together.
  \<^item> \<open>Consume_Script\<close>: \<open>consume-script/src/lib.rs\<close> and \<open>asm/consume_asset.masm\<close>; the script
    that moves the surplus into the vault receives exactly what was prepared.
  \<^item> \<open>Protocol\<close>, \<open>Router_Server\<close>, \<open>Router_Props\<close>, \<open>Lp_Client\<close>: \<open>lp-sdk/src/protocol.rs\<close>,
    \<open>router/server.rs\<close>, \<open>lp-sdk/src/client.rs\<close> and \<open>consume.rs\<close>; the wire format, the server,
    the client with its reconnecting link, and a quote's way from one end to the other.
  \<^item> \<open>Ingest\<close>, \<open>Token_Admin\<close>: \<open>ingest/ingest.rs\<close>, \<open>admin/admin.rs\<close>, \<open>price/token_map.rs\<close> and the
    registration side of \<open>pipeline.rs\<close>.
  \<^item> \<open>Price_Loop\<close>, \<open>Config\<close>, \<open>Price_Api\<close>, \<open>Obs\<close>: \<open>price/price.rs\<close>, \<open>price/coingecko.rs\<close>, \<open>config.rs\<close>,
    \<open>price_api.rs\<close>, \<open>obs.rs\<close>.
  \<^item> \<open>Start\<close>: \<open>start.rs\<close>, \<open>PipelineConfig\<close> of \<open>pipeline.rs\<close>, and the binary's \<open>main.rs\<close> and
    \<open>client_factory.rs\<close>.
  \<^item> \<open>Mirror\<close>, \<open>Mock_Price\<close>: the test services \<open>mock-mirror\<close> and \<open>mock-price\<close>.

  \<^bold>\<open>How state and effects are modelled.\<close> A struct is a record, an enum a datatype, an
  amount a word of its width. A method takes the state and returns it with its result;
  what a channel, clock, socket, thread or database write does during a call is an
  argument, so every error path is a value. Hash maps are partial functions, and the
  order in which one is walked is an argument constrained only by \<open>walks\<close>. Where tasks
  interleave (admin API and relay, connections of the router, requests of the price
  API, actions around a client's link) the composition is a step relation or a list
  of actions, and the invariants are proved by the interface \<open>invariant_system\<close>.

  \<^bold>\<open>Parameters.\<close> The protocol crates, the client library, the serializers, floats and HTTP are
  not part of the repository. They are the records \<open>protocol\<close>, \<open>chain\<close>, \<open>wire\<close>,
  \<open>token_codec\<close>, \<open>reg_client\<close>, \<open>api_lib\<close>, \<open>float_ops\<close> and \<open>f64_ops\<close>, with the hypotheses
  \<open>lawful_wire\<close>, \<open>codec_ok\<close>, \<open>readers_ok\<close>, \<open>reads_ids\<close>, \<open>lossy_chain\<close> and those of
  \<open>Settlement_Safety\<close> (the bytes of a note commit to its terms) where a property relies
  on them. Each such property is followed by a concrete instance.

  \<^bold>\<open>Loops.\<close> The loop over a pair, the heap loop and the phases are partial functions whose
  \<open>None\<close> would mean that they do not return; they are proved to return. The retry
  loops count down the attempts of the source (six submissions each), and running out is
  shown impossible. Endless service loops are functions of the finite list of inputs
  they have met, so a statement about every list is one about every moment of a run.

  \<^bold>\<open>What the properties show.\<close> Settlement: without triangular matching every batch can be
  prepared (C1), every order of a batch has exactly one of the documented fates (C2),
  matching is solvent and terminates (C3, C26 to C28, C34, C35), preparation accepts
  exactly the solvent batches (C14), and with triangular matching a batch can strand its
  orders (C13). Book and matcher: the invariants
  (C4, C5), the refinements (C36, C37), selection and handover of notes (C29 to C31).
  Ingestion, store and registry: C6, C16, C18, C19, C32, C33. Router and providers:
  C7 to C12 and C15. Start-up: C17, C25. Prices and readiness: C20 to C23. The consume
  script: C24. Test services: C38 to C40.

  \<^bold>\<open>Not modelled.\<close> Logging and the diagnostics dump of the executor; argument parsing and
  signal handling of the binaries; runtimes, task spawning, the supervision of tasks
  after start-up and the listening sockets beyond whether they succeed; the creation of
  the channels, which are lists or acceptance counts where they matter; the layers of the
  HTTP framework other than the concurrency guard and the cache header; the command line and account provisioning
  of the mock mirror (\<open>main.rs\<close>, \<open>ops.rs\<close>); the devnet harness (\<open>src/crates/e2e\<close>), which drives
  the client library against a network; \<open>src/src/config.rs\<close>, which no module declares; and
  test code. These parts only perform input and output or call code that is not in the
  repository.
\<close>

end
